(* ===== verification/Prelude.thy ===== *)
theory Prelude
  imports Main "HOL-Library.Word" "HOL-Library.Multiset" "HOL-Library.Monad_Syntax"
    "HOL-Library.Sublist"
begin

unbundle bit_operations_syntax

text \<open>
  Shared vocabulary of the development: the machine types of the program, the fact collections
  that the component theories fill, and the generic lemmas on lists and options they share.

  Conventions. A C \<open>int\<close> (descriptors, pids, return values, errno) is an \<^typ>\<open>int\<close>; values the
  code treats as bit patterns or as wrapping counters are words; \<open>usize\<close> is a \<^typ>\<open>nat\<close> (the
  target is a 64-bit little-endian Linux, on which no length in the code can reach \<open>2 ^ 63\<close>).
  Code that may fail returns \<^typ>\<open>'e + 'a\<close> with \<^const>\<open>Inl\<close> for \<open>Err\<close>; code with an unbounded loop
  returns an \<^typ>\<open>'a option\<close>, where \<^const>\<open>None\<close> is "does not return".
\<close>

type_synonym byte = "8 word"
type_synonym u32 = "32 word"
type_synonym u64 = "64 word"

named_theorems frame_simps \<open>which parts of the world an operation leaves alone\<close>
named_theorems retry_defs \<open>the answers of the retry loops\<close>

section \<open>Buffers\<close>

text \<open>
  \<open>store buf bs\<close> is the memory \<open>buf\<close> after a write of \<open>bs\<close> at its start, as \<open>read(2)\<close> fills the
  buffer it is given. Bytes past the end of the buffer are not written.
\<close>

definition store :: "'a list \<Rightarrow> 'a list \<Rightarrow> 'a list" where
  "store buf bs = take (length buf) bs @ drop (length bs) buf"

lemma length_store [simp]: "length (store buf bs) = length buf"
  by (simp add: store_def)

lemma take_store [simp]: "n \<le> length bs \<Longrightarrow> n \<le> length buf \<Longrightarrow> take n (store buf bs) = take n bs"
  by (simp add: store_def min_def)

lemma store_Nil [simp]: "store buf [] = buf"
  by (simp add: store_def)

text \<open>Filling a bounded buffer chunk by chunk is the same as cutting the whole stream once.\<close>

lemma take_append_take:
  "length xs \<le> n \<Longrightarrow> length ys \<le> n - length xs \<Longrightarrow> take n (xs @ ys @ zs) = (xs @ ys) @ take (n - length xs - length ys) zs"
  by simp

lemma take_max_id: "length xs \<ge> n \<Longrightarrow> take (max n (length xs)) (xs @ ys) = xs"
  by (simp add: max_def)

text \<open>Two decompositions of a list around different elements, the first of which is not in the earlier part.\<close>

lemma later_element:
  assumes "xs @ a # ys = us @ b # vs" and "a \<notin> set us" and "a \<noteq> b"
  obtains zs where "xs = us @ b # zs" and "vs = zs @ a # ys"
proof -
  have "\<exists>zs. xs = us @ b # zs \<and> vs = zs @ a # ys"
    using assms
  proof (induction us arbitrary: xs)
    case Nil
    then show ?case by (cases xs) auto
  next
    case (Cons u us)
    then show ?case by (cases xs) auto
  qed
  then show thesis using that by blast
qed

section \<open>Options and sums\<close>

lemma bind_Some_conv: "(Option.bind m f = Some y) \<longleftrightarrow> (\<exists>x. m = Some x \<and> f x = Some y)"
  by (cases m) auto

definition is_ok :: "'e + 'a \<Rightarrow> bool" where
  "is_ok r = (case r of Inl _ \<Rightarrow> False | Inr _ \<Rightarrow> True)"

lemma is_ok_simps [simp]: "is_ok (Inr x)" "\<not> is_ok (Inl e)"
  by (simp_all add: is_ok_def)

text \<open>Evaluate the left of a bind before looking at the continuation, when a closed term is run.\<close>

lemma bind_eval_cong: "m = m' \<Longrightarrow> Option.bind m f = Option.bind m' f"
  by simp

lemma io_exhaust:
  fixes res :: "'e + 'a option"
  obtains (err) e where "res = Inl e" | (block) "res = Inr None" | (data) n where "res = Inr (Some n)"
proof (cases res)
  case (Inr x)
  with that show thesis by (cases x) auto
qed (use that in auto)

definition opt_mset :: "('a \<Rightarrow> 'b multiset) \<Rightarrow> 'a option \<Rightarrow> 'b multiset" where
  "opt_mset f x = (case x of None \<Rightarrow> {#} | Some y \<Rightarrow> f y)"

lemma opt_mset_simps [simp]: "opt_mset f None = {#}" "opt_mset f (Some y) = f y"
  by (simp_all add: opt_mset_def)

end
