(* ===== verification/Kernel.thy ===== *)
theory Kernel
  imports Prelude
begin

text \<open>
  The boundary between the program and the operating system. Nothing here is code of the
  repository: the kernel and the C library are a parameter, a value of type \<open>'k os\<close> that answers
  each \<open>call\<close> with a \<open>reply\<close> and a next kernel state. A \<open>world\<close> is the kernel state, the thread's
  \<open>errno\<close> and the trace of all calls made so far with their replies; the trace is what the
  properties about ordering, ownership of descriptors and signals speak of. The predicates at
  the end state documented behaviour of the calls and are used as hypotheses by name.
\<close>

section \<open>Constants of the Linux ABI\<close>

definition EINTR :: int where [simp]: "EINTR = 4"
definition EAGAIN :: int where [simp]: "EAGAIN = 11"
definition EWOULDBLOCK :: int where [simp]: "EWOULDBLOCK = 11"
definition EPIPE :: int where [simp]: "EPIPE = 32"
definition EINVAL :: int where [simp]: "EINVAL = 22"
definition ESRCH :: int where [simp]: "ESRCH = 3"
definition ENOENT :: int where [simp]: "ENOENT = 2"

definition O_NONBLOCK :: int where [simp]: "O_NONBLOCK = 2048"
definition O_CLOEXEC :: int where [simp]: "O_CLOEXEC = 524288"
definition FD_CLOEXEC :: int where [simp]: "FD_CLOEXEC = 1"

definition SIGINT :: int where [simp]: "SIGINT = 2"
definition SIGKILL :: int where [simp]: "SIGKILL = 9"
definition SIGPIPE :: int where [simp]: "SIGPIPE = 13"
definition SIGTERM :: int where [simp]: "SIGTERM = 15"
definition SIGCHLD :: int where [simp]: "SIGCHLD = 17"
definition WNOHANG :: int where [simp]: "WNOHANG = 1"

section \<open>Calls and replies\<close>

datatype handler = Shutdown_handler | Other_handler int

record sigact =
  sa_handler :: handler
  sa_flags :: int
  sa_mask :: "int set"

datatype (plugins only: code) call =
    Read int nat
  | Write int "byte list"
  | Close int
  | Dup2 int int
  | FcntlGetfl int
  | FcntlSetfl int int
  | FcntlGetfd int
  | FcntlSetfd int int
  | Pipe2 int
  | EpollCreate1 int
  | EpollCtlAdd int int u32 u64
  | EpollCtlDel int int
  | EpollWait int int int
  | InotifyInit1 int
  | InotifyAddWatch int "byte list" u32
  | Sigprocmask int "int set"
  | Signalfd int "int set" int
  | Sigaction int sigact
  | SignalDfl int
  | Readahead int int nat
  | Access "byte list" int
  | Lstat "byte list"
  | Stat "byte list"
  | ReadFile "byte list"
  | Sysconf int
  | PropertyGet "byte list"
  | Waitpid int int
  | Kill int int
  | Fork
  | Setsid
  | Chdir "byte list"
  | Setpgid int int
  | Execve "byte list" "byte list list" "byte list list option"
  | ExitNow int
  | CloseRange int int int
  | FaInit
  | FaAddDup2 int int
  | FaAddClose int
  | FaDestroy
  | AttrInit
  | AttrSetpgroup int
  | AttrSetflags int
  | AttrSetsigmask "int set"
  | AttrSetsigdefault "int set"
  | AttrDestroy
  | PosixSpawn "byte list" "byte list list" "byte list list option"
  | OpenFdDir
  | Fdopendir int
  | Readdir int
  | Closedir int
  | Clock

datatype payload =
    NoOut
  | OutBytes "byte list"
  | OutFds int int
  | OutNum int
  | OutEvents "(u32 \<times> u64) list"
  | OutSigact sigact

record reply =
  r_ret :: int
  r_errno :: int
  r_out :: payload

fun out_bytes :: "payload \<Rightarrow> byte list" where
  "out_bytes (OutBytes bs) = bs"
| "out_bytes _ = []"

fun out_fds :: "payload \<Rightarrow> int \<times> int" where
  "out_fds (OutFds a b) = (a, b)"
| "out_fds _ = (0, 0)"

fun out_num :: "payload \<Rightarrow> int" where
  "out_num (OutNum n) = n"
| "out_num _ = 0"

fun out_events :: "payload \<Rightarrow> (u32 \<times> u64) list" where
  "out_events (OutEvents es) = es"
| "out_events _ = []"

text \<open>The previous disposition; the caller's zeroed structure where the kernel stores nothing.\<close>

fun out_sigact :: "payload \<Rightarrow> sigact" where
  "out_sigact (OutSigact a) = a"
| "out_sigact _ = \<lparr>sa_handler = Other_handler 0, sa_flags = 0, sa_mask = {}\<rparr>"

type_synonym event_log = "(call \<times> reply) list"

record 'k os =
  trap :: "call \<Rightarrow> 'k \<Rightarrow> reply \<times> 'k"
  os_WIFEXITED :: "int \<Rightarrow> bool"
  os_WEXITSTATUS :: "int \<Rightarrow> int"
  os_WIFSIGNALED :: "int \<Rightarrow> bool"
  os_WTERMSIG :: "int \<Rightarrow> int"

record 'k world =
  kst :: 'k
  errno :: int
  trace :: event_log

text \<open>One call: the kernel moves, a failing call sets \<open>errno\<close>, and the call is recorded.\<close>

definition sys :: "'k os \<Rightarrow> call \<Rightarrow> 'k world \<Rightarrow> reply \<times> 'k world" where
  "sys K c w =
     (let (r, k) = trap K c (kst w)
      in (r, w\<lparr>kst := k, errno := (if r_ret r < 0 then r_errno r else errno w),
               trace := trace w @ [(c, r)]\<rparr>))"

lemma sysD:
  assumes "sys K c w = (r, w')"
  shows "trace w' = trace w @ [(c, r)]" and "trap K c (kst w) = (r, kst w')"
    and "r_ret r < 0 \<Longrightarrow> errno w' = r_errno r"
  using assms by (auto simp: sys_def split: prod.splits)

lemma sys_trace [simp]: "trace (snd (sys K c w)) = trace w @ [(c, fst (sys K c w))]"
  by (simp add: sys_def split: prod.splits)

section \<open>Traces of a run\<close>

text \<open>\<open>runs w w' t\<close>: between the worlds \<open>w\<close> and \<open>w'\<close> exactly the calls \<open>t\<close> were made.\<close>

definition runs :: "'k world \<Rightarrow> 'k world \<Rightarrow> event_log \<Rightarrow> bool" where
  "runs w w' t \<longleftrightarrow> trace w' = trace w @ t"

lemma runs_refl [simp]: "runs w w t \<longleftrightarrow> t = []"
  by (auto simp: runs_def)

lemma runs_sys: "sys K c w = (r, w') \<Longrightarrow> runs w w' [(c, r)]"
  by (simp add: runs_def sysD)

lemma runs_trans: "runs w w1 s \<Longrightarrow> runs w1 w2 t \<Longrightarrow> runs w w2 (s @ t)"
  by (simp add: runs_def)

lemma runs_unique: "runs w w' s \<Longrightarrow> runs w w' t \<Longrightarrow> s = t"
  by (simp add: runs_def)

section \<open>Machines that read a trace\<close>

text \<open>
  Most properties follow one thing through a trace: the open descriptors, the state of a kill policy,
  the life of an attribute object. Such a machine is a step function that may reject an event.
  \<open>tracks f w w' s s'\<close> says that the machine \<open>f\<close> accepts the calls made from \<open>w\<close> to \<open>w'\<close> and goes from \<open>s\<close> to \<open>s'\<close>.
\<close>

fun track :: "('e \<Rightarrow> 's \<Rightarrow> 's option) \<Rightarrow> 'e list \<Rightarrow> 's \<Rightarrow> 's option" where
  "track f [] s = Some s"
| "track f (e # t) s = Option.bind (f e s) (track f t)"

lemma track_append: "track f (s @ t) a = Option.bind (track f s a) (track f t)"
  by (induction s arbitrary: a) (auto split: Option.bind_splits)

lemma track_idle: "list_all (\<lambda>e. f e s = Some s) t \<Longrightarrow> track f t s = Some s"
  by (induction t) auto

definition tracks ::
  "(call \<times> reply \<Rightarrow> 's \<Rightarrow> 's option) \<Rightarrow> 'k world \<Rightarrow> 'k world \<Rightarrow> 's \<Rightarrow> 's \<Rightarrow> bool" where
  "tracks f w w' s s' \<longleftrightarrow> (\<exists>t. runs w w' t \<and> track f t s = Some s')"

lemma tracks_refl [simp]: "tracks f w w s s' \<longleftrightarrow> s' = s"
  by (auto simp: tracks_def)

lemma tracks_trans: "tracks f w w1 s s1 \<Longrightarrow> tracks f w1 w2 s1 s2 \<Longrightarrow> tracks f w w2 s s2"
  unfolding tracks_def by (metis runs_trans track_append Option.bind.bind_lunit)

lemma tracks_sys: "sys K c w = (r, w') \<Longrightarrow> f (c, r) s = Some s' \<Longrightarrow> tracks f w w' s s'"
  unfolding tracks_def by (intro exI [of _ "[(c, r)]"]) (simp add: runs_sys)

lemma tracks_run: "tracks f w w' s s' \<Longrightarrow> runs w w' t \<Longrightarrow> track f t s = Some s'"
  unfolding tracks_def using runs_unique by blast

section \<open>Who owns which descriptor\<close>

text \<open>
  The effect of one recorded call on the multiset of open descriptors the program is
  responsible for. A call that creates descriptors adds them; a close takes the descriptor away
  and is an error (\<^const>\<open>None\<close>) when the program does not own it, so that a successful \<open>replay\<close>
  rules out double closes and closes of foreign descriptors as well as leaks.
\<close>

definition nonneg :: "int \<Rightarrow> int multiset" where
  "nonneg n = (if 0 \<le> n then {#n#} else {#})"

lemma nonneg_simps [simp]: "0 \<le> n \<Longrightarrow> nonneg n = {#n#}" "n < 0 \<Longrightarrow> nonneg n = {#}"
  by (simp_all add: nonneg_def)

definition release :: "int \<Rightarrow> int multiset \<Rightarrow> int multiset option" where
  "release n A = (if n \<in># A then Some (A - {#n#}) else None)"

definition own_step :: "call \<times> reply \<Rightarrow> int multiset \<Rightarrow> int multiset option" where
  "own_step e A =
     (case fst e of
        Pipe2 _ \<Rightarrow>
          Some (if r_ret (snd e) = -1 then A
                else A + nonneg (fst (out_fds (r_out (snd e)))) + nonneg (snd (out_fds (r_out (snd e)))))
      | EpollCreate1 _ \<Rightarrow> Some (A + nonneg (r_ret (snd e)))
      | InotifyInit1 _ \<Rightarrow> Some (A + nonneg (r_ret (snd e)))
      | Signalfd _ _ _ \<Rightarrow> Some (A + nonneg (r_ret (snd e)))
      | OpenFdDir \<Rightarrow> Some (A + nonneg (r_ret (snd e)))
      | Close n \<Rightarrow> release n A
      | Closedir n \<Rightarrow> release n A
      | _ \<Rightarrow> Some A)"

text \<open>The calls that open and close nothing.\<close>

lemma own_step_neutral [simp]:
  "own_step (Dup2 a b, r) A = Some A"
  "own_step (FcntlGetfl a, r) A = Some A"
  "own_step (FcntlSetfl a b, r) A = Some A"
  "own_step (FcntlGetfd a, r) A = Some A"
  "own_step (FcntlSetfd a b, r) A = Some A"
  "own_step (EpollCtlAdd a b c d, r) A = Some A"
  "own_step (EpollCtlDel a b, r) A = Some A"
  "own_step (EpollWait a b i, r) A = Some A"
  "own_step (InotifyAddWatch a x c, r) A = Some A"
  "own_step (Sigprocmask a s, r) A = Some A"
  "own_step (Sigaction a g, r) A = Some A"
  "own_step (SignalDfl a, r) A = Some A"
  "own_step (Readahead a b n, r) A = Some A"
  "own_step (Access x a, r) A = Some A"
  "own_step (Lstat x, r) A = Some A"
  "own_step (Stat x, r) A = Some A"
  "own_step (ReadFile x, r) A = Some A"
  "own_step (Sysconf a, r) A = Some A"
  "own_step (PropertyGet x, r) A = Some A"
  "own_step (Waitpid a b, r) A = Some A"
  "own_step (Kill a b, r) A = Some A"
  "own_step (Fork, r) A = Some A"
  "own_step (Setsid, r) A = Some A"
  "own_step (Chdir x, r) A = Some A"
  "own_step (Setpgid a b, r) A = Some A"
  "own_step (Execve x y z, r) A = Some A"
  "own_step (ExitNow a, r) A = Some A"
  "own_step (CloseRange a b i, r) A = Some A"
  "own_step (FaInit, r) A = Some A"
  "own_step (FaAddDup2 a b, r) A = Some A"
  "own_step (FaAddClose a, r) A = Some A"
  "own_step (FaDestroy, r) A = Some A"
  "own_step (AttrInit, r) A = Some A"
  "own_step (AttrSetpgroup a, r) A = Some A"
  "own_step (AttrSetflags a, r) A = Some A"
  "own_step (AttrSetsigmask s, r) A = Some A"
  "own_step (AttrSetsigdefault s, r) A = Some A"
  "own_step (AttrDestroy, r) A = Some A"
  "own_step (PosixSpawn x y z, r) A = Some A"
  "own_step (Fdopendir a, r) A = Some A"
  "own_step (Readdir a, r) A = Some A"
  "own_step (Clock, r) A = Some A"
  "own_step (Read a n, r) A = Some A"
  "own_step (Write a x, r) A = Some A"
  by (simp_all add: own_step_def)

abbreviation replay :: "event_log \<Rightarrow> int multiset \<Rightarrow> int multiset option" where
  "replay \<equiv> track own_step"

lemma release_frame: "release n A = Some B \<Longrightarrow> release n (A + F) = Some (B + F)"
  by (auto simp: release_def split: if_splits)

lemma own_step_frame: "own_step e A = Some B \<Longrightarrow> own_step e (A + F) = Some (B + F)"
  by (auto simp: own_step_def release_frame union_ac split: call.splits)

lemma replay_frame: "replay t A = Some B \<Longrightarrow> replay t (A + F) = Some (B + F)"
proof (induction t arbitrary: A)
  case Nil
  then show ?case by simp
next
  case (Cons e t)
  then obtain C where "own_step e A = Some C" "replay t C = Some B"
    by (auto simp: bind_Some_conv)
  with Cons.IH show ?case by (simp add: own_step_frame)
qed

text \<open>
  \<open>moves w w' A B\<close>: a run from \<open>w\<close> to \<open>w'\<close> that starts owning \<open>A\<close> ends owning \<open>B\<close>, having closed
  only what it owned. The rules compose runs and frame out what a run does not touch.
\<close>

definition moves :: "'k world \<Rightarrow> 'k world \<Rightarrow> int multiset \<Rightarrow> int multiset \<Rightarrow> bool" where
  "moves w w' A B \<longleftrightarrow> (\<exists>t. runs w w' t \<and> replay t A = Some B)"

lemma moves_refl [simp]: "moves w w A A"
  by (simp add: moves_def)

lemma moves_trans: "moves w w1 A B \<Longrightarrow> moves w1 w2 B C \<Longrightarrow> moves w w2 A C"
  unfolding moves_def by (metis runs_trans track_append Option.bind.bind_lunit)

lemma moves_frame: "moves w w' A B \<Longrightarrow> moves w w' (A + F) (B + F)"
  unfolding moves_def using replay_frame by blast

lemma moves_sys:
  "sys K c w = (r, w') \<Longrightarrow> own_step (c, r) A = Some B \<Longrightarrow> moves w w' A B"
  unfolding moves_def using runs_sys by fastforce

text \<open>
  \<open>makes P w w'\<close>: every call of a run from \<open>w\<close> to \<open>w'\<close> is one of \<open>P\<close>. A call is \<open>neutral\<close> when it opens
  and closes nothing, so a run of neutral calls moves no descriptor.
\<close>

definition makes :: "(call \<Rightarrow> bool) \<Rightarrow> 'k world \<Rightarrow> 'k world \<Rightarrow> bool" where
  "makes P w w' \<longleftrightarrow> (\<exists>t. runs w w' t \<and> list_all (\<lambda>e. P (fst e)) t)"

definition neutral :: "call \<Rightarrow> bool" where
  "neutral c \<longleftrightarrow> (\<forall>r A. own_step (c, r) A = Some A)"

lemma makes_refl [simp]: "makes P w w"
  by (simp add: makes_def)

lemma makes_sys: "sys K c w = (r, w') \<Longrightarrow> P c \<Longrightarrow> makes P w w'"
  unfolding makes_def by (intro exI [of _ "[(c, r)]"]) (simp add: runs_sys)

lemma makes_snd: "P c \<Longrightarrow> makes P w (snd (sys K c w))"
  by (metis makes_sys prod.collapse)

lemma makes_trans: "makes P w w1 \<Longrightarrow> makes P w1 w2 \<Longrightarrow> makes P w w2"
  unfolding makes_def using runs_trans by fastforce

lemma makes_mono: "makes P w w' \<Longrightarrow> (\<And>c. P c \<Longrightarrow> Q c) \<Longrightarrow> makes Q w w'"
  unfolding makes_def by (metis (mono_tags, lifting) list.pred_mono_strong)

lemma makes_tracks:
  assumes "makes P w w'" and "\<And>c r. P c \<Longrightarrow> f (c, r) s = Some s"
  shows "tracks f w w' s s"
proof -
  obtain t where t: "runs w w' t" "list_all (\<lambda>e. P (fst e)) t" using assms(1) unfolding makes_def by blast
  have "list_all (\<lambda>e. f e s = Some s) t"
    using t(2)
  proof (rule list.pred_mono_strong)
    fix e :: "call \<times> reply" assume "P (fst e)"
    then show "f e s = Some s" using assms(2) [of "fst e" "snd e"] by simp
  qed
  then have "track f t s = Some s" by (rule track_idle)
  with t(1) show ?thesis unfolding tracks_def by (intro exI [of _ t] conjI)
qed

text \<open>
  The interface of a machine over traces: some calls are \<open>idle\<close> for it in a state, which it then keeps. A
  run of idle calls is a run of the machine that goes nowhere; so an operation is brought under a machine
  by saying which calls it makes.
\<close>

locale trace_machine =
  fixes step :: "call \<times> reply \<Rightarrow> 's \<Rightarrow> 's option" and idle :: "'s \<Rightarrow> call \<Rightarrow> bool"
  assumes idle_step: "idle s c \<Longrightarrow> step (c, r) s = Some s"
begin

lemma idle_makes: "makes P w w' \<Longrightarrow> (\<And>c. P c \<Longrightarrow> idle s c) \<Longrightarrow> tracks step w w' s s"
  by (erule makes_tracks) (blast intro: idle_step)

lemma idle_run: "makes (idle s) w w' \<Longrightarrow> tracks step w w' s s"
  by (erule idle_makes)

lemma idle_sys: "sys K c w = (r, w') \<Longrightarrow> idle s c \<Longrightarrow> tracks step w w' s s"
  by (rule idle_run, erule makes_sys)

lemma idle_snd: "idle s c \<Longrightarrow> tracks step w (snd (sys K c w)) s s"
  by (rule idle_run, erule makes_snd)

end

interpretation ownership: trace_machine own_step "\<lambda>_. neutral"
  by unfold_locales (simp add: neutral_def)

lemma moves_tracks: "moves w w' A B \<longleftrightarrow> tracks own_step w w' A B"
  unfolding moves_def tracks_def ..

lemma makes_moves: "makes P w w' \<Longrightarrow> (\<And>c. P c \<Longrightarrow> neutral c) \<Longrightarrow> moves w w' A A"
  unfolding moves_tracks by (rule ownership.idle_makes)

lemma sys_neutral: "neutral c \<Longrightarrow> moves w (snd (sys K c w)) A A"
  unfolding moves_tracks by (rule ownership.idle_snd)

lemma neutral_sys: "neutral c \<Longrightarrow> sys K c w = (r, w') \<Longrightarrow> moves w w' A A"
  unfolding moves_tracks by (rule ownership.idle_sys)

lemma neutral_calls [simp]:
  "neutral (FaAddDup2 a b)" "neutral (FaAddClose a)" "neutral FaInit" "neutral FaDestroy"
  "neutral AttrInit" "neutral AttrDestroy" "neutral (AttrSetpgroup a)" "neutral (AttrSetflags a)"
  "neutral (AttrSetsigmask S)" "neutral (AttrSetsigdefault S)" "neutral (PosixSpawn x y z)"
  "neutral Fork" "neutral (Dup2 a b)" "neutral (CloseRange a b c)" "neutral Setsid"
  "neutral (Chdir x)" "neutral (Setpgid a b)" "neutral (Execve x y z)" "neutral (ExitNow a)"
  "neutral (Sigprocmask a S)" "neutral (SignalDfl a)" "neutral (Readdir a)" "neutral (Fdopendir a)"
  "neutral (PropertyGet x)" "neutral (Kill a b)" "neutral Clock" "neutral (Waitpid a b)"
  "neutral (Read a n)" "neutral (Write a x)" "neutral (FcntlGetfl a)" "neutral (FcntlSetfl a b)"
  "neutral (EpollWait a b c)" "neutral (EpollCtlDel a b)"
  by (simp_all add: neutral_def)

section \<open>Finite and endless executions\<close>

text \<open>
  \<open>execs K w t w'\<close>: the kernel \<open>K\<close> really gives these replies when these calls are made from \<open>w\<close> on; \<open>runs\<close> is
  what the trace alone shows of it. \<open>endless K P w\<close>: from \<open>w\<close> on the kernel can be called without end so that
  every call and its reply are of the kind \<open>P\<close>; this is how an operation that does not return is described.
\<close>

inductive execs :: "'k os \<Rightarrow> 'k world \<Rightarrow> event_log \<Rightarrow> 'k world \<Rightarrow> bool" for K where
  none: "execs K w [] w"
| call: "sys K c w = (r, w1) \<Longrightarrow> execs K w1 t w' \<Longrightarrow> execs K w ((c, r) # t) w'"

inductive_simps execs_simps [simp]: "execs K w [] w'" "execs K w (e # t) w'"

coinductive endless :: "'k os \<Rightarrow> (call \<times> reply \<Rightarrow> bool) \<Rightarrow> 'k world \<Rightarrow> bool" for K P where
  "sys K c w = (r, w1) \<Longrightarrow> P (c, r) \<Longrightarrow> endless K P w1 \<Longrightarrow> endless K P w"

lemma execs_runs: "execs K w t w' \<Longrightarrow> runs w w' t"
proof (induction rule: execs.induct)
  case (call c w r w1 t w')
  from runs_trans [OF runs_sys [OF call(1)] call.IH] show ?case by simp
qed simp

lemma execs_trans: "execs K w s w1 \<Longrightarrow> execs K w1 t w' \<Longrightarrow> execs K w (s @ t) w'"
  by (induction rule: execs.induct) auto

lemma endless_mono:
  assumes "endless K P w" and "\<And>e. P e \<Longrightarrow> Q e"
  shows "endless K Q w"
  using assms(1)
proof (coinduction arbitrary: w)
  case (endless w)
  then obtain c r w1 where "sys K c w = (r, w1)" "P (c, r)" "endless K P w1" by (auto elim: endless.cases)
  with assms(2) show ?case by blast
qed

text \<open>To show an execution endless it is enough to go on by a positive number of calls each time.\<close>

lemma endless_progress:
  assumes "X w"
    and step: "\<And>w. X w \<Longrightarrow> endless K P w \<or> (\<exists>t w1. execs K w t w1 \<and> t \<noteq> [] \<and> list_all P t \<and> X w1)"
  shows "endless K P w"
proof -
  define Y where "Y w \<longleftrightarrow> endless K P w \<or> (\<exists>t w1. execs K w t w1 \<and> list_all P t \<and> X w1)" for w
  have "Y w" using assms(1) unfolding Y_def by (intro disjI2 exI [of _ "[]"] exI [of _ w]) simp
  then show ?thesis
  proof (coinduction arbitrary: w)
    case (endless w)
    have go: "\<exists>c r w1. sys K c w = (r, w1) \<and> P (c, r) \<and> Y w1" if "execs K w t w'" "t \<noteq> []" "list_all P t" "X w'" for t w'
    proof (cases t)
      case (Cons e t1)
      with that obtain c r w1 where "e = (c, r)" "sys K c w = (r, w1)" "execs K w1 t1 w'" "P (c, r)" "list_all P t1"
        by (auto elim: execs.cases)
      with that(4) show ?thesis unfolding Y_def by blast
    qed (use that in simp)
    have fwd: "\<exists>c r w1. sys K c w = (r, w1) \<and> P (c, r) \<and> Y w1" if "endless K P w"
      using that by (cases rule: endless.cases) (auto simp: Y_def)
    from endless [unfolded Y_def] have "\<exists>c r w1. sys K c w = (r, w1) \<and> P (c, r) \<and> Y w1"
    proof (elim disjE exE conjE)
      fix t w' assume t: "execs K w t w'" "list_all P t" "X w'"
      show ?thesis
      proof (cases "t = []")
        case True
        with t have "X w" by simp
        from step [OF this] fwd go show ?thesis by blast
      qed (use go t in blast)
    qed (rule fwd)
    then show ?case by blast
  qed
qed

section \<open>Documented behaviour, as named hypotheses\<close>

definition interrupted :: "reply \<Rightarrow> bool" where
  "interrupted r \<longleftrightarrow> r_ret r < 0 \<and> r_errno r = EINTR"

text \<open>\<open>read(2)\<close> and \<open>write(2)\<close> transfer at most the number of bytes they are asked for.\<close>

definition io_bounded :: "'k os \<Rightarrow> bool" where
  "io_bounded K \<longleftrightarrow>
     (\<forall>n cnt k r k'. trap K (Read n cnt) k = (r, k') \<longrightarrow> 0 \<le> r_ret r \<longrightarrow>
        nat (r_ret r) \<le> cnt \<and> length (out_bytes (r_out r)) = nat (r_ret r)) \<and>
     (\<forall>n bs k r k'. trap K (Write n bs) k = (r, k') \<longrightarrow> 0 \<le> r_ret r \<longrightarrow>
        nat (r_ret r) \<le> length bs)"

lemma io_boundedD:
  assumes "io_bounded K"
  shows "sys K (Read n cnt) w = (r, w') \<Longrightarrow> 0 \<le> r_ret r \<Longrightarrow>
           nat (r_ret r) \<le> cnt \<and> length (out_bytes (r_out r)) = nat (r_ret r)"
    and "sys K (Write n bs) w = (r, w') \<Longrightarrow> 0 \<le> r_ret r \<Longrightarrow> nat (r_ret r) \<le> length bs"
  using assms unfolding io_bounded_def by (blast dest: sysD(2))+

section \<open>The retry loop: an interface shared by the syscall wrappers\<close>

text \<open>
  Many wrappers of the program repeat one call while it is interrupted by a signal and then turn
  the final reply into their result. \<open>retries K c w r w'\<close> is that behaviour as a relation.
\<close>

inductive retries :: "'k os \<Rightarrow> call \<Rightarrow> 'k world \<Rightarrow> reply \<Rightarrow> 'k world \<Rightarrow> bool" for K c where
  final: "sys K c w = (r, w') \<Longrightarrow> \<not> interrupted r \<Longrightarrow> retries K c w r w'"
| again: "sys K c w = (r1, w1) \<Longrightarrow> interrupted r1 \<Longrightarrow> retries K c w1 r w' \<Longrightarrow> retries K c w r w'"

inductive_cases retriesE: "retries K c w r w'"

inductive_simps retries_unfold: "retries K c w r w'"

lemma retries_deterministic:
  "retries K c w r w' \<Longrightarrow> retries K c w r2 w2 \<Longrightarrow> r2 = r \<and> w2 = w'"
  by (induction rule: retries.induct) (auto elim: retriesE)

lemma retries_runs:
  "retries K c w r w' \<Longrightarrow>
     \<exists>rs. runs w w' (map (Pair c) rs @ [(c, r)]) \<and> list_all interrupted rs \<and> \<not> interrupted r"
proof (induction rule: retries.induct)
  case (final w r w')
  then show ?case by (intro exI [of _ "[]"]) (simp add: runs_sys)
next
  case (again w r1 w1 r w')
  then obtain rs where rs: "runs w1 w' (map (Pair c) rs @ [(c, r)])" "list_all interrupted rs"
    and r: "\<not> interrupted r" by blast
  have "runs w w' (map (Pair c) (r1 # rs) @ [(c, r)])"
    using runs_trans [OF runs_sys [OF again.hyps(1)] rs(1)] by simp
  with rs(2) r again.hyps(2) show ?case by (intro exI [of _ "r1 # rs"]) simp
qed

lemma retries_last:
  "retries K c w r w' \<Longrightarrow> \<exists>k. trap K c k = (r, kst w') \<and> (r_ret r < 0 \<longrightarrow> errno w' = r_errno r)"
  by (induction rule: retries.induct) (auto dest: sysD)

lemma retries_io:
  assumes "io_bounded K"
  shows "retries K (Read n cnt) w r w' \<Longrightarrow> 0 \<le> r_ret r \<Longrightarrow>
           nat (r_ret r) \<le> cnt \<and> length (out_bytes (r_out r)) = nat (r_ret r)"
    and "retries K (Write n bs) w r w' \<Longrightarrow> 0 \<le> r_ret r \<Longrightarrow> nat (r_ret r) \<le> length bs"
  using assms by (force simp: io_bounded_def dest!: retries_last)+

lemma retries_moves:
  assumes "retries K c w r w'" and "\<And>r A. own_step (c, r) A = Some A"
  shows "moves w w' A A"
  using assms by (induction rule: retries.induct) (blast intro: moves_sys moves_trans)+

lemma retries_makes: "retries K c w r w' \<Longrightarrow> P c \<Longrightarrow> makes P w w'"
  by (induction rule: retries.induct) (blast intro: makes_sys makes_trans)+

text \<open>A retry loop that does not get through is one whose call the kernel interrupts for ever.\<close>

abbreviation interrupts :: "call \<Rightarrow> call \<times> reply \<Rightarrow> bool" where
  "interrupts c e \<equiv> fst e = c \<and> interrupted (snd e)"

lemma retries_or_endless: "(\<exists>r w'. retries K c w r w') \<or> endless K (interrupts c) w"
proof (rule disjCI)
  assume "\<not> endless K (interrupts c) w"
  moreover have "endless K (interrupts c) w" if "\<nexists>r w'. retries K c w r w'"
    using that
  proof (coinduction arbitrary: w)
    case (endless w)
    obtain r w1 where s: "sys K c w = (r, w1)" by fastforce
    with endless have "interrupted r" "\<nexists>r w'. retries K c w1 r w'" by (blast intro: retries.intros)+
    with s show ?case by (intro exI [of _ c] exI [of _ w] exI [of _ r] exI [of _ w1]) simp
  qed
  ultimately show "\<exists>r w'. retries K c w r w'" by blast
qed

lemma retries_not_endless: "retries K c w r w' \<Longrightarrow> \<not> endless K (interrupts c) w"
proof (induction rule: retries.induct)
  case (final w r w')
  then show ?case by (auto elim: endless.cases)
next
  case (again w r1 w1 r w')
  then show ?case by (auto elim: endless.cases)
qed

lemma retries_execs: "retries K c w r w' \<Longrightarrow> \<exists>rs. execs K w (map (Pair c) rs @ [(c, r)]) w' \<and> list_all interrupted rs"
proof (induction rule: retries.induct)
  case (final w r w')
  then show ?case by (intro exI [of _ "[]"]) (simp add: execs.intros)
next
  case (again w r1 w1 r w')
  then obtain rs where "execs K w1 (map (Pair c) rs @ [(c, r)]) w'" "list_all interrupted rs" by blast
  with again.hyps(1,2) show ?case by (intro exI [of _ "r1 # rs"]) (simp add: execs.intros)
qed

definition retried ::
  "'k os \<Rightarrow> call \<Rightarrow> (reply \<Rightarrow> 'k world \<Rightarrow> 'b) \<Rightarrow> 'k world \<Rightarrow> 'b \<times> 'k world \<Rightarrow> bool" where
  "retried K c answer w y \<longleftrightarrow> (\<exists>r. retries K c w r (snd y) \<and> fst y = answer r (snd y))"

lemma retried_step:
  assumes "case sys K c w of (r, w1) \<Rightarrow>
      if interrupted r then retried K c answer w1 y else y = (answer r w1, w1)"
  shows "retried K c answer w y"
  using assms unfolding retried_def
  by (auto split: prod.splits if_splits intro: retries.intros)

text \<open>
  The interface: an operation \<open>loop\<close> that unfolds as a retry loop around the call \<open>c\<close>, turns the
  final reply into its result with \<open>answer\<close>, and returns only by that route. Each wrapper of the
  program discharges the two laws once.
\<close>

locale retry_loop =
  fixes K :: "'k os" and c :: call
    and loop :: "'k world \<Rightarrow> ('b \<times> 'k world) option"
    and answer :: "reply \<Rightarrow> 'k world \<Rightarrow> 'b"
  assumes unfold: "loop w =
      (let (r, w1) = sys K c w in if interrupted r then loop w1 else Some (answer r w1, w1))"
    and sound: "loop w = Some y \<Longrightarrow> retried K c answer w y"
begin

lemma complete: "retries K c w r w' \<Longrightarrow> loop w = Some (answer r w', w')"
proof (induction rule: retries.induct)
  case (final w r w')
  then show ?case by (simp add: unfold [of w])
next
  case (again w r1 w1 r w')
  then show ?case by (simp add: unfold [of w])
qed

lemma returns_iff: "loop w = Some (b, w') \<longleftrightarrow> (\<exists>r. retries K c w r w' \<and> b = answer r w')"
  using sound complete unfolding retried_def by fastforce

lemma hangs_iff: "loop w = None \<longleftrightarrow> endless K (interrupts c) w"
proof
  assume "loop w = None"
  then have "\<nexists>r w'. retries K c w r w'" using complete by fastforce
  then show "endless K (interrupts c) w" using retries_or_endless by blast
next
  assume "endless K (interrupts c) w"
  then have "\<nexists>y. loop w = Some y" using sound retries_not_endless unfolding retried_def by blast
  then show "loop w = None" by (cases "loop w") blast+
qed

lemma same_call:
  assumes "loop w = Some (b, w')"
  shows "\<exists>r rs. runs w w' (map (Pair c) rs @ [(c, r)]) \<and> list_all interrupted rs \<and> \<not> interrupted r
      \<and> b = answer r w'"
proof -
  obtain r where r: "retries K c w r w'" and b: "b = answer r w'"
    using assms returns_iff by blast
  from r show ?thesis using retries_runs b by blast
qed

lemma makes_call: "loop w = Some (b, w') \<Longrightarrow> P c \<Longrightarrow> makes P w w'"
  using returns_iff retries_makes by metis

lemma owns_same:
  "loop w = Some (b, w') \<Longrightarrow> (\<And>r A. own_step (c, r) A = Some A) \<Longrightarrow> moves w w' A A"
  using returns_iff retries_moves by metis

end

end
