(* ===== verification/RustStd.thy ===== *)
theory RustStd
  imports Prelude
begin

text \<open>
  The parts of the Rust standard library that the program's parsing and decoding rest on. A \<open>str\<close>
  is its UTF-8 bytes, as in Rust; what needs characters (white space, lossy decoding) works on the
  encodings, as the library does. \<open>CString::new\<close>, \<open>from_utf8\<close>, \<open>from_utf8_lossy\<close>, \<open>lines\<close>, \<open>trim\<close>,
  \<open>split_whitespace\<close>, \<open>parse\<close> and decimal formatting follow the documented behaviour of the library.
\<close>

type_synonym str = "byte list"

text \<open>String literals of the source, all of them ASCII.\<close>

definition ascii :: "string \<Rightarrow> str" where
  "ascii s = map of_char s"

lemma of_char_byte: "(of_char c :: byte) = of_char d \<Longrightarrow> c = d"
proof -
  assume "(of_char c :: byte) = of_char d"
  then have "unat (word_of_nat (of_char c) :: byte) = unat (word_of_nat (of_char d) :: byte)"
    by (simp only: of_nat_of_char)
  then have "(of_char c mod 256 :: nat) = of_char d mod 256" by (simp only: unat_of_nat) simp
  then show "c = d" by (simp only: of_char_mod_256 of_char_eq_iff)
qed

lemma ascii_inject [simp]: "ascii s = ascii t \<longleftrightarrow> s = t"
  unfolding ascii_def by (rule inj_map_eq_map) (rule injI, rule of_char_byte)

section \<open>C strings\<close>

definition cstring_new :: "str \<Rightarrow> byte list option" where
  "cstring_new s = (if 0 \<in> set s then None else Some s)"

lemma cstring_new_simps [simp]:
  "0 \<in> set s \<Longrightarrow> cstring_new s = None" "0 \<notin> set s \<Longrightarrow> cstring_new s = Some s"
  by (simp_all add: cstring_new_def)

section \<open>UTF-8\<close>

text \<open>
  One character at the start of a byte string: the number of bytes consumed and whether they are a
  well-formed character. For a malformed one the count is that of the bytes that are replaced
  together (the maximal prefix of a well-formed character, at least one byte).
\<close>

definition utf8_char_width :: "byte \<Rightarrow> nat" where
  "utf8_char_width b =
     (if b < 0x80 then 1
      else if 0xC2 \<le> b \<and> b \<le> 0xDF then 2
      else if 0xE0 \<le> b \<and> b \<le> 0xEF then 3
      else if 0xF0 \<le> b \<and> b \<le> 0xF4 then 4
      else 0)"

definition safe_get :: "byte list \<Rightarrow> nat \<Rightarrow> byte" where
  "safe_get bs i = (if i < length bs then bs ! i else 0)"

definition is_cont :: "byte \<Rightarrow> bool" where
  "is_cont b \<longleftrightarrow> b AND 192 = 128"

definition second_of_3 :: "byte \<Rightarrow> byte \<Rightarrow> bool" where
  "second_of_3 b c \<longleftrightarrow>
     b = 0xE0 \<and> 0xA0 \<le> c \<and> c \<le> 0xBF \<or>
     0xE1 \<le> b \<and> b \<le> 0xEC \<and> 0x80 \<le> c \<and> c \<le> 0xBF \<or>
     b = 0xED \<and> 0x80 \<le> c \<and> c \<le> 0x9F \<or>
     0xEE \<le> b \<and> b \<le> 0xEF \<and> 0x80 \<le> c \<and> c \<le> 0xBF"

definition second_of_4 :: "byte \<Rightarrow> byte \<Rightarrow> bool" where
  "second_of_4 b c \<longleftrightarrow>
     b = 0xF0 \<and> 0x90 \<le> c \<and> c \<le> 0xBF \<or>
     0xF1 \<le> b \<and> b \<le> 0xF3 \<and> 0x80 \<le> c \<and> c \<le> 0xBF \<or>
     b = 0xF4 \<and> 0x80 \<le> c \<and> c \<le> 0x8F"

definition utf8_char :: "byte \<Rightarrow> byte list \<Rightarrow> nat \<times> bool" where
  "utf8_char b rest =
     (if b < 0x80 then (1, True)
      else if utf8_char_width b = 2 then
        (if is_cont (safe_get rest 0) then (2, True) else (1, False))
      else if utf8_char_width b = 3 then
        (if second_of_3 b (safe_get rest 0)
         then (if is_cont (safe_get rest 1) then (3, True) else (2, False))
         else (1, False))
      else if utf8_char_width b = 4 then
        (if second_of_4 b (safe_get rest 0)
         then (if is_cont (safe_get rest 1)
               then (if is_cont (safe_get rest 2) then (4, True) else (3, False))
               else (2, False))
         else (1, False))
      else (1, False))"

lemma utf8_char_pos: "0 < fst (utf8_char b rest)"
  by (simp add: utf8_char_def)

function valid_utf8 :: "byte list \<Rightarrow> bool" where
  "valid_utf8 [] = True"
| "valid_utf8 (b # bs) =
     (snd (utf8_char b bs) \<and> valid_utf8 (drop (fst (utf8_char b bs)) (b # bs)))"
  by pat_completeness auto
termination
  by (relation "measure length") (simp_all add: utf8_char_pos)

definition from_utf8 :: "byte list \<Rightarrow> str option" where
  "from_utf8 bs = (if valid_utf8 bs then Some bs else None)"

definition replacement :: str where
  "replacement = [0xEF, 0xBF, 0xBD]"

function from_utf8_lossy :: "byte list \<Rightarrow> str" where
  "from_utf8_lossy [] = []"
| "from_utf8_lossy (b # bs) =
     (let (n, ok) = utf8_char b bs
      in (if ok then take n (b # bs) else replacement) @ from_utf8_lossy (drop n (b # bs)))"
  by pat_completeness auto
termination
proof (relation "measure length")
  fix b :: byte and bs x n ok
  assume "x = utf8_char b bs" "(n, ok) = x"
  then have "0 < n" using utf8_char_pos [of b bs] by (metis fst_conv)
  then show "(drop n (b # bs), b # bs) \<in> measure length" by simp
qed simp

text \<open>On well-formed text the lossy decoding is the identity, and its result is well-formed.\<close>

lemma lossy_valid: "valid_utf8 bs \<Longrightarrow> from_utf8_lossy bs = bs"
  by (induction bs rule: valid_utf8.induct) (auto simp: Let_def split: prod.splits)

lemma ascii_valid: "\<forall>b \<in> set bs. b < 0x80 \<Longrightarrow> valid_utf8 bs"
  by (induction bs) (simp_all add: utf8_char_def)

section \<open>Numbers\<close>

definition digit_of :: "byte \<Rightarrow> nat option" where
  "digit_of b = (if 48 \<le> b \<and> b \<le> 57 then Some (unat b - 48) else None)"

text \<open>Digits are accumulated with a check against the largest value of the type at each step.\<close>

fun parse_digits :: "int \<Rightarrow> int \<Rightarrow> byte list \<Rightarrow> int option" where
  "parse_digits bound acc [] = Some acc"
| "parse_digits bound acc (b # bs) =
     (case digit_of b of
        None \<Rightarrow> None
      | Some d \<Rightarrow> if bound < acc * 10 + int d then None else parse_digits bound (acc * 10 + int d) bs)"

definition parse_u32 :: "str \<Rightarrow> int option" where
  "parse_u32 s =
     (case s of
        [] \<Rightarrow> None
      | b # bs \<Rightarrow>
          if bs = [] \<and> (b = 43 \<or> b = 45) then None
          else if b = 43 then parse_digits (2 ^ 32 - 1) 0 bs
          else parse_digits (2 ^ 32 - 1) 0 s)"

definition parse_i32 :: "str \<Rightarrow> int option" where
  "parse_i32 s =
     (case s of
        [] \<Rightarrow> None
      | b # bs \<Rightarrow>
          if bs = [] \<and> (b = 43 \<or> b = 45) then None
          else if b = 43 then parse_digits (2 ^ 31 - 1) 0 bs
          else if b = 45 then map_option uminus (parse_digits (2 ^ 31) 0 bs)
          else parse_digits (2 ^ 31 - 1) 0 s)"

fun show_nat :: "nat \<Rightarrow> str" where
  "show_nat n = (if n < 10 then [word_of_nat (48 + n)]
                 else show_nat (n div 10) @ [word_of_nat (48 + n mod 10)])"

declare show_nat.simps [simp del]

definition show_int :: "int \<Rightarrow> str" where
  "show_int i = (if i < 0 then 45 # show_nat (nat (- i)) else show_nat (nat i))"

lemma digit_of_digit: "d < 10 \<Longrightarrow> digit_of (word_of_nat (48 + d)) = Some d"
proof -
  assume d: "d < 10"
  have u: "unat (word_of_nat (48 + d) :: byte) = 48 + d"
    using d unfolding unat_of_nat by (subst mod_less) simp_all
  then show ?thesis using d unfolding digit_of_def word_le_nat_alt by simp
qed

lemma parse_digits_append:
  "parse_digits bound acc (xs @ ys) = Option.bind (parse_digits bound acc xs) (\<lambda>a. parse_digits bound a ys)"
  by (induction xs arbitrary: acc) (auto split: option.splits)

text \<open>Formatting and parsing are inverse, inside the range of the type.\<close>

lemma parse_show_nat: "int n \<le> bound \<Longrightarrow> parse_digits bound 0 (show_nat n) = Some (int n)"
proof (induction n rule: show_nat.induct)
  case (1 n)
  show ?case
  proof (cases "n < 10")
    case True
    with 1 show ?thesis by (subst show_nat.simps) (simp add: digit_of_digit del: of_nat_add of_nat_numeral)
  next
    case False
    have "int (n div 10) \<le> bound" using 1(2) by linarith
    with 1 False have ih: "parse_digits bound 0 (show_nat (n div 10)) = Some (int (n div 10))" by simp
    have "int (n div 10) * 10 + int (n mod 10) = int n" by presburger
    with 1(2) False ih show ?thesis
      by (subst show_nat.simps)
        (simp add: parse_digits_append digit_of_digit del: of_nat_add of_nat_numeral)
  qed
qed

lemma show_nat_digits: "set (show_nat n) \<subseteq> {b. 48 \<le> b \<and> b \<le> 57} \<and> show_nat n \<noteq> []"
proof (induction n rule: show_nat.induct)
  case (1 n)
  have d: "48 \<le> (word_of_nat (48 + d) :: byte) \<and> (word_of_nat (48 + d) :: byte) \<le> 57" if "d < 10" for d
    using that digit_of_digit [OF that] by (auto simp: digit_of_def split: if_splits)
  show ?case
  proof (cases "n < 10")
    case True
    with d [of n] show ?thesis
      by (subst show_nat.simps, subst (2) show_nat.simps) (simp del: of_nat_add)
  next
    case False
    with 1 d [of "n mod 10"] show ?thesis
      by (subst show_nat.simps, subst (2) show_nat.simps) (simp del: of_nat_add)
  qed
qed

lemma show_int_bytes: "set (show_int i) \<subseteq> insert 45 {b. 48 \<le> b \<and> b \<le> 57}"
  using show_nat_digits by (auto simp: show_int_def)

lemma show_nat_inject:
  assumes "show_nat a = show_nat b"
  shows "a = b"
proof -
  have "parse_digits (int (max a b)) 0 (show_nat a) = Some (int a)" by (rule parse_show_nat) simp
  moreover have "parse_digits (int (max a b)) 0 (show_nat b) = Some (int b)" by (rule parse_show_nat) simp
  ultimately have "Some (int a) = Some (int b)" unfolding assms by (rule trans [OF sym])
  then show ?thesis by simp
qed

lemma show_nat_unsigned: "show_nat a \<noteq> 45 # x" "45 # x \<noteq> show_nat a"
proof -
  have "45 \<notin> set (show_nat a)" using show_nat_digits [of a] by auto
  then show "show_nat a \<noteq> 45 # x" "45 # x \<noteq> show_nat a" by (metis list.set_intros(1))+
qed

lemma show_int_inject:
  assumes "show_int i = show_int j"
  shows "i = j"
proof (cases "i < 0"; cases "j < 0")
  assume "i < 0" "j < 0"
  with assms have "show_nat (nat (- i)) = show_nat (nat (- j))" unfolding show_int_def by (simp only: if_True list.inject)
  from show_nat_inject [OF this] \<open>i < 0\<close> \<open>j < 0\<close> show ?thesis by linarith
next
  assume "\<not> i < 0" "\<not> j < 0"
  with assms have "show_nat (nat i) = show_nat (nat j)" unfolding show_int_def by (simp only: if_False)
  from show_nat_inject [OF this] \<open>\<not> i < 0\<close> \<open>\<not> j < 0\<close> show ?thesis by linarith
qed (use assms in \<open>simp_all only: show_int_def if_True if_False show_nat_unsigned\<close>)

lemma parse_u32_show: "n < 2 ^ 32 \<Longrightarrow> parse_u32 (show_nat n) = Some (int n)"
proof -
  assume n: "n < 2 ^ 32"
  obtain b bs where s: "show_nat n = b # bs" using show_nat_digits by (metis list.exhaust)
  with show_nat_digits [of n] have "48 \<le> b" by auto
  then have b: "b \<noteq> 43" "b \<noteq> 45" by auto
  from n parse_show_nat [of n "2 ^ 32 - 1"] s b show ?thesis
    by (simp add: parse_u32_def)
qed

section \<open>Lines and white space\<close>

definition strip_prefix :: "str \<Rightarrow> str \<Rightarrow> str option" where
  "strip_prefix p s = (if prefix p s then Some (drop (length p) s) else None)"

text \<open>\<open>lines\<close>: a line ends at a newline, and a carriage return just before the newline goes with it.\<close>

definition chomp_cr :: "str \<Rightarrow> str" where
  "chomp_cr l = (if l \<noteq> [] \<and> last l = 13 then butlast l else l)"

function str_lines :: "str \<Rightarrow> str list" where
  "str_lines [] = []"
| "str_lines (b # bs) =
     (let l = takeWhile (\<lambda>c. c \<noteq> 10) (b # bs);
          rest = dropWhile (\<lambda>c. c \<noteq> 10) (b # bs)
      in if rest = [] then [l] else chomp_cr l # str_lines (tl rest))"
  by pat_completeness auto
termination
proof (relation "measure length")
  fix b :: byte and bs and l rest
  assume r: "rest = dropWhile (\<lambda>c. c \<noteq> 10) (b # bs)" and ne: "rest \<noteq> []"
  have "length rest \<le> length (b # bs)" unfolding r by (rule length_dropWhile_le)
  with ne show "(tl rest, b # bs) \<in> measure length" by (cases rest) auto
qed simp

text \<open>The encodings of the characters with the Unicode property White_Space.\<close>

definition ws_encodings :: "str list" where
  "ws_encodings = [[9], [10], [11], [12], [13], [32], [0xC2, 0x85], [0xC2, 0xA0],
     [0xE1, 0x9A, 0x80], [0xE2, 0x80, 0x80], [0xE2, 0x80, 0x81], [0xE2, 0x80, 0x82],
     [0xE2, 0x80, 0x83], [0xE2, 0x80, 0x84], [0xE2, 0x80, 0x85], [0xE2, 0x80, 0x86],
     [0xE2, 0x80, 0x87], [0xE2, 0x80, 0x88], [0xE2, 0x80, 0x89], [0xE2, 0x80, 0x8A],
     [0xE2, 0x80, 0xA8], [0xE2, 0x80, 0xA9], [0xE2, 0x80, 0xAF], [0xE2, 0x81, 0x9F],
     [0xE3, 0x80, 0x80]]"

definition ws_prefix :: "str list \<Rightarrow> str \<Rightarrow> nat" where
  "ws_prefix encs s = (case List.find (\<lambda>e. prefix e s) encs of None \<Rightarrow> 0 | Some e \<Rightarrow> length e)"

function skip_ws :: "str list \<Rightarrow> str \<Rightarrow> str" where
  "skip_ws encs s = (if s = [] \<or> ws_prefix encs s = 0 then s else skip_ws encs (drop (ws_prefix encs s) s))"
  by pat_completeness auto
termination
  by (relation "measure (length o snd)") auto

declare skip_ws.simps [simp del]

definition trim_start :: "str \<Rightarrow> str" where
  "trim_start s = skip_ws ws_encodings s"

definition trim_end :: "str \<Rightarrow> str" where
  "trim_end s = rev (skip_ws (map rev ws_encodings) (rev s))"

definition trim :: "str \<Rightarrow> str" where
  "trim s = trim_end (trim_start s)"

fun word_prefix :: "str \<Rightarrow> str" where
  "word_prefix [] = []"
| "word_prefix (b # bs) = (if ws_prefix ws_encodings (b # bs) \<noteq> 0 then [] else b # word_prefix bs)"

text \<open>\<open>split_whitespace().next()\<close>.\<close>

definition first_word :: "str \<Rightarrow> str option" where
  "first_word s = (let t = word_prefix (trim_start s) in if t = [] then None else Some t)"

definition trim_end_matches :: "byte \<Rightarrow> str \<Rightarrow> str" where
  "trim_end_matches b s = rev (dropWhile (\<lambda>c. c = b) (rev s))"

definition replace_byte :: "byte \<Rightarrow> str \<Rightarrow> str \<Rightarrow> str" where
  "replace_byte b r s = concat (map (\<lambda>c. if c = b then r else [c]) s)"

end
