(* ===== verification/SysErr.thy ===== *)
theory SysErr
  imports Kernel RustStd
begin

text \<open>
  The error type of the crate and the two helpers that turn C return values into results
  (\<^verbatim>\<open>src/src/spawn/mod.rs\<close>, lines 95 to 150). \<open>syscall_ret\<close> reads \<open>errno\<close>, so it takes the world it is
  called in; \<open>posix_ret\<close> is for the calls that return their error code.
\<close>

datatype sys_error = Syscall (code: int) (op: string)

definition sys_err :: "int \<Rightarrow> string \<Rightarrow> sys_error" where
  "sys_err c o_name = Syscall c o_name"

definition raw_os_error :: "sys_error \<Rightarrow> int option" where
  "raw_os_error e = (case e of Syscall c _ \<Rightarrow> Some c)"

text \<open>The text of an error: \<^verbatim>\<open>"{} failed (code={})"\<close>.\<close>

definition sys_error_fmt :: "sys_error \<Rightarrow> str" where
  "sys_error_fmt e = (case e of Syscall c o_name \<Rightarrow>
     ascii o_name @ ascii '' failed (code='' @ show_int c @ ascii '')'')"

definition last_errno :: "'k world \<Rightarrow> int" where
  "last_errno w = errno w"

definition syscall_ret :: "int \<Rightarrow> string \<Rightarrow> 'k world \<Rightarrow> sys_error + unit" where
  "syscall_ret r o_name w = (if r = -1 then Inl (sys_err (errno w) o_name) else Inr ())"

definition posix_ret :: "int \<Rightarrow> string \<Rightarrow> sys_error + unit" where
  "posix_ret r o_name = (if r \<noteq> 0 then Inl (sys_err r o_name) else Inr ())"

lemma syscall_ret_simps [simp]:
  "syscall_ret (-1) o_name w = Inl (sys_err (errno w) o_name)"
  "r \<noteq> -1 \<Longrightarrow> syscall_ret r o_name w = Inr ()"
  by (simp_all add: syscall_ret_def)

lemma raw_os_error_sys [simp]: "raw_os_error (sys_err c o_name) = Some c"
  by (simp add: raw_os_error_def sys_err_def)

text \<open>Errors are compared by their code first, as callers dispatch on it.\<close>

lemma sys_err_inject [simp]: "sys_err c s = sys_err d t \<longleftrightarrow> c = d \<and> s = t"
  by (simp add: sys_err_def)

lemma code_sys_err [simp]: "code (sys_err c s) = c"
  by (simp add: sys_err_def)

text \<open>
  The text tells errors apart: the code is what stands after the last equals sign, so it can be read back
  whatever the name of the operation is.
\<close>

lemma last_separator:
  assumes "xs @ a # ys = us @ a # vs" and "a \<notin> set ys" and "a \<notin> set vs"
  shows "xs = us \<and> ys = vs"
  using assms by (auto simp: append_eq_append_conv2 append_eq_Cons_conv Cons_eq_append_conv)

lemma sys_error_fmt_inject: "sys_error_fmt e = sys_error_fmt e' \<longleftrightarrow> e = e'"
proof -
  obtain c n d m where e: "e = Syscall c n" "e' = Syscall d m" by (cases e; cases e')
  have nosep: "61 \<notin> set (show_int i @ ascii '')'')" for i
    using show_int_bytes [of i] by (auto simp: ascii_def word_le_nat_alt)
  have split: "sys_error_fmt (Syscall i k) = (ascii k @ ascii '' failed (code'') @ 61 # show_int i @ ascii '')''" for i k
    by (simp add: sys_error_fmt_def ascii_def)
  have "c = d \<and> n = m" if "sys_error_fmt e = sys_error_fmt e'"
    using last_separator [OF that [unfolded e split] nosep nosep]
    by (auto dest: show_int_inject)
  then show ?thesis using e by blast
qed

end
