(* ===== verification/Demo.thy ===== *)
theory Demo
  imports Kernel
begin

text \<open>
  A concrete kernel, used by the witnesses to show that the hypotheses of the properties can hold
  together. Reads and writes are answered from two scripts of \<open>item\<close>s and never transfer more than
  asked; every other call is answered from a list of replies, with a plain success once the list
  is used up. It is no part of the model of the program.
\<close>

datatype item = Data "byte list" | Wait | Eof | Intr | Fault int

record demo =
  d_in :: "item list"
  d_out :: "item list"
  d_misc :: "reply list"

definition ok_reply :: "int \<Rightarrow> payload \<Rightarrow> reply" where
  "ok_reply n p = \<lparr>r_ret = n, r_errno = 0, r_out = p\<rparr>"

definition err_reply :: "int \<Rightarrow> reply" where
  "err_reply e = \<lparr>r_ret = -1, r_errno = e, r_out = NoOut\<rparr>"

fun demo_read :: "nat \<Rightarrow> demo \<Rightarrow> reply \<times> demo" where
  "demo_read cnt d =
     (case d_in d of
        [] \<Rightarrow> (err_reply 11, d)
      | Data bs # its \<Rightarrow>
          (ok_reply (int (length (take cnt bs))) (OutBytes (take cnt bs)),
           d\<lparr>d_in := (if drop cnt bs = [] then its else Data (drop cnt bs) # its)\<rparr>)
      | Wait # its \<Rightarrow> (err_reply 11, d\<lparr>d_in := its\<rparr>)
      | Eof # its \<Rightarrow> (ok_reply 0 (OutBytes []), d)
      | Intr # its \<Rightarrow> (err_reply 4, d\<lparr>d_in := its\<rparr>)
      | Fault e # its \<Rightarrow> (err_reply e, d\<lparr>d_in := its\<rparr>))"

fun demo_write :: "byte list \<Rightarrow> demo \<Rightarrow> reply \<times> demo" where
  "demo_write bs d =
     (case d_out d of
        [] \<Rightarrow> (ok_reply (int (length bs)) NoOut, d)
      | Data ds # its \<Rightarrow> (ok_reply (int (min (length ds) (length bs))) NoOut, d\<lparr>d_out := its\<rparr>)
      | Wait # its \<Rightarrow> (err_reply 11, d\<lparr>d_out := its\<rparr>)
      | Eof # its \<Rightarrow> (err_reply 32, d)
      | Intr # its \<Rightarrow> (err_reply 4, d\<lparr>d_out := its\<rparr>)
      | Fault e # its \<Rightarrow> (err_reply e, d\<lparr>d_out := its\<rparr>))"

fun demo_misc :: "demo \<Rightarrow> reply \<times> demo" where
  "demo_misc d = (case d_misc d of [] \<Rightarrow> (ok_reply 0 NoOut, d) | r # rs \<Rightarrow> (r, d\<lparr>d_misc := rs\<rparr>))"

definition demo_trap :: "call \<Rightarrow> demo \<Rightarrow> reply \<times> demo" where
  "demo_trap c d = (case c of
     Read n cnt \<Rightarrow> demo_read cnt d
   | Write n bs \<Rightarrow> demo_write bs d
   | _ \<Rightarrow> demo_misc d)"

definition demo_os :: "demo os" where
  "demo_os = \<lparr>trap = demo_trap,
     os_WIFEXITED = (\<lambda>s. s AND 127 = 0), os_WEXITSTATUS = (\<lambda>s. drop_bit 8 s AND 255),
     os_WIFSIGNALED = (\<lambda>s. s AND 127 \<noteq> 0 \<and> s AND 127 \<noteq> 127), os_WTERMSIG = (\<lambda>s. s AND 127)\<rparr>"

definition demo_world :: "item list \<Rightarrow> item list \<Rightarrow> reply list \<Rightarrow> demo world" where
  "demo_world is os rs = \<lparr>kst = \<lparr>d_in = is, d_out = os, d_misc = rs\<rparr>, errno = 0, trace = []\<rparr>"

lemma demo_io_bounded: "io_bounded demo_os"
  unfolding io_bounded_def
  by (auto simp: demo_os_def demo_trap_def ok_reply_def err_reply_def
      split: list.splits item.splits)

text \<open>Simplification rules that run the demonstration kernel.\<close>

lemmas demo_run = demo_os_def demo_trap_def demo_world_def ok_reply_def err_reply_def sys_def
  numeral_2_eq_2 numeral_3_eq_3

end
