(* ===== verification/SysMod.thy ===== *)
theory SysMod
  imports SysErr RustStd Demo
begin

text \<open>
  \<^verbatim>\<open>src/src/sys/mod.rs\<close>: path probes, procfs parsing, the process-wide shutdown flag, read-ahead,
  signal sets and the execution context that the spawn backends hand to the kernel.
\<close>

section \<open>Strings of the program text\<close>

section \<open>Path probes\<close>

definition F_OK :: int where "F_OK = 0"

definition path_exists :: "'k os \<Rightarrow> str \<Rightarrow> 'k world \<Rightarrow> bool \<times> 'k world" where
  "path_exists K path w =
     (case cstring_new path of
        Some c \<Rightarrow> (let (r, w1) = sys K (Access c F_OK) w in (r_ret r = 0, w1))
      | None \<Rightarrow> (False, w))"

definition path_lstat_exists :: "'k os \<Rightarrow> str \<Rightarrow> 'k world \<Rightarrow> bool \<times> 'k world" where
  "path_lstat_exists K path w =
     (case cstring_new path of
        Some c \<Rightarrow> (let (r, w1) = sys K (Lstat c) w in (r_ret r = 0, w1))
      | None \<Rightarrow> (False, w))"

definition stat_uid :: "'k os \<Rightarrow> str \<Rightarrow> string \<Rightarrow> 'k world \<Rightarrow> (sys_error + int) \<times> 'k world" where
  "stat_uid K path o_name w =
     (case cstring_new path of
        None \<Rightarrow> (Inl (sys_err EINVAL o_name), w)
      | Some c \<Rightarrow>
          (let (r, w1) = sys K (Stat c) w
           in case syscall_ret (r_ret r) o_name w1 of
                Inl e \<Rightarrow> (Inl e, w1)
              | Inr _ \<Rightarrow> (Inr (out_num (r_out r)), w1)))"

definition path_uid :: "'k os \<Rightarrow> str \<Rightarrow> 'k world \<Rightarrow> (sys_error + int) \<times> 'k world" where
  "path_uid K path w = stat_uid K path ''stat'' w"

definition proc_uid :: "'k os \<Rightarrow> int \<Rightarrow> 'k world \<Rightarrow> (sys_error + int) \<times> 'k world" where
  "proc_uid K pid w = stat_uid K (ascii ''/proc/'' @ show_int pid) ''stat'' w"

section \<open>Reading procfs\<close>

text \<open>
  The part of \<open>std::io::Error\<close> the code can meet. \<open>fs_read\<close> and \<open>fs_read_to_string\<close> are the library's
  \<open>fs::read\<close> and \<open>fs::read_to_string\<close>, whose own opening, reading and closing of the file is one
  call \<open>ReadFile\<close> here.
\<close>

datatype io_error = Io_os int | Io_invalid_input string | Io_invalid_data string

definition fs_read :: "'k os \<Rightarrow> str \<Rightarrow> 'k world \<Rightarrow> (io_error + byte list) \<times> 'k world" where
  "fs_read K path w =
     (case cstring_new path of
        None \<Rightarrow> (Inl (Io_invalid_input ''file name contained an unexpected NUL byte''), w)
      | Some c \<Rightarrow>
          (let (r, w1) = sys K (ReadFile c) w
           in if r_ret r < 0 then (Inl (Io_os (last_errno w1)), w1)
              else (Inr (out_bytes (r_out r)), w1)))"

definition fs_read_to_string :: "'k os \<Rightarrow> str \<Rightarrow> 'k world \<Rightarrow> (io_error + str) \<times> 'k world" where
  "fs_read_to_string K path w =
     (let (res, w1) = fs_read K path w
      in (case res of
            Inl e \<Rightarrow> Inl e
          | Inr bs \<Rightarrow> (case from_utf8 bs of
               None \<Rightarrow> Inl (Io_invalid_data ''stream did not contain valid UTF-8'')
             | Some s \<Rightarrow> Inr s), w1))"

definition read_to_string :: "'k os \<Rightarrow> str \<Rightarrow> 'k world \<Rightarrow> (io_error + str) \<times> 'k world" where
  "read_to_string K path w = fs_read_to_string K path w"

record proc_status =
  ps_name :: str
  ps_uid :: int

fun scan_status :: "str list \<Rightarrow> str option \<Rightarrow> int option \<Rightarrow> str option \<times> int option" where
  "scan_status [] nm uid = (nm, uid)"
| "scan_status (line # rest_lines) nm uid =
     (let (nm, uid) =
        (case strip_prefix (ascii ''Name:'') line of
           Some rest \<Rightarrow> (Some (trim rest), uid)
         | None \<Rightarrow>
             (case strip_prefix (ascii ''Uid:'') line of
                Some rest \<Rightarrow> (nm, Option.bind (first_word rest) parse_u32)
              | None \<Rightarrow> (nm, uid)))
      in if nm \<noteq> None \<and> uid \<noteq> None then (nm, uid) else scan_status rest_lines nm uid)"

definition parse_proc_status :: "str \<Rightarrow> io_error + proc_status" where
  "parse_proc_status content =
     (case scan_status (str_lines content) None None of
        (Some nm, Some uid) \<Rightarrow> Inr \<lparr>ps_name = nm, ps_uid = uid\<rparr>
      | _ \<Rightarrow> Inl (Io_invalid_data ''proc status missing Name or Uid''))"

definition read_proc_status :: "'k os \<Rightarrow> int \<Rightarrow> 'k world \<Rightarrow> (io_error + proc_status) \<times> 'k world" where
  "read_proc_status K pid w =
     (let (res, w1) = fs_read_to_string K (ascii ''/proc/'' @ show_int pid @ ascii ''/status'') w
      in (case res of Inl e \<Rightarrow> Inl e | Inr s \<Rightarrow> parse_proc_status s, w1))"

definition read_proc_cmdline :: "'k os \<Rightarrow> int \<Rightarrow> 'k world \<Rightarrow> (io_error + str) \<times> 'k world" where
  "read_proc_cmdline K pid w =
     (let (res, w1) = fs_read K (ascii ''/proc/'' @ show_int pid @ ascii ''/cmdline'') w
      in (case res of
            Inl e \<Rightarrow> Inl e
          | Inr bs \<Rightarrow> Inr (replace_byte 0 (ascii '' '') (trim_end_matches 0 (from_utf8_lossy bs))), w1))"

section \<open>The shutdown flag\<close>

text \<open>
  The process-global pointer and the atomic flags it may point to, which are named by numbers. The
  handler runs in the signal context; it reads the pointer and sets the flag.
\<close>

record shutdown_state =
  flag_ptr :: "nat option"
  flags :: "nat \<Rightarrow> bool"

definition shutdown_signal_handler :: "int \<Rightarrow> shutdown_state \<Rightarrow> shutdown_state" where
  "shutdown_signal_handler sig s =
     (case flag_ptr s of None \<Rightarrow> s | Some a \<Rightarrow> s\<lparr>flags := (flags s)(a := True)\<rparr>)"

definition shutdown_requested :: "nat \<Rightarrow> shutdown_state \<Rightarrow> bool" where
  "shutdown_requested flag s = flags s flag"

definition last_sigaction_error :: "int \<Rightarrow> 'k world \<Rightarrow> sys_error" where
  "last_sigaction_error sig w =
     sys_err (last_errno w)
       (if sig = SIGINT then ''sigaction(SIGINT)''
        else if sig = SIGTERM then ''sigaction(SIGTERM)'' else ''sigaction'')"

definition shutdown_action :: sigact where
  "shutdown_action = \<lparr>sa_handler = Shutdown_handler, sa_flags = 0, sa_mask = {}\<rparr>"

definition install_signal_handler :: "'k os \<Rightarrow> int \<Rightarrow> 'k world \<Rightarrow> (sys_error + sigact) \<times> 'k world" where
  "install_signal_handler K sig w =
     (let (r, w1) = sys K (Sigaction sig shutdown_action) w
      in if r_ret r = -1 then (Inl (last_sigaction_error sig w1), w1)
         else (Inr (out_sigact (r_out r)), w1))"

definition restore_signal_handler :: "'k os \<Rightarrow> int \<Rightarrow> sigact \<Rightarrow> 'k world \<Rightarrow> (sys_error + unit) \<times> 'k world" where
  "restore_signal_handler K sig old_action w =
     (let (r, w1) = sys K (Sigaction sig old_action) w
      in if r_ret r = -1 then (Inl (last_sigaction_error sig w1), w1) else (Inr (), w1))"

text \<open>
  A signal can arrive at any time while the handlers are being installed. \<open>arrivals i\<close> are the signals for
  which the crate's handler, of this or of an earlier installation, runs right after the \<open>i\<close>-th system call;
  the pointer that the handler reads is published, or not, after those.
\<close>

definition deliver :: "int list \<Rightarrow> shutdown_state \<Rightarrow> shutdown_state" where
  "deliver sigs s = fold shutdown_signal_handler sigs s"

definition install_shutdown_flag ::
  "'k os \<Rightarrow> (nat \<Rightarrow> int list) \<Rightarrow> nat \<Rightarrow> shutdown_state \<Rightarrow> 'k world
     \<Rightarrow> ((sys_error + unit) \<times> shutdown_state) \<times> 'k world" where
  "install_shutdown_flag K arrivals flag s w =
     (let (r1, w1) = install_signal_handler K SIGINT w; s1 = deliver (arrivals 0) s
      in case r1 of
           Inl e \<Rightarrow> ((Inl e, s1), w1)
         | Inr old_sigint \<Rightarrow>
             (let (r2, w2) = install_signal_handler K SIGTERM w1; s2 = deliver (arrivals 1) s1
              in case r2 of
                   Inr _ \<Rightarrow> ((Inr (), s2\<lparr>flag_ptr := Some flag\<rparr>), w2)
                 | Inl err \<Rightarrow>
                     (let (r3, w3) = restore_signal_handler K SIGINT old_sigint w2; s3 = deliver (arrivals 2) s2
                      in case r3 of
                           Inl e \<Rightarrow> ((Inl e, s3), w3)
                         | Inr _ \<Rightarrow> ((Inl err, s3), w3))))"

section \<open>Read-ahead\<close>

partial_function (option) readahead_loop ::
  "'k os \<Rightarrow> int \<Rightarrow> int \<Rightarrow> nat \<Rightarrow> 'k world \<Rightarrow> ((sys_error + unit) \<times> 'k world) option" where
  "readahead_loop K n offset cnt w =
     (let (r, w1) = sys K (Readahead n offset cnt) w
      in if r_ret r = -1
         then (if last_errno w1 = EINTR then readahead_loop K n offset cnt w1
               else Some (Inl (sys_err (last_errno w1) ''readahead''), w1))
         else Some (Inr (), w1))"

text \<open>The offset is a \<open>u64\<close> and the length a \<open>usize\<close>; the kernel takes an \<open>off64_t\<close>.\<close>

definition readahead ::
  "'k os \<Rightarrow> int \<Rightarrow> u64 \<Rightarrow> nat \<Rightarrow> 'k world \<Rightarrow> ((sys_error + unit) \<times> 'k world) option" where
  "readahead K n offset len w =
     (if 2 ^ 63 - 1 < uint offset then Some (Inl (sys_err EINVAL ''readahead''), w)
      else readahead_loop K n (sint offset) (min len (2 ^ 32 - 1)) w)"

section \<open>Signals and the clock\<close>

definition SC_CLK_TCK :: int where "SC_CLK_TCK = 2"
definition SIG_SETMASK :: int where "SIG_SETMASK = 2"

definition get_clk_tck :: "'k os \<Rightarrow> 'k world \<Rightarrow> u64 \<times> 'k world" where
  "get_clk_tck K w = (let (r, w1) = sys K (Sysconf SC_CLK_TCK) w in (word_of_int (r_ret r), w1))"

definition empty_set :: "int set" where
  "empty_set = {}"

text \<open>\<open>sigaddset\<close> ignores numbers that are no signals.\<close>

definition set_with :: "int list \<Rightarrow> int set" where
  "set_with signals = foldl (\<lambda>s sig. if 1 \<le> sig \<and> sig \<le> 64 then insert sig s else s) {} signals"

definition unblock_all :: "'k os \<Rightarrow> 'k world \<Rightarrow> (sys_error + unit) \<times> 'k world" where
  "unblock_all K w =
     (let (r, w1) = sys K (Sigprocmask SIG_SETMASK empty_set) w
      in (syscall_ret (r_ret r) ''sigprocmask'' w1, w1))"

definition reset_default :: "'k os \<Rightarrow> int \<Rightarrow> 'k world \<Rightarrow> 'k world" where
  "reset_default K sig w = snd (sys K (SignalDfl sig) w)"

section \<open>The execution context\<close>

datatype cancel_policy = Cancel_none | Cancel_graceful | Cancel_kill

record process_group =
  pg_leader :: "int option"
  pg_isolated :: bool

definition process_group_new :: "int option \<Rightarrow> bool \<Rightarrow> process_group" where
  "process_group_new leader isolated = \<lparr>pg_leader = leader, pg_isolated = isolated\<rparr>"

datatype exec_argv = Dynamic "byte list list"

record exec_context =
  ec_argv :: exec_argv
  ec_envp :: "byte list list option"
  ec_cwd :: "byte list option"

text \<open>\<open>map(CString::new) ... collect::<Result<_, _>>\<close>: the first failure wins.\<close>

fun collect_cstrings :: "string \<Rightarrow> str list \<Rightarrow> sys_error + byte list list" where
  "collect_cstrings msg [] = Inr []"
| "collect_cstrings msg (s # ss) =
     (case cstring_new s of
        None \<Rightarrow> Inl (sys_err EINVAL msg)
      | Some c \<Rightarrow>
          (case collect_cstrings msg ss of
             Inl e \<Rightarrow> Inl e
           | Inr cs \<Rightarrow> Inr (c # cs)))"

definition exec_context_new ::
  "str list \<Rightarrow> str list option \<Rightarrow> str option \<Rightarrow> sys_error + exec_context" where
  "exec_context_new argv env cwd =
     (if argv = [] then Inl (sys_err EINVAL ''exec argv empty'')
      else case collect_cstrings ''exec argv contains nul'' argv of
        Inl e \<Rightarrow> Inl e
      | Inr c_argv \<Rightarrow>
          (case (case env of
                   Some vars \<Rightarrow>
                     (case collect_cstrings ''exec env contains nul'' vars of
                        Inl e \<Rightarrow> Inl e
                      | Inr cs \<Rightarrow> Inr (Some cs))
                 | None \<Rightarrow> Inr None) of
             Inl e \<Rightarrow> Inl e
           | Inr c_envp \<Rightarrow>
               (case (case cwd of
                        Some c \<Rightarrow>
                          (case cstring_new c of
                             None \<Rightarrow> Inl (sys_err EINVAL ''exec cwd contains nul'')
                           | Some s \<Rightarrow> Inr (Some s))
                      | None \<Rightarrow> Inr None) of
                  Inl e \<Rightarrow> Inl e
                | Inr c_cwd \<Rightarrow>
                    Inr \<lparr>ec_argv = Dynamic c_argv, ec_envp = c_envp, ec_cwd = c_cwd\<rparr>)))"

text \<open>
  The pointer arrays: a pointer is the C string it points to, and \<^const>\<open>None\<close> is the null pointer.
  \<open>c_array\<close> is what a callee that stops at the null pointer sees.
\<close>

type_synonym ptr = "byte list option"

definition get_argv_ptrs :: "exec_context \<Rightarrow> ptr list" where
  "get_argv_ptrs ctx = (case ec_argv ctx of Dynamic v \<Rightarrow> map Some v @ [None])"

definition get_envp_ptrs :: "exec_context \<Rightarrow> ptr list option" where
  "get_envp_ptrs ctx = map_option (\<lambda>envp. map Some envp @ [None]) (ec_envp ctx)"

fun c_array :: "ptr list \<Rightarrow> byte list list" where
  "c_array (Some s # ps) = s # c_array ps"
| "c_array _ = []"

section \<open>Lines and words of a status file\<close>

lemma str_lines_line: "10 \<notin> set l \<Longrightarrow> str_lines (l @ 10 # rest) = chomp_cr l # str_lines rest"
proof -
  assume l: "10 \<notin> set l"
  then have tw: "takeWhile (\<lambda>c. c \<noteq> 10) (l @ 10 # rest) = l"
    and dw: "dropWhile (\<lambda>c. c \<noteq> 10) (l @ 10 # rest) = 10 # rest"
    by (auto simp: takeWhile_append dropWhile_append)
  obtain b bs where e: "l @ 10 # rest = b # bs" by (cases l) auto
  show ?thesis
    using tw dw unfolding e by (simp add: Let_def)
qed

definition plain_line :: "str \<Rightarrow> bool" where
  "plain_line l \<longleftrightarrow> 10 \<notin> set l \<and> 13 \<notin> set l"

lemma chomp_plain: "13 \<notin> set l \<Longrightarrow> chomp_cr l = l"
  by (metis chomp_cr_def last_in_set)

lemma str_lines_plain: "plain_line l \<Longrightarrow> str_lines (l @ 10 # rest) = l # str_lines rest"
  by (simp add: plain_line_def str_lines_line chomp_plain)

lemma str_lines_lines:
  "\<forall>l \<in> set ls. plain_line l \<Longrightarrow> str_lines (concat (map (\<lambda>l. l @ [10]) ls) @ rest) = ls @ str_lines rest"
  by (induction ls) (simp_all add: str_lines_plain)

lemma scan_skip:
  assumes "\<forall>l \<in> set ls. strip_prefix (ascii ''Name:'') l = None \<and> strip_prefix (ascii ''Uid:'') l = None"
    and "nm = None \<or> uid = None"
  shows "scan_status (ls @ rest) nm uid = scan_status rest nm uid"
  using assms by (induction ls) auto

lemma digit_no_ws:
  assumes "48 \<le> b" and "b \<le> (57 :: byte)"
  shows "ws_prefix ws_encodings (b # bs) = 0"
proof -
  have "\<forall>c \<in> {9, 10, 11, 12, 13, 32, 0xC2, 0xE1, 0xE2, 0xE3}. b \<noteq> c" using assms by auto
  then show ?thesis by (simp add: ws_prefix_def ws_encodings_def)
qed

lemma word_of_digits:
  assumes "set ds \<subseteq> {b. 48 \<le> b \<and> b \<le> 57}"
  shows "word_prefix (ds @ 9 # rest) = ds"
  using assms
proof (induction ds)
  case Nil
  show ?case by (simp add: ws_prefix_def ws_encodings_def)
next
  case (Cons d ds)
  then show ?case by (simp add: digit_no_ws)
qed

lemma skip_ws_tab: "skip_ws ws_encodings (9 # s) = skip_ws ws_encodings s"
  by (subst skip_ws.simps) (simp add: ws_prefix_def ws_encodings_def)

lemma trim_tab: "trim (9 # s) = trim s"
  by (simp add: trim_def trim_start_def skip_ws_tab)

lemma first_word_digits: "first_word (9 # show_nat n @ 9 # rest) = Some (show_nat n)"
proof -
  obtain b bs where s: "show_nat n = b # bs" using show_nat_digits by (metis list.exhaust)
  have d: "set (show_nat n) \<subseteq> {b. 48 \<le> b \<and> b \<le> 57}" using show_nat_digits by blast
  then have "skip_ws ws_encodings (show_nat n @ 9 # rest) = show_nat n @ 9 # rest"
    unfolding s by (subst skip_ws.simps) (simp add: digit_no_ws)
  then show ?thesis
    using word_of_digits [OF d] s by (simp add: first_word_def trim_start_def skip_ws_tab)
qed

text \<open>A status file as the kernel writes it: the name, other fields, the uids, the rest.\<close>

definition status_file :: "str \<Rightarrow> str list \<Rightarrow> nat \<Rightarrow> str \<Rightarrow> str \<Rightarrow> str" where
  "status_file nm flds uid uids rest =
     (ascii ''Name:'' @ 9 # nm) @ 10 # concat (map (\<lambda>l. l @ [10]) flds) @
     (ascii ''Uid:'' @ 9 # show_nat uid @ 9 # uids) @ 10 # rest"

lemma ascii_plain: "plain_line (ascii ''Name:'')" "plain_line (ascii ''Uid:'')"
  by (simp_all add: plain_line_def ascii_def)

lemma plain_line_append [simp]:
  "plain_line (xs @ ys) \<longleftrightarrow> plain_line xs \<and> plain_line ys"
  "plain_line (x # xs) \<longleftrightarrow> x \<noteq> 10 \<and> x \<noteq> 13 \<and> plain_line xs"
  by (auto simp: plain_line_def)

lemma show_nat_plain: "plain_line (show_nat n)"
proof -
  have "set (show_nat n) \<subseteq> {b. 48 \<le> b \<and> b \<le> 57}" using show_nat_digits by blast
  then show ?thesis unfolding plain_line_def by auto
qed

lemma strip_prefix_append: "strip_prefix p (p @ s) = Some s"
  by (simp add: strip_prefix_def)

lemma strip_name_uid: "strip_prefix (ascii ''Name:'') (ascii ''Uid:'' @ s) = None"
  by (simp add: strip_prefix_def ascii_def)

lemma parse_status_file:
  assumes "plain_line nm" and "trim nm = nm" and "plain_line uids" and "uid < 2 ^ 32"
    and "\<forall>l \<in> set flds. plain_line l \<and> strip_prefix (ascii ''Name:'') l = None
           \<and> strip_prefix (ascii ''Uid:'') l = None"
  shows "parse_proc_status (status_file nm flds uid uids rest) = Inr \<lparr>ps_name = nm, ps_uid = int uid\<rparr>"
proof -
  let ?n = "ascii ''Name:'' @ 9 # nm" and ?u = "ascii ''Uid:'' @ 9 # show_nat uid @ 9 # uids"
  have pn: "plain_line ?n" and pu: "plain_line ?u"
    using assms(1,3) ascii_plain show_nat_plain by simp_all
  have lines: "str_lines (status_file nm flds uid uids rest) = ?n # flds @ ?u # str_lines rest"
    unfolding status_file_def str_lines_plain [OF pn]
    using str_lines_lines [of flds "?u @ 10 # rest"] str_lines_plain [OF pu] assms(5) by simp
  have "scan_status (flds @ ?u # str_lines rest) (Some nm) None
      = scan_status (?u # str_lines rest) (Some nm) None"
    by (rule scan_skip) (use assms(5) in auto)
  also have "\<dots> = (Some nm, Some (int uid))"
    using strip_prefix_append [of "ascii ''Uid:''"] strip_name_uid first_word_digits
      parse_u32_show [OF assms(4)] by simp
  finally have "scan_status (?n # flds @ ?u # str_lines rest) None None = (Some nm, Some (int uid))"
    using strip_prefix_append [of "ascii ''Name:''"] trim_tab assms(2) by simp
  then show ?thesis unfolding parse_proc_status_def lines by simp
qed

section \<open>Command lines\<close>

fun join_with :: "str \<Rightarrow> str list \<Rightarrow> str" where
  "join_with sep [] = []"
| "join_with sep [a] = a"
| "join_with sep (a # b # as) = a @ sep @ join_with sep (b # as)"

lemma concat_join: "as \<noteq> [] \<Longrightarrow> concat (map (\<lambda>a. a @ [0]) as) = join_with [0] as @ [0]"
  by (induction "[0::byte]" as rule: join_with.induct) simp_all

lemma join_last: "as \<noteq> [] \<Longrightarrow> last as \<noteq> [] \<Longrightarrow> join_with sep as \<noteq> [] \<and> last (join_with sep as) = last (last as)"
  by (induction sep as rule: join_with.induct) auto

lemma replace_join:
  "\<forall>a \<in> set as. 0 \<notin> set a \<Longrightarrow> replace_byte 0 sep (join_with [0] as) = join_with sep as"
proof (induction "[0::byte]" as rule: join_with.induct)
  case (2 a)
  then have "concat (map (\<lambda>c. if c = 0 then sep else [c]) a) = a" by (induction a) auto
  then show ?case by (simp add: replace_byte_def)
next
  case (3 a b as)
  then have "concat (map (\<lambda>c. if c = 0 then sep else [c]) a) = a" by (induction a) auto
  with 3 show ?case by (simp add: replace_byte_def)
qed (simp add: replace_byte_def)

lemma trim_end_zero: "s \<noteq> [] \<Longrightarrow> last s \<noteq> 0 \<Longrightarrow> trim_end_matches 0 (s @ [0]) = s"
  by (cases s rule: rev_cases) (simp_all add: trim_end_matches_def)

section \<open>Signal dispositions\<close>

text \<open>
  The table of signal dispositions after a trace, and the documented behaviour of \<open>sigaction\<close>: a
  successful call reports the disposition it replaces.
\<close>

fun sig_replay :: "event_log \<Rightarrow> (int \<Rightarrow> sigact) \<Rightarrow> int \<Rightarrow> sigact" where
  "sig_replay [] T = T"
| "sig_replay ((c, r) # t) T =
     sig_replay t (case c of Sigaction sig a \<Rightarrow> if r_ret r = -1 then T else T(sig := a) | _ \<Rightarrow> T)"

fun sig_reported :: "event_log \<Rightarrow> (int \<Rightarrow> sigact) \<Rightarrow> bool" where
  "sig_reported [] T = True"
| "sig_reported ((c, r) # t) T =
     (case c of
        Sigaction sig a \<Rightarrow>
          (r_ret r \<noteq> -1 \<longrightarrow> out_sigact (r_out r) = T sig) \<and>
          sig_reported t (if r_ret r = -1 then T else T(sig := a))
      | _ \<Rightarrow> sig_reported t T)"

lemma install_handler_runs:
  assumes "install_signal_handler K sig w = (res, w')"
  obtains r where "sys K (Sigaction sig shutdown_action) w = (r, w')"
    and "res = (if r_ret r = -1 then Inl (last_sigaction_error sig w') else Inr (out_sigact (r_out r)))"
  using assms by (auto simp: install_signal_handler_def split: prod.splits if_splits)

lemma restore_handler_runs:
  assumes "restore_signal_handler K sig a w = (res, w')"
  obtains r where "sys K (Sigaction sig a) w = (r, w')"
    and "res = (if r_ret r = -1 then Inl (last_sigaction_error sig w') else Inr ())"
  using assms by (auto simp: restore_signal_handler_def split: prod.splits if_splits)

lemma deliver_flag_ptr [simp]: "flag_ptr (deliver sigs s) = flag_ptr s"
  by (induction sigs arbitrary: s) (simp_all add: deliver_def shutdown_signal_handler_def split: option.split)

lemma deliver_append: "deliver ys (deliver xs s) = deliver (xs @ ys) s"
  by (simp add: deliver_def)

lemma deliver_requested: "shutdown_requested f (deliver sigs s) \<Longrightarrow> shutdown_requested f s \<or> flag_ptr s = Some f"
proof (induction sigs arbitrary: s)
  case (Cons sig sigs)
  have "flag_ptr (shutdown_signal_handler sig s) = flag_ptr s"
    by (simp add: shutdown_signal_handler_def split: option.split)
  with Cons.IH [of "shutdown_signal_handler sig s"] Cons.prems show ?case
    by (auto simp: deliver_def shutdown_requested_def shutdown_signal_handler_def split: option.splits if_splits)
qed (simp add: deliver_def)

lemma install_shutdown_cases:
  assumes "install_shutdown_flag K arrivals flag s w = ((res, s'), w')"
  obtains (no_sigint) q e where "sys K (Sigaction SIGINT shutdown_action) w = (q, w')" "r_ret q = -1"
      "res = Inl e" "s' = deliver (arrivals 0) s"
  | (both) q1 w1 q2 where "sys K (Sigaction SIGINT shutdown_action) w = (q1, w1)" "r_ret q1 \<noteq> -1"
      "sys K (Sigaction SIGTERM shutdown_action) w1 = (q2, w')" "r_ret q2 \<noteq> -1"
      "res = Inr ()" "s' = (deliver (arrivals 0 @ arrivals 1) s)\<lparr>flag_ptr := Some flag\<rparr>"
  | (undone) q1 w1 q2 w2 q3 e where "sys K (Sigaction SIGINT shutdown_action) w = (q1, w1)" "r_ret q1 \<noteq> -1"
      "sys K (Sigaction SIGTERM shutdown_action) w1 = (q2, w2)" "r_ret q2 = -1"
      "sys K (Sigaction SIGINT (out_sigact (r_out q1))) w2 = (q3, w')" "res = Inl e"
      "r_ret q3 = -1 \<longrightarrow> e = sys_err (r_errno q3) ''sigaction(SIGINT)''"
      "s' = deliver (arrivals 0 @ arrivals 1 @ arrivals 2) s"
proof -
  obtain r1 w1 where i1: "install_signal_handler K SIGINT w = (r1, w1)" by fastforce
  obtain q1 where s1: "sys K (Sigaction SIGINT shutdown_action) w = (q1, w1)"
    and r1: "r1 = (if r_ret q1 = -1 then Inl (last_sigaction_error SIGINT w1) else Inr (out_sigact (r_out q1)))"
    by (rule install_handler_runs [OF i1])
  obtain r2 w2 where i2: "install_signal_handler K SIGTERM w1 = (r2, w2)" by fastforce
  obtain q2 where s2: "sys K (Sigaction SIGTERM shutdown_action) w1 = (q2, w2)"
    and r2: "r2 = (if r_ret q2 = -1 then Inl (last_sigaction_error SIGTERM w2) else Inr (out_sigact (r_out q2)))"
    by (rule install_handler_runs [OF i2])
  obtain r3 w3 where i3: "restore_signal_handler K SIGINT (out_sigact (r_out q1)) w2 = (r3, w3)" by fastforce
  obtain q3 where s3: "sys K (Sigaction SIGINT (out_sigact (r_out q1))) w2 = (q3, w3)"
    and r3: "r3 = (if r_ret q3 = -1 then Inl (last_sigaction_error SIGINT w3) else Inr ())"
    by (rule restore_handler_runs [OF i3])
  have e3: "last_sigaction_error SIGINT w3 = sys_err (r_errno q3) ''sigaction(SIGINT)''" if "r_ret q3 = -1"
    using that sysD(3) [OF s3] by (simp add: last_sigaction_error_def last_errno_def)
  note eq = assms [unfolded install_shutdown_flag_def Let_def i1 i2 prod.case, symmetric]
  consider "r_ret q1 = -1" | "r_ret q1 \<noteq> -1" "r_ret q2 = -1" | "r_ret q1 \<noteq> -1" "r_ret q2 \<noteq> -1" by blast
  then show thesis
  proof cases
    case 1
    with eq s1 r1 show thesis by (intro no_sigint [of q1]) simp_all
  next
    case 2
    with eq s1 r1 s2 r2 i3 s3 r3 e3 show thesis
      by (cases "r_ret q3 = -1"; intro undone [of q1 w1 q2 w2 q3]) (simp_all add: deliver_append)
  next
    case 3
    with eq s1 r1 s2 r2 show thesis by (intro both [of q1 w1 q2]) (simp_all add: deliver_append)
  qed
qed

section \<open>Read-ahead retries\<close>

definition readahead_run :: "int \<Rightarrow> int \<Rightarrow> nat \<Rightarrow> 'k world \<Rightarrow> (sys_error + unit) \<times> 'k world \<Rightarrow> bool" where
  "readahead_run n offset cnt w y \<longleftrightarrow>
     (\<exists>t. runs w (snd y) t \<and> t \<noteq> [] \<and> (\<forall>e \<in> set t. fst e = Readahead n offset cnt) \<and>
        (\<forall>e \<in> set (butlast t). interrupted (snd e)) \<and>
        fst y = (if r_ret (snd (last t)) = -1 then Inl (sys_err (r_errno (snd (last t))) ''readahead'')
                 else Inr ()) \<and>
        (r_ret (snd (last t)) = -1 \<longrightarrow> r_errno (snd (last t)) \<noteq> EINTR))"

lemma readahead_loop_runs:
  "readahead_loop K n offset cnt w = Some y \<Longrightarrow> readahead_run n offset cnt w y"
proof (rule readahead_loop.raw_induct [where P = "\<lambda>K. readahead_run"], goal_cases)
  case (1 loop K n offset cnt w y)
  note IH = 1(2) and eq = 1(3)
  obtain r w1 where s: "sys K (Readahead n offset cnt) w = (r, w1)" by fastforce
  note run = runs_sys [OF s]
  have er: "last_errno w1 = r_errno r" if "r_ret r = -1"
    using that s by (simp add: last_errno_def sysD(3))
  show "readahead_run n offset cnt w y"
  proof (cases "r_ret r = -1 \<and> last_errno w1 = EINTR")
    case True
    with eq s have "loop K n offset cnt w1 = Some y" by simp
    from IH [OF this] obtain t where t: "runs w1 (snd y) t" "t \<noteq> []"
      "\<forall>e \<in> set t. fst e = Readahead n offset cnt" "\<forall>e \<in> set (butlast t). interrupted (snd e)"
      "fst y = (if r_ret (snd (last t)) = -1 then Inl (sys_err (r_errno (snd (last t))) ''readahead'')
                 else Inr ())"
      "r_ret (snd (last t)) = -1 \<longrightarrow> r_errno (snd (last t)) \<noteq> EINTR"
      unfolding readahead_run_def by blast
    have "interrupted r" using True er by (simp add: interrupted_def)
    with t runs_trans [OF run t(1)] show ?thesis
      unfolding readahead_run_def by (intro exI [of _ "(Readahead n offset cnt, r) # t"]) auto
  next
    case False
    with eq s er run show ?thesis
      unfolding readahead_run_def by (intro exI [of _ "[(Readahead n offset cnt, r)]"]) (auto split: if_splits)
  qed
qed

lemma readahead_loop_hangs:
  assumes "readahead_loop K n offset cnt w = None"
  shows "endless K (interrupts (Readahead n offset cnt)) w"
  using assms
proof (coinduction arbitrary: w)
  case (endless w)
  obtain r w1 where s: "sys K (Readahead n offset cnt) w = (r, w1)" by fastforce
  with endless have "r_ret r = -1 \<and> last_errno w1 = EINTR \<and> readahead_loop K n offset cnt w1 = None"
    by (subst (asm) readahead_loop.simps) (auto split: if_splits)
  moreover from this have "interrupted r" using sysD(3) [OF s] by (simp add: interrupted_def last_errno_def)
  ultimately show ?case using s
    by (intro exI [of _ "Readahead n offset cnt"] exI [of _ w] exI [of _ r] exI [of _ w1]) simp
qed

section \<open>The execution context\<close>

lemma collect_cstrings_eq:
  "collect_cstrings msg ss = (if \<exists>s \<in> set ss. 0 \<in> set s then Inl (sys_err EINVAL msg) else Inr ss)"
  by (induction ss) (auto simp: cstring_new_def)

lemma c_array_ptrs [simp]: "c_array (map Some v @ [None]) = v"
  by (induction v) simp_all

section \<open>Properties\<close>

text \<open>C34. Validated execution contexts. \<open>ExecContext::new\<close> accepts exactly the argument vectors that
  are not empty and in which no argument, variable or directory contains a NUL; every rejection is
  EINVAL and names the first offending part, in the order argv, environment, directory; and what
  the kernel then reads through the null-terminated pointer arrays is exactly what was given.\<close>

theorem exec_context_faithful:
  "exec_context_new argv env cwd =
     (if argv = [] then Inl (sys_err EINVAL ''exec argv empty'')
      else if \<exists>s \<in> set argv. 0 \<in> set s then Inl (sys_err EINVAL ''exec argv contains nul'')
      else if \<exists>vars \<in> set_option env. \<exists>s \<in> set vars. 0 \<in> set s then Inl (sys_err EINVAL ''exec env contains nul'')
      else if \<exists>c \<in> set_option cwd. 0 \<in> set c then Inl (sys_err EINVAL ''exec cwd contains nul'')
      else Inr \<lparr>ec_argv = Dynamic argv, ec_envp = env, ec_cwd = cwd\<rparr>) \<and>
   c_array (get_argv_ptrs \<lparr>ec_argv = Dynamic argv, ec_envp = env, ec_cwd = cwd\<rparr>) = argv \<and>
   map_option c_array (get_envp_ptrs \<lparr>ec_argv = Dynamic argv, ec_envp = env, ec_cwd = cwd\<rparr>) = env"
  by (cases env; cases cwd)
    (auto simp: exec_context_new_def collect_cstrings_eq cstring_new_def get_argv_ptrs_def get_envp_ptrs_def)

text \<open>C38. Reading back a process status. From a status file as the kernel writes it, whatever other
  fields stand between the two and whatever follows, the parser returns the name and the real uid
  that were written, for every 32-bit uid.\<close>

theorem proc_status_roundtrip:
  assumes "plain_line nm" and "trim nm = nm" and "plain_line uids" and "uid < 2 ^ 32"
    and "\<forall>l \<in> set flds. plain_line l \<and> strip_prefix (ascii ''Name:'') l = None
           \<and> strip_prefix (ascii ''Uid:'') l = None"
  shows "parse_proc_status (status_file nm flds uid uids rest) = Inr \<lparr>ps_name = nm, ps_uid = int uid\<rparr>"
  using assms by (rule parse_status_file)

theorem proc_status_roundtrip_witness:
  "parse_proc_status (status_file (ascii ''sh'') [ascii ''Pid: 7''] 1000 (ascii ''1000'') [])
     = Inr \<lparr>ps_name = ascii ''sh'', ps_uid = 1000\<rparr>"
proof -
  have t: "trim (ascii ''sh'') = ascii ''sh''"
    by (simp add: ascii_def trim_def trim_start_def trim_end_def skip_ws.simps ws_prefix_def ws_encodings_def)
  have "parse_proc_status (status_file (ascii ''sh'') [ascii ''Pid: 7''] 1000 (ascii ''1000'') [])
     = Inr \<lparr>ps_name = ascii ''sh'', ps_uid = int 1000\<rparr>"
    by (rule proc_status_roundtrip [OF _ t]) (simp_all add: plain_line_def ascii_def strip_prefix_def)
  then show ?thesis by simp
qed

text \<open>Reading back a command line. The kernel ends each argument with a NUL;
  \<open>read_proc_cmdline\<close> returns the arguments separated by single spaces, and an unreadable file is the kernel's error.\<close>

theorem cmdline_roundtrip:
  assumes "fs_read K (ascii ''/proc/'' @ show_int pid @ ascii ''/cmdline'') w = (res, w')"
    and "\<forall>bs. res = Inr bs \<longrightarrow> bs = concat (map (\<lambda>a. a @ [0]) args) \<and> valid_utf8 bs"
    and "args \<noteq> []" and "last args \<noteq> []" and "\<forall>a \<in> set args. 0 \<notin> set a"
  shows "read_proc_cmdline K pid w = ((case res of Inl e \<Rightarrow> Inl e | Inr _ \<Rightarrow> Inr (join_with (ascii '' '') args)), w')"
proof (cases res)
  case (Inl e)
  with assms(1) show ?thesis by (simp add: read_proc_cmdline_def)
next
  case (Inr bs)
  with assms(2) have bs: "bs = join_with [0] args @ [0]" "valid_utf8 bs"
    using concat_join [OF assms(3)] by auto
  have "last (last args) \<in> set (last args)" using assms(4) by simp
  with assms(3,5) have "last (last args) \<noteq> 0" by (metis last_in_set)
  with join_last [OF assms(3,4), of "[0]"] have "trim_end_matches 0 bs = join_with [0] args"
    unfolding bs by (intro trim_end_zero) auto
  with Inr assms(1,5) bs(2) show ?thesis
    by (simp add: read_proc_cmdline_def lossy_valid replace_join)
qed

theorem cmdline_roundtrip_witness:
  "\<exists>K :: unit os. \<exists>w w'. read_proc_cmdline K 7 w = (Inr (ascii ''a b''), w')"
proof -
  let ?bs = "[97, 0, 98, 0] :: byte list"
  let ?K = "\<lparr>trap = (\<lambda>c k. (\<lparr>r_ret = 0, r_errno = 0, r_out = OutBytes ?bs\<rparr>, k)),
     os_WIFEXITED = (\<lambda>_. True), os_WEXITSTATUS = (\<lambda>_. 0), os_WIFSIGNALED = (\<lambda>_. False),
     os_WTERMSIG = (\<lambda>_. 0)\<rparr> :: unit os"
  let ?w = "\<lparr>kst = (), errno = 0, trace = []\<rparr>"
  let ?path = "ascii ''/proc/'' @ show_int 7 @ ascii ''/cmdline''"
  have "cstring_new ?path = Some ?path"
    by (simp add: cstring_new_def ascii_def show_int_def show_nat.simps)
  then obtain w' where f: "fs_read ?K ?path ?w = (Inr ?bs, w')"
    by (simp add: fs_read_def sys_def)
  have "valid_utf8 ?bs" by (rule ascii_valid) simp
  then have v: "\<forall>bs. (Inr ?bs :: io_error + byte list) = Inr bs \<longrightarrow>
      bs = concat (map (\<lambda>a. a @ [0]) [[97], [98]]) \<and> valid_utf8 bs" by simp
  have "read_proc_cmdline ?K 7 ?w = (Inr (join_with (ascii '' '') [[97], [98]]), w')"
    using cmdline_roundtrip [OF f v] by simp
  then show ?thesis by (auto simp: ascii_def)
qed

text \<open>C35. Installing the shutdown flag is all or nothing, and the flag is published last. Whatever signals arrive
  during the installation set only the flag that was active before it, never the new one. If it succeeds,
  SIGINT and SIGTERM (and no other signal) have the crate's handler, and from then on a delivered signal
  sets exactly the installed flag. If it fails, the flag that was active before stays active, and the
  dispositions are what they were, unless restoring SIGINT failed too, which the error then reports.\<close>

theorem shutdown_install_atomic:
  assumes "install_shutdown_flag K arrivals flag s w = ((res, s'), w')"
  shows "(\<forall>f. shutdown_requested f s' \<longrightarrow> shutdown_requested f s \<or> flag_ptr s = Some f) \<and>
   (\<exists>t. runs w w' t \<and> (\<forall>T. sig_reported t T \<longrightarrow>
     (case res of
        Inr _ \<Rightarrow> sig_replay t T = T(SIGINT := shutdown_action, SIGTERM := shutdown_action) \<and>
          (\<forall>sig f. shutdown_requested f (shutdown_signal_handler sig s') \<longleftrightarrow>
             f = flag \<or> shutdown_requested f s')
      | Inl e \<Rightarrow> flag_ptr s' = flag_ptr s \<and>
          (sig_replay t T = T \<or>
           sig_replay t T = T(SIGINT := shutdown_action) \<and> fst (last t) = Sigaction SIGINT (T SIGINT) \<and>
           r_ret (snd (last t)) = -1 \<and> e = sys_err (r_errno (snd (last t))) ''sigaction(SIGINT)''))))"
proof -
  let ?int = "Sigaction SIGINT shutdown_action" and ?trm = "Sigaction SIGTERM shutdown_action"
  show ?thesis
    using assms
  proof (cases rule: install_shutdown_cases)
    case (no_sigint q e)
    from no_sigint(4) have "\<forall>f. shutdown_requested f s' \<longrightarrow> shutdown_requested f s \<or> flag_ptr s = Some f"
      by (auto dest: deliver_requested)
    with no_sigint runs_sys [OF no_sigint(1)] show ?thesis
      by (intro conjI exI [of _ "[(?int, q)]"]) auto
  next
    case (both q1 w1 q2)
    have "\<forall>f. shutdown_requested f s' \<longrightarrow> shutdown_requested f s \<or> flag_ptr s = Some f"
      using both(6) deliver_requested [of _ "arrivals 0 @ arrivals 1" s] by (simp add: shutdown_requested_def)
    with both runs_trans [OF runs_sys [OF both(1)] runs_sys [OF both(3)]] show ?thesis
      by (intro conjI exI [of _ "[(?int, q1), (?trm, q2)]"])
        (auto simp: shutdown_requested_def shutdown_signal_handler_def)
  next
    case (undone q1 w1 q2 w2 q3 e)
    have "\<forall>f. shutdown_requested f s' \<longrightarrow> shutdown_requested f s \<or> flag_ptr s = Some f"
      using undone(8) by (auto dest!: deliver_requested)
    with undone runs_trans [OF runs_trans [OF runs_sys [OF undone(1)] runs_sys [OF undone(3)]] runs_sys [OF undone(5)]]
    show ?thesis
      by (intro conjI exI [of _ "[(?int, q1), (?trm, q2), (Sigaction SIGINT (out_sigact (r_out q1)), q3)]"])
        (auto split: if_splits)
  qed
qed

theorem shutdown_install_atomic_witness:
  "\<exists>s' w'. install_shutdown_flag demo_os (\<lambda>i. if i = 1 then [SIGTERM] else []) 3
        \<lparr>flag_ptr = Some 2, flags = (\<lambda>_. False)\<rparr> (demo_world [] [] []) = ((Inr (), s'), w') \<and>
     shutdown_requested 2 s' \<and> \<not> shutdown_requested 3 s' \<and> shutdown_requested 3 (shutdown_signal_handler SIGTERM s')"
proof -
  let ?s = "\<lparr>flag_ptr = Some 2, flags = (\<lambda>_. False)\<rparr>" and ?arr = "\<lambda>i :: nat. if i = 1 then [SIGTERM] else []"
  obtain s' w' where r: "install_shutdown_flag demo_os ?arr 3 ?s (demo_world [] [] []) = ((Inr (), s'), w')"
    and two: "shutdown_requested 2 s'"
    and tr: "trace w' = [(Sigaction SIGINT shutdown_action, ok_reply 0 NoOut),
        (Sigaction SIGTERM shutdown_action, ok_reply 0 NoOut)]"
    by (simp add: install_shutdown_flag_def install_signal_handler_def deliver_def shutdown_signal_handler_def
        shutdown_requested_def demo_run)
  note at = shutdown_install_atomic [OF r]
  then have three: "\<not> shutdown_requested 3 s'" by (auto simp: shutdown_requested_def)
  from at [THEN conjunct2] obtain t where t: "runs (demo_world [] [] []) w' t"
    and p: "\<forall>T. sig_reported t T \<longrightarrow> sig_replay t T = T(SIGINT := shutdown_action, SIGTERM := shutdown_action) \<and>
       (\<forall>sig f. shutdown_requested f (shutdown_signal_handler sig s') \<longleftrightarrow> f = 3 \<or> shutdown_requested f s')"
    unfolding sum.case by blast
  have "t = [(Sigaction SIGINT shutdown_action, ok_reply 0 NoOut), (Sigaction SIGTERM shutdown_action, ok_reply 0 NoOut)]"
    using t tr by (simp add: runs_def demo_world_def)
  then have "sig_reported t (\<lambda>_. \<lparr>sa_handler = Other_handler 0, sa_flags = 0, sa_mask = {}\<rparr>)"
    by (simp add: ok_reply_def)
  with p r two three show ?thesis by blast
qed

text \<open>C39. Read-ahead bounds and retries. An offset that does not fit the kernel's signed type is
  refused with EINVAL and no call is made; otherwise every call asks for the given offset and at
  most \<open>2 ^ 32 - 1\<close> bytes, is repeated only while interrupted, and the result is that of the last
  call, which was not interrupted.\<close>

theorem readahead_bounds:
  assumes "readahead K n offset len w = Some (res, w')"
  shows "if 2 ^ 63 \<le> uint offset then res = Inl (sys_err EINVAL ''readahead'') \<and> w' = w
     else \<exists>t. runs w w' t \<and> t \<noteq> [] \<and>
       (\<forall>e \<in> set t. fst e = Readahead n (uint offset) (min len (2 ^ 32 - 1))) \<and>
       (\<forall>e \<in> set (butlast t). interrupted (snd e)) \<and>
       res = (if r_ret (snd (last t)) = -1 then Inl (sys_err (r_errno (snd (last t))) ''readahead'') else Inr ()) \<and>
       (\<forall>e. res = Inl e \<longrightarrow> code e \<noteq> EINTR)"
proof (cases "2 ^ 63 \<le> uint offset")
  case True
  with assms show ?thesis by (simp add: readahead_def)
next
  case False
  have "sint offset = uint offset"
    using False uint_ge_0 [of offset]
    by (simp add: sint_uint signed_take_bit_int_eq_self order.trans [of _ 0])
  with assms False have l: "readahead_loop K n (uint offset) (min len (2 ^ 32 - 1)) w = Some (res, w')"
    by (simp add: readahead_def split: if_splits)
  from readahead_loop_runs [OF this] False show ?thesis
    unfolding readahead_run_def fst_conv snd_conv by auto
qed

theorem readahead_bounds_witness:
  "\<exists>w' t. runs (demo_world [] [] [err_reply 4, ok_reply 0 NoOut]) w' t \<and> t \<noteq> [] \<and>
     (\<forall>e \<in> set t. fst e = Readahead 3 4096 4294967295)"
proof -
  let ?w = "demo_world [] [] [err_reply 4, ok_reply 0 NoOut]"
  have "readahead demo_os 3 4096 5000000000 ?w = readahead_loop demo_os 3 4096 4294967295 ?w"
    by (simp add: readahead_def)
  moreover have "\<exists>w'. readahead_loop demo_os 3 4096 4294967295 ?w = Some (Inr (), w')"
    by (simp add: readahead_loop.simps last_errno_def demo_run)
  ultimately obtain w' where r: "readahead demo_os 3 4096 5000000000 ?w = Some (Inr (), w')" by metis
  from readahead_bounds [OF r] show ?thesis by auto
qed

text \<open>The probes ask the kernel only about well-formed paths. A path with an interior NUL is
  answered without a call: it does not exist, and its owner is EINVAL; any other path is passed on
  unchanged, and the answer is the kernel's.\<close>

theorem probes_reject_nul:
  "(if 0 \<in> set path
    then path_exists K path w = (False, w) \<and> path_lstat_exists K path w = (False, w) \<and>
      path_uid K path w = (Inl (sys_err EINVAL ''stat''), w)
    else path_exists K path w = (case sys K (Access path F_OK) w of (r, w1) \<Rightarrow> (r_ret r = 0, w1)) \<and>
      path_lstat_exists K path w = (case sys K (Lstat path) w of (r, w1) \<Rightarrow> (r_ret r = 0, w1)) \<and>
      path_uid K path w = (case sys K (Stat path) w of (r, w1) \<Rightarrow>
        (if r_ret r = -1 then Inl (sys_err (r_errno r) ''stat'') else Inr (out_num (r_out r)), w1)))"
  by (auto simp: path_exists_def path_lstat_exists_def path_uid_def stat_uid_def syscall_ret_def sysD(3)
      split: prod.splits)

end
