(* ===== verification/FdIo.thy ===== *)
theory FdIo
  imports SysErr
begin

text \<open>
  The owned file descriptor \<open>Fd\<close> of \<^verbatim>\<open>src/src/reactor/mod.rs\<close> (lines 13 to 160). An \<open>fd\<close> is the raw
  descriptor it wraps; \<open>drop_fd\<close> is its \<open>Drop\<close> implementation, called by the models of the other
  components wherever Rust drops an owned descriptor. \<open>dup2\<close>, \<open>read_raw\<close> and \<open>write_raw\<close> loop while
  the call is interrupted; each is an instance of the retry interface of theory Kernel.
\<close>

datatype fd = Fd (raw: int)

definition fd_new :: "int \<Rightarrow> string \<Rightarrow> 'k world \<Rightarrow> sys_error + fd" where
  "fd_new n o_name w = (if n < 0 then Inl (sys_err (last_errno w) o_name) else Inr (Fd n))"

definition as_raw_fd :: "fd \<Rightarrow> int" where
  "as_raw_fd f = raw f"

partial_function (option) dup2 ::
  "'k os \<Rightarrow> fd \<Rightarrow> int \<Rightarrow> 'k world \<Rightarrow> ((sys_error + unit) \<times> 'k world) option" where
  "dup2 K f target w =
     (let (r, w1) = sys K (Dup2 (raw f) target) w
      in if r_ret r < 0
         then (if last_errno w1 = EINTR then dup2 K f target w1
               else Some (syscall_ret (r_ret r) ''dup2'' w1, w1))
         else Some (Inr (), w1))"

definition set_nonblock :: "'k os \<Rightarrow> fd \<Rightarrow> 'k world \<Rightarrow> (sys_error + unit) \<times> 'k world" where
  "set_nonblock K f w =
     (let (flags, w1) = sys K (FcntlGetfl (raw f)) w
      in case syscall_ret (r_ret flags) ''fcntl(F_GETFL)'' w1 of
           Inl e \<Rightarrow> (Inl e, w1)
         | Inr _ \<Rightarrow>
             (let (r, w2) = sys K (FcntlSetfl (raw f) (r_ret flags OR O_NONBLOCK)) w1
              in (syscall_ret (r_ret r) ''fcntl(F_SETFL)'' w2, w2)))"

definition set_cloexec :: "'k os \<Rightarrow> fd \<Rightarrow> 'k world \<Rightarrow> (sys_error + unit) \<times> 'k world" where
  "set_cloexec K f w =
     (let (flags, w1) = sys K (FcntlGetfd (raw f)) w
      in case syscall_ret (r_ret flags) ''fcntl(F_GETFD)'' w1 of
           Inl e \<Rightarrow> (Inl e, w1)
         | Inr _ \<Rightarrow>
             (let (r, w2) = sys K (FcntlSetfd (raw f) (r_ret flags OR FD_CLOEXEC)) w1
              in (syscall_ret (r_ret r) ''fcntl(F_SETFD)'' w2, w2)))"

text \<open>
  \<open>read_raw\<close> is given the memory region and its size; it returns the result and the region after
  the call. \<open>Inr None\<close> is \<open>Ok(None)\<close>, the operation would block.
\<close>

partial_function (option) read_raw ::
  "'k os \<Rightarrow> fd \<Rightarrow> byte list \<Rightarrow> nat \<Rightarrow> 'k world
     \<Rightarrow> (((sys_error + nat option) \<times> byte list) \<times> 'k world) option" where
  "read_raw K f buf cnt w =
     (let (n, w1) = sys K (Read (raw f) cnt) w
      in if r_ret n < 0
         then (let e = last_errno w1
               in if e = EINTR then read_raw K f buf cnt w1
                  else if e = EAGAIN \<or> e = EWOULDBLOCK then Some ((Inr None, buf), w1)
                  else Some ((Inl (sys_err e ''read''), buf), w1))
         else Some ((Inr (Some (nat (r_ret n))), store buf (out_bytes (r_out n))), w1))"

partial_function (option) write_raw ::
  "'k os \<Rightarrow> fd \<Rightarrow> byte list \<Rightarrow> nat \<Rightarrow> 'k world
     \<Rightarrow> ((sys_error + nat option) \<times> 'k world) option" where
  "write_raw K f buf cnt w =
     (let (n, w1) = sys K (Write (raw f) (take cnt buf)) w
      in if r_ret n < 0
         then (let e = last_errno w1
               in if e = EINTR then write_raw K f buf cnt w1
                  else if e = EAGAIN \<or> e = EWOULDBLOCK then Some (Inr None, w1)
                  else Some (Inl (sys_err e ''write''), w1))
         else Some (Inr (Some (nat (r_ret n))), w1))"

definition read_slice ::
  "'k os \<Rightarrow> fd \<Rightarrow> byte list \<Rightarrow> 'k world
     \<Rightarrow> (((sys_error + nat option) \<times> byte list) \<times> 'k world) option" where
  "read_slice K f buf w = read_raw K f buf (length buf) w"

definition write_slice ::
  "'k os \<Rightarrow> fd \<Rightarrow> byte list \<Rightarrow> 'k world \<Rightarrow> ((sys_error + nat option) \<times> 'k world) option" where
  "write_slice K f buf w = write_raw K f buf (length buf) w"

definition drop_fd :: "'k os \<Rightarrow> fd \<Rightarrow> 'k world \<Rightarrow> 'k world" where
  "drop_fd K f w = (if 0 \<le> raw f then snd (sys K (Close (raw f)) w) else w)"

definition drop_opt_fd :: "'k os \<Rightarrow> fd option \<Rightarrow> 'k world \<Rightarrow> 'k world" where
  "drop_opt_fd K x w = (case x of None \<Rightarrow> w | Some f \<Rightarrow> drop_fd K f w)"

section \<open>The wrappers are retry loops\<close>

text \<open>The answers the wrappers give to the final reply.\<close>

definition dup2_answer :: "reply \<Rightarrow> 'k world \<Rightarrow> sys_error + unit" where
  [retry_defs]: "dup2_answer r w =
     (if r_ret r < 0 then syscall_ret (r_ret r) ''dup2'' w else Inr ())"

definition io_answer :: "string \<Rightarrow> reply \<Rightarrow> 'k world \<Rightarrow> sys_error + nat option" where
  [retry_defs]: "io_answer o_name r w =
     (if r_ret r < 0
      then (if last_errno w = EAGAIN \<or> last_errno w = EWOULDBLOCK then Inr None
            else Inl (sys_err (last_errno w) o_name))
      else Inr (Some (nat (r_ret r))))"

definition read_answer :: "byte list \<Rightarrow> reply \<Rightarrow> 'k world \<Rightarrow> (sys_error + nat option) \<times> byte list" where
  [retry_defs]: "read_answer buf r w =
     (io_answer ''read'' r w, if r_ret r < 0 then buf else store buf (out_bytes (r_out r)))"

lemma last_errno_sys: "sys K c w = (r, w1) \<Longrightarrow> r_ret r < 0 \<Longrightarrow> last_errno w1 = r_errno r"
  by (simp add: last_errno_def sysD(3))

lemma interrupted_errno: "sys K c w = (r, w1) \<Longrightarrow> interrupted r \<longleftrightarrow> r_ret r < 0 \<and> last_errno w1 = EINTR"
  by (auto simp: interrupted_def last_errno_sys)

lemma dup2_sound:
  "dup2 K f target w = Some y \<Longrightarrow> retried K (Dup2 (raw f) target) dup2_answer w y"
  by (rule dup2.raw_induct [where P = "\<lambda>K f target. retried K (Dup2 (raw f) target) dup2_answer"])
    (rule retried_step, auto simp: interrupted_errno dup2_answer_def split: prod.splits if_splits)

lemma read_raw_sound:
  "read_raw K f buf cnt w = Some y \<Longrightarrow> retried K (Read (raw f) cnt) (read_answer buf) w y"
  by (rule read_raw.raw_induct
        [where P = "\<lambda>K f buf cnt. retried K (Read (raw f) cnt) (read_answer buf)"])
    (rule retried_step,
      auto simp: interrupted_errno read_answer_def io_answer_def Let_def split: prod.splits if_splits)

lemma write_raw_sound:
  "write_raw K f buf cnt w = Some y \<Longrightarrow>
     retried K (Write (raw f) (take cnt buf)) (io_answer ''write'') w y"
  by (rule write_raw.raw_induct
        [where P = "\<lambda>K f buf cnt. retried K (Write (raw f) (take cnt buf)) (io_answer ''write'')"])
    (rule retried_step,
      auto simp: interrupted_errno io_answer_def Let_def split: prod.splits if_splits)

interpretation dup2_retry: retry_loop K "Dup2 (raw f) target" "dup2 K f target" dup2_answer
  for K :: "'k os" and f target
proof unfold_locales
  fix w :: "'k world"
  show "dup2 K f target w = (let (r, w1) = sys K (Dup2 (raw f) target) w
      in if interrupted r then dup2 K f target w1 else Some (dup2_answer r w1, w1))"
    by (subst dup2.simps) (auto simp: interrupted_errno dup2_answer_def split: prod.splits)
qed (rule dup2_sound)

interpretation read_retry: retry_loop K "Read (raw f) cnt" "read_raw K f buf cnt" "read_answer buf"
  for K :: "'k os" and f buf cnt
proof unfold_locales
  fix w :: "'k world"
  show "read_raw K f buf cnt w = (let (r, w1) = sys K (Read (raw f) cnt) w
      in if interrupted r then read_raw K f buf cnt w1 else Some (read_answer buf r w1, w1))"
    by (subst read_raw.simps)
      (auto simp: interrupted_errno read_answer_def io_answer_def Let_def split: prod.splits)
qed (rule read_raw_sound)

interpretation write_retry: retry_loop K "Write (raw f) (take cnt buf)" "write_raw K f buf cnt" "io_answer ''write''"
  for K :: "'k os" and f buf cnt
proof unfold_locales
  fix w :: "'k world"
  show "write_raw K f buf cnt w = (let (r, w1) = sys K (Write (raw f) (take cnt buf)) w
      in if interrupted r then write_raw K f buf cnt w1 else Some (io_answer ''write'' r w1, w1))"
    by (subst write_raw.simps)
      (auto simp: interrupted_errno io_answer_def Let_def split: prod.splits)
qed (rule write_raw_sound)

section \<open>Reading and writing through a slice\<close>

text \<open>
  What a trace says about the bytes of one descriptor: \<open>delivered n t\<close> are the bytes the kernel
  handed out on \<open>n\<close>, \<open>accepted n t\<close> the bytes it took in.
\<close>

definition read_bytes :: "int \<Rightarrow> call \<times> reply \<Rightarrow> byte list" where
  "read_bytes n e = (case fst e of
     Read m _ \<Rightarrow> if m = n \<and> 0 \<le> r_ret (snd e) then out_bytes (r_out (snd e)) else [] | _ \<Rightarrow> [])"

definition written_bytes :: "int \<Rightarrow> call \<times> reply \<Rightarrow> byte list" where
  "written_bytes n e = (case fst e of
     Write m bs \<Rightarrow> if m = n \<and> 0 \<le> r_ret (snd e) then take (nat (r_ret (snd e))) bs else [] | _ \<Rightarrow> [])"

definition delivered :: "int \<Rightarrow> event_log \<Rightarrow> byte list" where
  "delivered n t = concat (map (read_bytes n) t)"

definition accepted :: "int \<Rightarrow> event_log \<Rightarrow> byte list" where
  "accepted n t = concat (map (written_bytes n) t)"

lemma delivered_simps [simp]:
  "delivered n [] = []" "delivered n (s @ t) = delivered n s @ delivered n t"
  by (simp_all add: delivered_def)

lemma accepted_simps [simp]:
  "accepted n [] = []" "accepted n (s @ t) = accepted n s @ accepted n t"
  by (simp_all add: accepted_def)

lemma delivered_interrupted:
  "list_all interrupted rs \<Longrightarrow> delivered n (map (Pair c) rs) = []"
  by (induction rs) (auto simp: delivered_def read_bytes_def interrupted_def split: call.splits)

lemma accepted_interrupted:
  "list_all interrupted rs \<Longrightarrow> accepted n (map (Pair c) rs) = []"
  by (induction rs) (auto simp: accepted_def written_bytes_def interrupted_def split: call.splits)

lemma delivered_read [simp]:
  "delivered n [(Read n cnt, r)] = (if 0 \<le> r_ret r then out_bytes (r_out r) else [])"
  by (simp add: delivered_def read_bytes_def)

lemma accepted_write [simp]:
  "accepted n [(Write n bs, r)] = (if 0 \<le> r_ret r then take (nat (r_ret r)) bs else [])"
  by (simp add: accepted_def written_bytes_def)

text \<open>The result of an I/O wrapper as a function of the last reply alone.\<close>

definition would_block :: "reply \<Rightarrow> bool" where
  "would_block r \<longleftrightarrow> r_ret r < 0 \<and> (r_errno r = EAGAIN \<or> r_errno r = EWOULDBLOCK)"

definition io_result :: "string \<Rightarrow> reply \<Rightarrow> sys_error + nat option" where
  "io_result o_name r =
     (if would_block r then Inr None
      else if r_ret r < 0 then Inl (sys_err (r_errno r) o_name)
      else Inr (Some (nat (r_ret r))))"

lemma io_answer_result: "retries K c w r w' \<Longrightarrow> io_answer o_name r w' = io_result o_name r"
  using retries_last by (fastforce simp: io_answer_def io_result_def would_block_def last_errno_def)

lemma io_result_simps:
  "io_result o_name r = Inr None \<longleftrightarrow> would_block r"
  "io_result o_name r = Inr (Some n) \<longleftrightarrow> r_ret r = int n"
  "io_result o_name r = Inl e \<longleftrightarrow> r_ret r < 0 \<and> \<not> would_block r \<and> e = sys_err (r_errno r) o_name"
  by (auto simp: io_result_def would_block_def)

lemma read_slice_spec:
  assumes "read_slice K f buf w = Some ((res, buf'), w')" and "io_bounded K"
  obtains t where "runs w w' t" and "set (map fst t) = {Read (raw f) (length buf)}"
    and "length buf' = length buf"
    and "case res of
           Inr (Some n) \<Rightarrow> n \<le> length buf \<and> delivered (raw f) t = take n buf'
         | _ \<Rightarrow> delivered (raw f) t = [] \<and> buf' = buf"
    and "t \<noteq> []" and "res = io_result ''read'' (snd (last t))"
proof -
  let ?c = "Read (raw f) (length buf)"
  obtain r where r: "retries K ?c w r w'" and ans: "(res, buf') = read_answer buf r w'"
    using assms(1) read_retry.returns_iff unfolding read_slice_def by blast
  obtain rs where rs: "runs w w' (map (Pair ?c) rs @ [(?c, r)])" "list_all interrupted rs"
    using retries_runs [OF r] by blast
  note io = retries_io(1) [OF assms(2) r]
  show thesis
  proof (rule that [OF rs(1)])
    show "set (map fst (map (Pair ?c) rs @ [(?c, r)])) = {?c}" by auto
    show "length buf' = length buf"
      using ans by (simp add: read_answer_def split: if_splits)
    show "case res of
        Inr (Some n) \<Rightarrow> n \<le> length buf
           \<and> delivered (raw f) (map (Pair ?c) rs @ [(?c, r)]) = take n buf'
      | _ \<Rightarrow> delivered (raw f) (map (Pair ?c) rs @ [(?c, r)]) = [] \<and> buf' = buf"
      using ans io rs(2)
      by (auto simp: read_answer_def io_answer_def delivered_interrupted split: if_splits)
    show "map (Pair ?c) rs @ [(?c, r)] \<noteq> []" by simp
    show "res = io_result ''read'' (snd (last (map (Pair ?c) rs @ [(?c, r)])))"
      using ans io_answer_result [OF r] by (simp add: read_answer_def)
  qed
qed

text \<open>The two ways a reader goes on: data arrived, or there was none.\<close>

lemma read_slice_data:
  assumes "read_slice K f buf w = Some ((Inr (Some n), buf'), w')" and "io_bounded K"
  obtains t where "runs w w' t" and "set (map fst t) = {Read (raw f) (length buf)}"
    and "length buf' = length buf" and "n \<le> length buf" and "delivered (raw f) t = take n buf'"
    and "t \<noteq> []" and "r_ret (snd (last t)) = int n"
proof -
  from assms obtain t where t: "runs w w' t" "set (map fst t) = {Read (raw f) (length buf)}"
    "length buf' = length buf" "t \<noteq> []" "Inr (Some n) = io_result ''read'' (snd (last t))"
    and d: "case (Inr (Some n) :: sys_error + nat option) of
         Inr (Some n) \<Rightarrow> n \<le> length buf \<and> delivered (raw f) t = take n buf'
       | _ \<Rightarrow> delivered (raw f) t = [] \<and> buf' = buf"
    by (elim read_slice_spec)
  from d have "n \<le> length buf" "delivered (raw f) t = take n buf'" by simp_all
  moreover from t(5) have "r_ret (snd (last t)) = int n" by (metis io_result_simps(2))
  ultimately show thesis using t that by blast
qed

lemma read_slice_none:
  assumes "read_slice K f buf w = Some ((res, buf'), w')" and "io_bounded K"
    and "\<And>n. res = Inr (Some n) \<Longrightarrow> n = 0"
  obtains t where "runs w w' t" and "set (map fst t) = {Read (raw f) (length buf)}"
    and "length buf' = length buf" and "delivered (raw f) t = []"
    and "t \<noteq> []" and "res = io_result ''read'' (snd (last t))"
proof -
  from assms(1,2) obtain t where t: "runs w w' t" "set (map fst t) = {Read (raw f) (length buf)}"
    "length buf' = length buf" "t \<noteq> []" "res = io_result ''read'' (snd (last t))"
    and d: "case res of Inr (Some n) \<Rightarrow> n \<le> length buf \<and> delivered (raw f) t = take n buf'
       | _ \<Rightarrow> delivered (raw f) t = [] \<and> buf' = buf"
    by (elim read_slice_spec)
  from d assms(3) have "delivered (raw f) t = []" by (auto split: sum.splits option.splits)
  with t that show thesis by blast
qed

text \<open>
  What a reader that never returns sees: reads of its descriptor that all bring data or are interrupted. A
  writer only fails to return when its write is interrupted for ever.
\<close>

definition flows :: "int \<Rightarrow> call \<times> reply \<Rightarrow> bool" where
  "flows n e \<longleftrightarrow> (\<exists>cnt. fst e = Read n cnt) \<and> (interrupted (snd e) \<or> 0 < r_ret (snd e))"

definition write_interrupted :: "int \<Rightarrow> call \<times> reply \<Rightarrow> bool" where
  "write_interrupted n e \<longleftrightarrow> (\<exists>bs. fst e = Write n bs) \<and> interrupted (snd e)"

lemma read_slice_hangs:
  assumes "read_slice K f buf w = None"
  shows "endless K (flows (raw f)) w"
proof (rule endless_mono)
  show "endless K (interrupts (Read (raw f) (length buf))) w"
    using assms unfolding read_slice_def read_retry.hangs_iff .
qed (auto simp: flows_def)

lemma read_slice_flows:
  assumes "read_slice K f buf w = Some ((Inr (Some n), buf'), w')" and "0 < n"
  shows "\<exists>t. execs K w t w' \<and> t \<noteq> [] \<and> list_all (flows (raw f)) t"
proof -
  let ?c = "Read (raw f) (length buf)"
  obtain r where r: "retries K ?c w r w'" and a: "(Inr (Some n), buf') = read_answer buf r w'"
    using assms(1) read_retry.returns_iff unfolding read_slice_def by blast
  obtain rs where rs: "execs K w (map (Pair ?c) rs @ [(?c, r)]) w'" "list_all interrupted rs"
    using retries_execs [OF r] by blast
  have "0 < r_ret r" using a assms(2) by (auto simp: read_answer_def io_answer_def split: if_splits)
  with rs show ?thesis
    by (intro exI [of _ "map (Pair ?c) rs @ [(?c, r)]"]) (auto simp: list_all_iff flows_def)
qed

text \<open>On a descriptor that always has data, a read brings data.\<close>

lemma read_slice_always:
  assumes "\<And>cnt k. 0 < cnt \<Longrightarrow> 0 < r_ret (fst (trap K (Read (raw f) cnt) k))"
    and "read_slice K f buf w = Some ((res, buf'), w')" and "buf \<noteq> []"
  obtains n where "res = Inr (Some n)" and "0 < n"
proof -
  let ?c = "Read (raw f) (length buf)"
  obtain r where r: "retries K ?c w r w'" and a: "(res, buf') = read_answer buf r w'"
    using assms(2) read_retry.returns_iff unfolding read_slice_def by blast
  obtain k where "trap K ?c k = (r, kst w')" using retries_last [OF r] by blast
  with assms(1) [of "length buf" k] assms(3) have "0 < r_ret r" by simp
  with a that show thesis by (simp add: read_answer_def io_answer_def)
qed

lemma write_slice_hangs:
  assumes "write_slice K f buf w = None"
  shows "endless K (write_interrupted (raw f)) w"
proof (rule endless_mono)
  show "endless K (interrupts (Write (raw f) (take (length buf) buf))) w"
    using assms unfolding write_slice_def write_retry.hangs_iff .
qed (auto simp: write_interrupted_def)

lemma write_slice_execs:
  assumes "write_slice K f buf w = Some (res, w')"
  shows "\<exists>t. execs K w t w'"
  using assms write_retry.returns_iff retries_execs unfolding write_slice_def by blast

lemma reads_only_moves:
  assumes "runs w w' t" and "\<forall>e \<in> set t. \<exists>cnt. fst e = Read n cnt"
  shows "moves w w' A A"
proof -
  have "replay t A = Some A"
    using assms(2) by (induction t) (auto simp: own_step_def)
  with assms(1) show ?thesis unfolding moves_def by blast
qed

lemma read_slice_moves: "read_slice K f buf w = Some (x, w') \<Longrightarrow> moves w w' A A"
  unfolding read_slice_def by (rule read_retry.owns_same) simp_all

lemma write_slice_moves: "write_slice K f buf w = Some (x, w') \<Longrightarrow> moves w w' A A"
  unfolding write_slice_def by (rule write_retry.owns_same) simp_all

lemma read_slice_makes:
  "read_slice K f buf w = Some (x, w') \<Longrightarrow> (\<And>cnt. P (Read (raw f) cnt)) \<Longrightarrow> makes P w w'"
  unfolding read_slice_def by (rule read_retry.makes_call)

lemma write_slice_makes:
  "write_slice K f buf w = Some (x, w') \<Longrightarrow> (\<And>bs. P (Write (raw f) bs)) \<Longrightarrow> makes P w w'"
  unfolding write_slice_def by (rule write_retry.makes_call)

lemma write_slice_spec:
  assumes "write_slice K f buf w = Some (res, w')" and "io_bounded K"
  obtains t where "runs w w' t" and "set (map fst t) = {Write (raw f) buf}"
    and "case res of
           Inr (Some n) \<Rightarrow> n \<le> length buf \<and> accepted (raw f) t = take n buf
         | _ \<Rightarrow> accepted (raw f) t = []"
    and "t \<noteq> []" and "res = io_result ''write'' (snd (last t))"
proof -
  let ?c = "Write (raw f) buf"
  obtain r where r: "retries K ?c w r w'" and ans: "res = io_answer ''write'' r w'"
    using assms(1) by (auto simp: write_slice_def write_retry.returns_iff)
  obtain rs where rs: "runs w w' (map (Pair ?c) rs @ [(?c, r)])" "list_all interrupted rs"
    using retries_runs [OF r] by blast
  note io = retries_io(2) [OF assms(2) r]
  show thesis
  proof (rule that [OF rs(1)])
    show "set (map fst (map (Pair ?c) rs @ [(?c, r)])) = {?c}" by auto
    show "case res of
        Inr (Some n) \<Rightarrow> n \<le> length buf
           \<and> accepted (raw f) (map (Pair ?c) rs @ [(?c, r)]) = take n buf
      | _ \<Rightarrow> accepted (raw f) (map (Pair ?c) rs @ [(?c, r)]) = []"
      using ans io rs(2)
      by (auto simp: io_answer_def accepted_interrupted split: if_splits)
    show "map (Pair ?c) rs @ [(?c, r)] \<noteq> []" by simp
    show "res = io_result ''write'' (snd (last (map (Pair ?c) rs @ [(?c, r)])))"
      using ans io_answer_result [OF r] by simp
  qed
qed

lemma drop_fd_moves: "moves w (drop_fd K f w) (nonneg (raw f)) {#}"
proof (cases "0 \<le> raw f")
  case True
  obtain r w1 where s: "sys K (Close (raw f)) w = (r, w1)" by fastforce
  then have "moves w w1 {#raw f#} {#}"
    by (rule moves_sys) (simp add: own_step_def release_def)
  with True s show ?thesis by (simp add: drop_fd_def)
next
  case False
  then show ?thesis by (simp add: drop_fd_def)
qed

definition fd_owns :: "fd \<Rightarrow> int multiset" where
  "fd_owns f = nonneg (raw f)"

lemma drop_opt_fd_moves: "moves w (drop_opt_fd K x w) (opt_mset fd_owns x) {#}"
  by (cases x) (simp_all add: drop_opt_fd_def drop_fd_moves fd_owns_def)

lemma set_nonblock_moves: "set_nonblock K f w = (res, w') \<Longrightarrow> moves w w' A A"
proof -
  assume a: "set_nonblock K f w = (res, w')"
  obtain r1 w1 where s1: "sys K (FcntlGetfl (raw f)) w = (r1, w1)" by fastforce
  obtain r2 w2 where s2: "sys K (FcntlSetfl (raw f) (r_ret r1 OR O_NONBLOCK)) w1 = (r2, w2)"
    by fastforce
  have m1: "moves w w1 A A" using s1 by (rule moves_sys) simp
  have m2: "moves w1 w2 A A" using s2 by (rule moves_sys) simp
  show ?thesis
    using a s1 s2 m1 moves_trans [OF m1 m2]
    by (auto simp: set_nonblock_def split: sum.splits)
qed

text \<open>Dropping one thing after another gives up both.\<close>

lemma moves_drop_seq: "moves w w1 A {#} \<Longrightarrow> moves w1 w2 B {#} \<Longrightarrow> moves w w2 (A + B) {#}"
  using moves_frame [of w w1 A "{#}" B] moves_trans by fastforce

end
