(* ===== verification/Proc.thy ===== *)
theory Proc
  imports FdIo Demo
begin

text \<open>
  The process handle of \<^verbatim>\<open>src/src/spawn/mod.rs\<close> (lines 247 to 354): exit status, waiting and signals.
  \<open>wait_step\<close> and \<open>wait_blocking\<close> are instances of the retry interface. The macros that take a wait
  status apart belong to the C library and are fields of the \<open>os\<close>.
\<close>

datatype exit_status = Exited int | Signaled int

definition decode_status :: "'k os \<Rightarrow> int \<Rightarrow> exit_status" where
  "decode_status K status =
     (if os_WIFEXITED K status then Exited (os_WEXITSTATUS K status)
      else if os_WIFSIGNALED K status then Signaled (os_WTERMSIG K status)
      else Exited (-1))"

datatype process = Process (pid: int)

partial_function (option) wait_step ::
  "'k os \<Rightarrow> process \<Rightarrow> 'k world \<Rightarrow> ((sys_error + exit_status option) \<times> 'k world) option" where
  "wait_step K p w =
     (let (r, w1) = sys K (Waitpid (pid p) WNOHANG) w
      in if r_ret r = 0 then Some (Inr None, w1)
         else if r_ret r < 0
         then (let e = last_errno w1
               in if e = EINTR then wait_step K p w1
                  else Some (Inl (sys_err e ''waitpid_step''), w1))
         else Some (Inr (Some (decode_status K (out_num (r_out r)))), w1))"

partial_function (option) wait_blocking ::
  "'k os \<Rightarrow> process \<Rightarrow> 'k world \<Rightarrow> ((sys_error + exit_status) \<times> 'k world) option" where
  "wait_blocking K p w =
     (let (r, w1) = sys K (Waitpid (pid p) 0) w
      in if r_ret r < 0
         then (let e = last_errno w1
               in if e = EINTR then wait_blocking K p w1
                  else Some (Inl (sys_err e ''waitpid_blocking''), w1))
         else Some (Inr (decode_status K (out_num (r_out r))), w1))"

definition kill_process :: "'k os \<Rightarrow> process \<Rightarrow> int \<Rightarrow> 'k world \<Rightarrow> (sys_error + unit) \<times> 'k world" where
  "kill_process K p sig w =
     (let (r, w1) = sys K (Kill (pid p) sig) w
      in if r_ret r < 0
         then (if last_errno w1 = ESRCH then (Inr (), w1)
               else (case syscall_ret (-1) ''kill'' w1 of
                       Inl e \<Rightarrow> (Inl e, w1)
                     | Inr _ \<Rightarrow> (Inr (), w1)))
         else (Inr (), w1))"

definition kill_pgroup :: "'k os \<Rightarrow> process \<Rightarrow> int \<Rightarrow> 'k world \<Rightarrow> (sys_error + unit) \<times> 'k world" where
  "kill_pgroup K p sig w =
     (let (r, w1) = sys K (Kill (- pid p) sig) w
      in if r_ret r < 0
         then (if last_errno w1 = ESRCH then (Inr (), w1)
               else (case syscall_ret (-1) ''kill_pgroup'' w1 of
                       Inl e \<Rightarrow> (Inl e, w1)
                     | Inr _ \<Rightarrow> (Inr (), w1)))
         else (Inr (), w1))"

section \<open>Waiting is a retry loop\<close>

definition step_answer :: "'k os \<Rightarrow> reply \<Rightarrow> 'k world \<Rightarrow> sys_error + exit_status option" where
  [retry_defs]: "step_answer K r w =
     (if r_ret r = 0 then Inr None
      else if r_ret r < 0 then Inl (sys_err (last_errno w) ''waitpid_step'')
      else Inr (Some (decode_status K (out_num (r_out r)))))"

definition block_answer :: "'k os \<Rightarrow> reply \<Rightarrow> 'k world \<Rightarrow> sys_error + exit_status" where
  [retry_defs]: "block_answer K r w =
     (if r_ret r < 0 then Inl (sys_err (last_errno w) ''waitpid_blocking'')
      else Inr (decode_status K (out_num (r_out r))))"

lemma wait_step_sound:
  "wait_step K p w = Some y \<Longrightarrow> retried K (Waitpid (pid p) WNOHANG) (step_answer K) w y"
  by (rule wait_step.raw_induct
        [where P = "\<lambda>K p. retried K (Waitpid (pid p) WNOHANG) (step_answer K)"])
    (rule retried_step,
      auto simp: interrupted_errno step_answer_def Let_def split: prod.splits if_splits)

lemma wait_blocking_sound:
  "wait_blocking K p w = Some y \<Longrightarrow> retried K (Waitpid (pid p) 0) (block_answer K) w y"
  by (rule wait_blocking.raw_induct
        [where P = "\<lambda>K p. retried K (Waitpid (pid p) 0) (block_answer K)"])
    (rule retried_step,
      auto simp: interrupted_errno block_answer_def Let_def split: prod.splits if_splits)

interpretation step_retry: retry_loop K "Waitpid (pid p) WNOHANG" "wait_step K p" "step_answer K"
  for K :: "'k os" and p
proof unfold_locales
  fix w :: "'k world"
  show "wait_step K p w = (let (r, w1) = sys K (Waitpid (pid p) WNOHANG) w
      in if interrupted r then wait_step K p w1 else Some (step_answer K r w1, w1))"
    by (subst wait_step.simps)
      (auto simp: interrupted_errno step_answer_def Let_def split: prod.splits)
qed (rule wait_step_sound)

interpretation block_retry: retry_loop K "Waitpid (pid p) 0" "wait_blocking K p" "block_answer K"
  for K :: "'k os" and p
proof unfold_locales
  fix w :: "'k world"
  show "wait_blocking K p w = (let (r, w1) = sys K (Waitpid (pid p) 0) w
      in if interrupted r then wait_blocking K p w1 else Some (block_answer K r w1, w1))"
    by (subst wait_blocking.simps)
      (auto simp: interrupted_errno block_answer_def Let_def split: prod.splits)
qed (rule wait_blocking_sound)

lemma wait_step_moves: "wait_step K p w = Some (x, w') \<Longrightarrow> moves w w' A A"
  by (rule step_retry.owns_same) simp_all

lemma wait_blocking_moves: "wait_blocking K p w = Some (x, w') \<Longrightarrow> moves w w' A A"
  by (rule block_retry.owns_same) simp_all

lemma kill_process_runs:
  assumes "kill_process K p sig w = (res, w')"
  obtains r where "runs w w' [(Kill (pid p) sig, r)]"
    and "is_ok res \<longleftrightarrow> 0 \<le> r_ret r \<or> r_errno r = ESRCH"
    and "res = Inr () \<or> res = Inl (sys_err (r_errno r) ''kill'')"
proof -
  obtain r w1 where s: "sys K (Kill (pid p) sig) w = (r, w1)" by fastforce
  with assms have w1: "w1 = w'" by (simp add: kill_process_def split: if_splits)
  have e: "r_ret r < 0 \<Longrightarrow> errno w' = r_errno r" using sysD(3) [OF s] w1 by simp
  show thesis
    by (rule that [of r])
      (use assms s e w1 runs_sys [OF s] in \<open>auto simp: kill_process_def last_errno_def split: if_splits\<close>)
qed

lemma kill_pgroup_runs:
  assumes "kill_pgroup K p sig w = (res, w')"
  obtains r where "runs w w' [(Kill (- pid p) sig, r)]"
    and "is_ok res \<longleftrightarrow> 0 \<le> r_ret r \<or> r_errno r = ESRCH"
    and "res = Inr () \<or> res = Inl (sys_err (r_errno r) ''kill_pgroup'')"
proof -
  obtain r w1 where s: "sys K (Kill (- pid p) sig) w = (r, w1)" by fastforce
  with assms have w1: "w1 = w'" by (simp add: kill_pgroup_def split: if_splits)
  have e: "r_ret r < 0 \<Longrightarrow> errno w' = r_errno r" using sysD(3) [OF s] w1 by simp
  show thesis
    by (rule that [of r])
      (use assms s e w1 runs_sys [OF s] in \<open>auto simp: kill_pgroup_def last_errno_def split: if_splits\<close>)
qed

section \<open>Wait statuses\<close>

text \<open>The documented encoding of a wait status on Linux.\<close>

definition linux_status :: "'k os \<Rightarrow> bool" where
  "linux_status K \<longleftrightarrow>
     (\<forall>s. os_WIFEXITED K s \<longleftrightarrow> s AND 127 = 0) \<and>
     (\<forall>s. os_WEXITSTATUS K s = drop_bit 8 s AND 255) \<and>
     (\<forall>s. os_WIFSIGNALED K s \<longleftrightarrow> s AND 127 \<noteq> 0 \<and> s AND 127 \<noteq> 127) \<and>
     (\<forall>s. os_WTERMSIG K s = s AND 127)"

definition status_of_exit :: "int \<Rightarrow> int" where
  "status_of_exit n = n * 256"

definition status_of_signal :: "int \<Rightarrow> bool \<Rightarrow> int" where
  "status_of_signal n core = n + (if core then 128 else 0)"

lemma and_127: "(x :: int) AND 127 = x mod 128"
  using take_bit_eq_mask [of 7 x] unfolding take_bit_eq_mod mask_eq_exp_minus_1 by simp

lemma and_255: "(x :: int) AND 255 = x mod 256"
  using take_bit_eq_mask [of 8 x] unfolding take_bit_eq_mod mask_eq_exp_minus_1 by simp

section \<open>Properties\<close>

text \<open>C32. Exit statuses. Every exit code from 0 to 255 and every terminating signal from 1 to 126,
  with or without a core dump, is decoded as what it was encoded from, and a status that says the
  process was stopped is reported as exit code -1.\<close>

theorem decode_status_roundtrip:
  assumes "linux_status K" and "0 \<le> n" and "n \<le> 255" and "1 \<le> sig" and "sig \<le> 126"
  shows "decode_status K (status_of_exit n) = Exited n \<and>
     decode_status K (status_of_signal sig core) = Signaled sig \<and>
     decode_status K (status_of_exit n + 127) = Exited (-1)"
proof -
  note l = assms(1) [unfolded linux_status_def]
  note l = l [THEN conjunct1] l [THEN conjunct2, THEN conjunct1]
    l [THEN conjunct2, THEN conjunct2, THEN conjunct1] l [THEN conjunct2, THEN conjunct2, THEN conjunct2]
  note K = l [rule_format, unfolded and_127 and_255 drop_bit_eq_div]
  have "(n * 256) mod 128 = ((2 * n) * 128) mod 128" by (simp add: algebra_simps)
  also have "\<dots> = 0" by (rule mod_mult_self2_is_0)
  finally have e: "n * 256 mod 128 = 0" .
  have "(n * 256 + 127) mod 128 = (127 + (2 * n) * 128) mod 128" by (simp add: algebra_simps)
  also have "\<dots> = 127 mod 128" by (rule mod_mult_self1)
  finally have "(n * 256 + 127) mod 128 = 127" by simp
  moreover have "(sig + 128) mod 128 = sig" "sig mod 128 = sig" using assms(4,5) by simp_all
  ultimately show ?thesis
    using assms(2-5) e by (simp add: decode_status_def K status_of_exit_def status_of_signal_def)
qed

theorem decode_status_roundtrip_witness:
  "decode_status demo_os (status_of_exit 3) = Exited 3 \<and>
   decode_status demo_os (status_of_signal 9 False) = Signaled 9"
proof -
  have "linux_status demo_os" by (simp add: linux_status_def demo_os_def)
  from decode_status_roundtrip [OF this, of 3 9 False] show ?thesis by simp
qed

text \<open>C31. Polling for the end of a child. \<open>wait_step\<close> makes only non-blocking \<open>waitpid\<close> calls for its
  own child, repeats them only while interrupted, and answers "still running" exactly when the
  last one returned 0, the decoded status when it returned a pid, and otherwise its errno, which
  is never EINTR; the blocking variant differs only in the flag.\<close>

theorem wait_step_answers:
  assumes "wait_step K p w = Some (res, w')"
  shows "\<exists>rs r. runs w w' (map (Pair (Waitpid (pid p) WNOHANG)) (rs @ [r])) \<and> list_all interrupted rs \<and>
     (case res of
        Inr None \<Rightarrow> r_ret r = 0
      | Inr (Some st) \<Rightarrow> 0 < r_ret r \<and> st = decode_status K (out_num (r_out r))
      | Inl e \<Rightarrow> r_ret r < 0 \<and> code e = r_errno r \<and> code e \<noteq> EINTR)"
proof -
  obtain r where r: "retries K (Waitpid (pid p) WNOHANG) w r w'" and a: "res = step_answer K r w'"
    using assms step_retry.returns_iff by blast
  obtain rs where rs: "runs w w' (map (Pair (Waitpid (pid p) WNOHANG)) rs @ [(Waitpid (pid p) WNOHANG, r)])"
    "list_all interrupted rs" "\<not> interrupted r"
    using retries_runs [OF r] by blast
  have "r_ret r < 0 \<longrightarrow> errno w' = r_errno r" using retries_last [OF r] by blast
  with a rs(3) have "case res of
        Inr None \<Rightarrow> r_ret r = 0
      | Inr (Some st) \<Rightarrow> 0 < r_ret r \<and> st = decode_status K (out_num (r_out r))
      | Inl e \<Rightarrow> r_ret r < 0 \<and> code e = r_errno r \<and> code e \<noteq> EINTR"
    by (auto simp: step_answer_def last_errno_def interrupted_def)
  with rs show ?thesis by (intro exI [of _ rs] exI [of _ r]) simp
qed

theorem wait_step_answers_witness:
  "\<exists>w'. wait_step demo_os (Process 7) (demo_world [] [] [err_reply 4, ok_reply 7 (OutNum 768)]) = Some (Inr (Some (Exited 3)), w') \<and>
     (\<exists>rs r. runs (demo_world [] [] [err_reply 4, ok_reply 7 (OutNum 768)]) w' (map (Pair (Waitpid 7 1)) (rs @ [r])) \<and> 0 < r_ret r)"
proof -
  have d: "decode_status demo_os 768 = Exited 3"
    by (simp add: decode_status_def demo_os_def)
  have "\<exists>w'. wait_step demo_os (Process 7) (demo_world [] [] [err_reply 4, ok_reply 7 (OutNum 768)]) = Some (Inr (Some (decode_status demo_os 768)), w')"
    by (simp add: wait_step.simps last_errno_def demo_run)
  then obtain w' where r: "wait_step demo_os (Process 7) (demo_world [] [] [err_reply 4, ok_reply 7 (OutNum 768)]) = Some (Inr (Some (Exited 3)), w')"
    unfolding d by blast
  from wait_step_answers [OF r] r show ?thesis by auto
qed

text \<open>Signals. Each of the two calls sends one signal, to the process or to the group of the same
  number, and a target that is already gone is no error; any other failure carries the errno.\<close>

theorem kill_spec:
  "(case kill_process K p sig w of (res, w') \<Rightarrow>
      \<exists>r. runs w w' [(Kill (pid p) sig, r)] \<and> (is_ok res \<longleftrightarrow> 0 \<le> r_ret r \<or> r_errno r = ESRCH) \<and>
        (res = Inr () \<or> res = Inl (sys_err (r_errno r) ''kill''))) \<and>
   (case kill_pgroup K p sig w of (res, w') \<Rightarrow>
      \<exists>r. runs w w' [(Kill (- pid p) sig, r)] \<and> (is_ok res \<longleftrightarrow> 0 \<le> r_ret r \<or> r_errno r = ESRCH) \<and>
        (res = Inr () \<or> res = Inl (sys_err (r_errno r) ''kill_pgroup'')))"
proof -
  obtain r1 w1 where k1: "kill_process K p sig w = (r1, w1)" by fastforce
  obtain r2 w2 where k2: "kill_pgroup K p sig w = (r2, w2)" by fastforce
  show ?thesis
    unfolding k1 k2 prod.case
    by (rule kill_process_runs [OF k1]; rule kill_pgroup_runs [OF k2]; blast)
qed

end
