(* ===== verification/Buffer.thy ===== *)
theory Buffer
  imports FdIo Demo
begin

text \<open>
  The output accumulator \<open>BufferState\<close> of \<^verbatim>\<open>src/src/io/buffer.rs\<close>. The loop of \<open>read_from_fd\<close> is a
  partial function over the vector it fills, the early-exit callback and the world; the callback
  (\<open>FnMut(&[u8]) -> bool\<close>, a value supplied by the caller) is a state with a step function, so
  that a callback with captured state is modelled as well as a plain \<open>fn\<close> pointer.
\<close>

type_synonym 's closure = "'s \<times> ('s \<Rightarrow> byte list \<Rightarrow> bool \<times> 's)"

definition call_mut :: "'s closure \<Rightarrow> byte list \<Rightarrow> bool \<times> 's closure" where
  "call_mut c bs = (let (b, s) = snd c (fst c) bs in (b, (s, snd c)))"

definition READ_CHUNK :: nat where
  "READ_CHUNK = 65536"

record buffer_state =
  buf_stdout :: "byte list"
  buf_stderr :: "byte list"
  buf_limit :: nat

definition buffer_new :: "nat \<Rightarrow> buffer_state" where
  "buffer_new limit = \<lparr>buf_stdout = [], buf_stderr = [], buf_limit = limit\<rparr>"

text \<open>
  One round of the loop: past the limit the data is read into a scratch array and dropped;
  otherwise the vector is grown by zeroes, the kernel writes into the new part, and the vector is
  cut back to what arrived.
\<close>

partial_function (option) read_from_fd_loop ::
  "'k os \<Rightarrow> fd \<Rightarrow> bool \<Rightarrow> nat \<Rightarrow> byte list \<Rightarrow> 's closure option \<Rightarrow> 'k world
     \<Rightarrow> (((sys_error + bool) \<times> byte list \<times> 's closure option) \<times> 'k world) option" where
  "read_from_fd_loop K f is_stdout limit dest early_exit w =
     (let len = length dest;
          remaining_limit = limit - len
      in if remaining_limit = 0
         then do {
           ((res, drop_buf), w1) \<leftarrow> read_slice K f (replicate 8192 0) w;
           (case res of
              Inr (Some n) \<Rightarrow>
                if 0 < n then read_from_fd_loop K f is_stdout limit dest early_exit w1
                else Some ((Inr True, dest, early_exit), w1)
            | Inr None \<Rightarrow> Some ((Inr False, dest, early_exit), w1)
            | Inl e \<Rightarrow> Some ((Inl e, dest, early_exit), w1))
         }
         else do {
           let to_read = min remaining_limit READ_CHUNK;
           let grown = dest @ replicate to_read 0;
           ((res, slice), w1) \<leftarrow> read_slice K f (drop len grown) w;
           let filled = take len grown @ slice;
           (case res of
              Inr (Some n) \<Rightarrow>
                if 0 < n
                then (let dest1 = take (len + n) filled
                      in case (if is_stdout then early_exit else None) of
                           Some g \<Rightarrow>
                             (let (stop, g1) = call_mut g (drop len dest1)
                              in if stop then Some ((Inr True, dest1, Some g1), w1)
                                 else read_from_fd_loop K f is_stdout limit dest1 (Some g1) w1)
                         | None \<Rightarrow> read_from_fd_loop K f is_stdout limit dest1 early_exit w1)
                else Some ((Inr True, take len filled, early_exit), w1)
            | Inr None \<Rightarrow> Some ((Inr False, take len filled, early_exit), w1)
            | Inl e \<Rightarrow> Some ((Inl e, take len filled, early_exit), w1))
         })"

definition read_from_fd ::
  "'k os \<Rightarrow> buffer_state \<Rightarrow> fd \<Rightarrow> bool \<Rightarrow> 's closure option \<Rightarrow> 'k world
     \<Rightarrow> (((sys_error + bool) \<times> buffer_state \<times> 's closure option) \<times> 'k world) option" where
  "read_from_fd K b f is_stdout early_exit w =
     do {
       ((res, dest, ee), w1) \<leftarrow>
          read_from_fd_loop K f is_stdout (buf_limit b)
            (if is_stdout then buf_stdout b else buf_stderr b) early_exit w;
       Some ((res, if is_stdout then b\<lparr>buf_stdout := dest\<rparr> else b\<lparr>buf_stderr := dest\<rparr>, ee), w1)
     }"

definition buffer_into_parts :: "buffer_state \<Rightarrow> byte list \<times> byte list" where
  "buffer_into_parts b = (buf_stdout b, buf_stderr b)"

section \<open>What the loop captures\<close>

definition reads_only :: "int \<Rightarrow> event_log \<Rightarrow> bool" where
  "reads_only n t \<longleftrightarrow> (\<forall>e \<in> set t. \<exists>cnt. fst e = Read n cnt)"

lemma reads_only_simps [simp]:
  "reads_only n []" "reads_only n (s @ t) \<longleftrightarrow> reads_only n s \<and> reads_only n t"
  by (auto simp: reads_only_def)

text \<open>
  One round without the loop: the vector and the trace after a single \<open>read_slice\<close>, stated on the
  stream the kernel delivers. Both branches cut the same stream at the same place.
\<close>

definition captured :: "nat \<Rightarrow> byte list \<Rightarrow> byte list \<Rightarrow> byte list" where
  "captured limit dest stream = take (max limit (length dest)) (dest @ stream)"

lemma captured_Nil [simp]: "captured limit dest [] = dest"
  by (simp add: captured_def)

lemma captured_full: "limit \<le> length dest \<Longrightarrow> captured limit dest s = dest"
  by (simp add: captured_def max_def)

lemma captured_append:
  assumes "length s \<le> limit - length dest"
  shows "captured limit (dest @ s) s' = captured limit dest (s @ s')"
  using assms by (cases "limit \<le> length dest") (auto simp: captured_def max_def)

lemma captured_prefix: "prefix dest (captured limit dest s)"
  by (simp add: captured_def)

lemma captured_length: "length (captured limit dest s) \<le> max limit (length dest)"
  by (simp add: captured_def)

text \<open>How the loop may end, read off the last reply of its trace.\<close>

definition drained :: "sys_error + bool \<Rightarrow> reply \<Rightarrow> bool" where
  "drained res r = (case res of
     Inr True \<Rightarrow> r_ret r = 0
   | Inr False \<Rightarrow> would_block r
   | Inl e \<Rightarrow> r_ret r < 0 \<and> \<not> would_block r \<and> e = sys_err (r_errno r) ''read'')"

text \<open>
  Which chunks the early-exit callback sees: only those of stdout, in order, and a chunk it
  accepts is the last one. \<open>stop\<close> says whether the callback ended the run.
\<close>

inductive consulted ::
  "bool \<Rightarrow> 's closure option \<Rightarrow> byte list list \<Rightarrow> bool \<Rightarrow> 's closure option \<Rightarrow> bool"
  for is_stdout where
  quiet: "consulted is_stdout ee [] False ee"
| unasked: "\<not> is_stdout \<or> ee = None \<Longrightarrow> consulted is_stdout ee cs stop ee'
     \<Longrightarrow> consulted is_stdout ee (c # cs) stop ee'"
| "continue": "is_stdout \<Longrightarrow> call_mut g c = (False, g1) \<Longrightarrow> consulted is_stdout (Some g1) cs stop ee'
     \<Longrightarrow> consulted is_stdout (Some g) (c # cs) stop ee'"
| stop: "is_stdout \<Longrightarrow> call_mut g c = (True, g1) \<Longrightarrow> consulted is_stdout (Some g) [c] True (Some g1)"

text \<open>The callback ends a run by accepting the last chunk, having refused those before it.\<close>

lemma consulted_stop:
  assumes "consulted is_stdout ee cs True ee'"
  shows "is_stdout \<and> (\<exists>shown c g g1. cs = shown @ [c] \<and> consulted is_stdout ee shown False (Some g) \<and>
     call_mut g c = (True, g1) \<and> ee' = Some g1)"
  using assms
proof (induction ee cs "True" ee' rule: consulted.induct)
  case (unasked ee cs ee' c)
  then obtain shown d g g1 where d: "is_stdout" "cs = shown @ [d]" "consulted is_stdout ee shown False (Some g)"
    "call_mut g d = (True, g1)" "ee' = Some g1" by blast
  from consulted.unasked [OF unasked(1) d(3), of c] d show ?case
    by (intro conjI exI [of _ "c # shown"] exI [of _ d] exI [of _ g] exI [of _ g1]) simp_all
next
  case (continue g c g1 cs ee')
  then obtain shown d h h1 where d: "is_stdout" "cs = shown @ [d]" "consulted is_stdout (Some g1) shown False (Some h)"
    "call_mut h d = (True, h1)" "ee' = Some h1" by blast
  from consulted.continue [OF continue(1,2) d(3)] d show ?case
    by (intro conjI exI [of _ "c # shown"] exI [of _ d] exI [of _ h] exI [of _ h1]) simp_all
next
  case (stop g c g1)
  then show ?case by (intro conjI exI [of _ "[]"] exI [of _ c] exI [of _ g] exI [of _ g1]) (simp_all add: consulted.quiet)
qed simp

definition capture_run ::
  "'k os \<Rightarrow> fd \<Rightarrow> bool \<Rightarrow> nat \<Rightarrow> byte list \<Rightarrow> 's closure option \<Rightarrow> 'k world
     \<Rightarrow> ((sys_error + bool) \<times> byte list \<times> 's closure option) \<times> 'k world \<Rightarrow> bool" where
  "capture_run K f is_stdout limit dest ee w y \<longleftrightarrow>
     (io_bounded K \<longrightarrow>
       (\<exists>t cs stop. runs w (snd y) t \<and> t \<noteq> [] \<and> reads_only (raw f) t \<and>
          fst (snd (fst y)) = captured limit dest (delivered (raw f) t) \<and>
          fst (snd (fst y)) = dest @ concat cs \<and>
          consulted is_stdout ee cs stop (snd (snd (fst y))) \<and>
          (if stop then fst (fst y) = Inr True \<and> 0 < r_ret (snd (last t))
           else drained (fst (fst y)) (snd (last t)))))"

lemma capture_run_step:
  assumes s: "read_slice K f buf w = Some ((Inr (Some n), buf'), w1)"
    and io: "io_bounded K" and n: "0 < n"
    and dest: "dest1 = dest @ take n buf' \<and> length buf \<le> limit - length dest \<and>
          (\<forall>cs stop ee'. consulted is_stdout ee1 cs stop ee'
             \<longrightarrow> consulted is_stdout ee (take n buf' # cs) stop ee')
        \<or> dest1 = dest \<and> ee1 = ee \<and> limit \<le> length dest"
    and rest: "capture_run K f is_stdout limit dest1 ee1 w1 y"
  shows "capture_run K f is_stdout limit dest ee w y"
proof -
  obtain t where t: "runs w w1 t" "set (map fst t) = {Read (raw f) (length buf)}"
    "length buf' = length buf" "n \<le> length buf" "delivered (raw f) t = take n buf'"
    using read_slice_data [OF s io] by blast
  obtain t' cs stop where t': "runs w1 (snd y) t'" "t' \<noteq> []" "reads_only (raw f) t'"
    "fst (snd (fst y)) = captured limit dest1 (delivered (raw f) t')"
    and cs: "fst (snd (fst y)) = dest1 @ concat cs"
    "consulted is_stdout ee1 cs stop (snd (snd (fst y)))"
    and l: "if stop then fst (fst y) = Inr True \<and> 0 < r_ret (snd (last t'))
           else drained (fst (fst y)) (snd (last t'))"
    using rest io unfolding capture_run_def by blast
  have "captured limit dest1 (delivered (raw f) t') = captured limit dest (delivered (raw f) (t @ t'))"
    using dest t(3-5) by (auto simp: captured_append captured_full)
  with t'(4) have c: "fst (snd (fst y)) = captured limit dest (delivered (raw f) (t @ t'))" by simp
  have "reads_only (raw f) t" using t(2) by (auto simp: reads_only_def)
  with t'(3) have o1: "reads_only (raw f) (t @ t')" by simp
  have ne: "t @ t' \<noteq> []" "last (t @ t') = last t'" using t'(2) by simp_all
  obtain cs' where cs': "fst (snd (fst y)) = dest @ concat cs'"
    "consulted is_stdout ee cs' stop (snd (snd (fst y)))"
    using dest
  proof (elim disjE conjE)
    assume "dest1 = dest" "ee1 = ee"
    then show thesis using that [of cs] cs by simp
  next
    assume "dest1 = dest @ take n buf'" "\<forall>cs stop ee'. consulted is_stdout ee1 cs stop ee'
             \<longrightarrow> consulted is_stdout ee (take n buf' # cs) stop ee'"
    then show thesis using that [of "take n buf' # cs"] cs by simp
  qed
  show ?thesis
    unfolding capture_run_def using runs_trans [OF t(1) t'(1)] ne o1 c cs' l
    by (intro impI exI [of _ "t @ t'"] exI [of _ cs'] exI [of _ stop] conjI) simp_all
qed

lemma capture_run_stop:
  assumes s: "read_slice K f buf w = Some ((res, buf'), w1)"
    and y: "snd y = w1" "snd (fst y) = (dest, ee)"
    and res: "fst (fst y) = (case res of Inr (Some _) \<Rightarrow> Inr True | Inr None \<Rightarrow> Inr False | Inl e \<Rightarrow> Inl e)"
    and n: "\<And>n. res = Inr (Some n) \<Longrightarrow> n = 0"
  shows "capture_run K f is_stdout limit dest ee w y"
proof -
  have "\<exists>t. runs w w1 t \<and> t \<noteq> [] \<and> reads_only (raw f) t \<and> delivered (raw f) t = []
      \<and> drained (fst (fst y)) (snd (last t))" if io: "io_bounded K"
  proof -
    from read_slice_none [OF s io n] obtain t where t: "runs w w1 t"
      "set (map fst t) = {Read (raw f) (length buf)}" "delivered (raw f) t = []"
      "t \<noteq> []" "res = io_result ''read'' (snd (last t))"
      by blast
    have "drained (fst (fst y)) (snd (last t))"
      using res n io_result_simps [of "''read''" "snd (last t)"] t(5)
      by (auto simp: drained_def split: sum.splits option.splits)
    moreover have "reads_only (raw f) t" using t(2) by (auto simp: reads_only_def)
    ultimately show ?thesis using t by blast
  qed
  then show ?thesis
    unfolding capture_run_def y(1) y(2) fst_conv snd_conv
    by (metis captured_Nil concat.simps(1) append_Nil2 consulted.quiet)
qed

lemma capture_run_exit:
  assumes s: "read_slice K f buf w = Some ((Inr (Some n), buf'), w1)"
    and n: "0 < n" and len: "length buf \<le> limit - length dest"
    and y: "y = ((Inr True, dest @ take n buf', Some g1), w1)"
    and ee: "is_stdout" "ee = Some g" "call_mut g (take n buf') = (True, g1)"
  shows "capture_run K f is_stdout limit dest ee w y"
proof -
  have "\<exists>t. runs w w1 t \<and> t \<noteq> [] \<and> reads_only (raw f) t
      \<and> dest @ take n buf' = captured limit dest (delivered (raw f) t) \<and> 0 < r_ret (snd (last t))"
    if io: "io_bounded K"
  proof -
    obtain t where t: "runs w w1 t" "set (map fst t) = {Read (raw f) (length buf)}"
      "length buf' = length buf" "n \<le> length buf" "delivered (raw f) t = take n buf'"
      "t \<noteq> []" "r_ret (snd (last t)) = int n"
      using read_slice_data [OF s io] by blast
    have "captured limit dest (take n buf') = dest @ take n buf'"
      using captured_append [of "take n buf'" limit dest "[]"] t(3,4) len by simp
    moreover have "reads_only (raw f) t" using t(2) by (auto simp: reads_only_def)
    ultimately show ?thesis using t n by (intro exI [of _ t]) simp
  qed
  moreover have "consulted is_stdout ee [take n buf'] True (Some g1)"
    using ee by (auto intro: consulted.stop)
  moreover have "dest @ take n buf' = dest @ concat [take n buf']" by simp
  ultimately show ?thesis unfolding capture_run_def y fst_conv snd_conv by metis
qed

text \<open>
  The rounds of the loop as a relation: a read that ends it, one past the limit whose data is dropped, and
  one whose data is kept, with or without the callback having a say. The loop is related to it once, by
  induction over its unfoldings; everything else about the loop is rule induction.
\<close>

abbreviation read_result :: "sys_error + nat option \<Rightarrow> sys_error + bool" where
  "read_result res \<equiv> (case res of Inr (Some _) \<Rightarrow> Inr True | Inr None \<Rightarrow> Inr False | Inl e \<Rightarrow> Inl e)"

inductive read_rounds ::
  "'k os \<Rightarrow> fd \<Rightarrow> bool \<Rightarrow> nat \<Rightarrow> byte list \<Rightarrow> 's closure option \<Rightarrow> 'k world
     \<Rightarrow> ((sys_error + bool) \<times> byte list \<times> 's closure option) \<times> 'k world \<Rightarrow> bool"
  for K f is_stdout limit where
  ends: "read_slice K f buf w = Some ((res, buf'), w1) \<Longrightarrow> \<forall>n. res = Inr (Some n) \<longrightarrow> n = 0
     \<Longrightarrow> buf \<noteq> [] \<Longrightarrow> read_rounds K f is_stdout limit dest ee w ((read_result res, dest, ee), w1)"
| drops: "read_slice K f buf w = Some ((Inr (Some n), buf'), w1) \<Longrightarrow> 0 < n \<Longrightarrow> limit \<le> length dest
     \<Longrightarrow> read_rounds K f is_stdout limit dest ee w1 y \<Longrightarrow> read_rounds K f is_stdout limit dest ee w y"
| keeps: "read_slice K f buf w = Some ((Inr (Some n), buf'), w1) \<Longrightarrow> 0 < n \<Longrightarrow> length buf \<le> limit - length dest
     \<Longrightarrow> \<not> is_stdout \<or> ee = None \<Longrightarrow> read_rounds K f is_stdout limit (dest @ take n buf') ee w1 y
     \<Longrightarrow> read_rounds K f is_stdout limit dest ee w y"
| asks: "read_slice K f buf w = Some ((Inr (Some n), buf'), w1) \<Longrightarrow> 0 < n \<Longrightarrow> length buf \<le> limit - length dest
     \<Longrightarrow> is_stdout \<Longrightarrow> call_mut g (take n buf') = (False, g1)
     \<Longrightarrow> read_rounds K f is_stdout limit (dest @ take n buf') (Some g1) w1 y
     \<Longrightarrow> read_rounds K f is_stdout limit dest (Some g) w y"
| exits: "read_slice K f buf w = Some ((Inr (Some n), buf'), w1) \<Longrightarrow> 0 < n \<Longrightarrow> length buf \<le> limit - length dest
     \<Longrightarrow> is_stdout \<Longrightarrow> call_mut g (take n buf') = (True, g1)
     \<Longrightarrow> read_rounds K f is_stdout limit dest (Some g) w ((Inr True, dest @ take n buf', Some g1), w1)"

lemma read_from_fd_loop_rounds:
  "read_from_fd_loop K f is_stdout limit dest ee w = Some y \<Longrightarrow> read_rounds K f is_stdout limit dest ee w y"
proof (rule read_from_fd_loop.raw_induct [where P = read_rounds], goal_cases)
  case (1 loop K f is_stdout limit dest ee w y)
  note IH = 1(2) and eq = 1(3)
  define buf where "buf = replicate (if limit \<le> length dest then 8192
      else min (limit - length dest) READ_CHUNK) (0::byte)"
  have "read_slice K f buf w \<noteq> None"
    using eq by (cases "limit \<le> length dest"; cases "read_slice K f buf w") (simp_all add: buf_def Let_def)
  then obtain res buf' w1 where s: "read_slice K f buf w = Some ((res, buf'), w1)"
    by (metis option.exhaust prod.exhaust)
  show "read_rounds K f is_stdout limit dest ee w y"
  proof (cases "\<exists>n. res = Inr (Some n) \<and> 0 < n")
    case False
    have "y = ((read_result res, dest, ee), w1)"
      using eq s False
      by (cases "limit \<le> length dest"; cases res rule: io_exhaust) (auto simp: buf_def Let_def)
    moreover have "buf \<noteq> []" by (simp add: buf_def READ_CHUNK_def)
    ultimately show ?thesis using read_rounds.ends [OF s] False by simp
  next
    case True
    then obtain n where n: "res = Inr (Some n)" "0 < n" by blast
    note s = s [unfolded n(1)]
    show ?thesis
    proof (cases "limit \<le> length dest")
      case True
      with eq s n have "loop K f is_stdout limit dest ee w1 = Some y" by (simp add: buf_def)
      from read_rounds.drops [OF s n(2) True IH [OF this]] show ?thesis .
    next
      case lim: False
      then have len: "length buf \<le> limit - length dest" by (simp add: buf_def)
      let ?d = "dest @ take n buf'"
      show ?thesis
      proof (cases "if is_stdout then ee else None")
        case None
        with eq s n lim have "loop K f is_stdout limit ?d ee w1 = Some y"
          by (simp add: buf_def Let_def split: if_splits)
        from read_rounds.keeps [OF s n(2) len _ IH [OF this]] None show ?thesis by (auto split: if_splits)
      next
        case (Some g)
        then have ee: "is_stdout" "ee = Some g" by (auto split: if_splits)
        obtain stop g1 where g1: "call_mut g (take n buf') = (stop, g1)"
          by (cases "call_mut g (take n buf')")
        show ?thesis
          using eq s n lim ee g1 read_rounds.exits [OF s n(2) len ee(1), of g g1]
            read_rounds.asks [OF s n(2) len ee(1), of g g1 y] IH [of K f is_stdout limit ?d "Some g1" w1 y]
          by (cases stop) (simp_all add: buf_def Let_def)
      qed
    qed
  qed
qed

lemma read_from_fd_loop_runs:
  assumes "read_from_fd_loop K f is_stdout limit dest ee w = Some y"
  shows "capture_run K f is_stdout limit dest ee w y"
proof (cases "io_bounded K")
  case io: True
  from read_from_fd_loop_rounds [OF assms] show ?thesis
  proof (induction rule: read_rounds.induct)
    case (ends buf w res buf' w1 dest ee)
    then show ?case by (intro capture_run_stop [OF ends(1)]) simp_all
  next
    case (drops buf w n buf' w1 dest ee y)
    then show ?case by (intro capture_run_step [OF drops(1) io drops(2) _ drops.IH]) simp
  next
    case (keeps buf w n buf' w1 dest ee y)
    from capture_run_step [OF keeps(1) io keeps(2) _ keeps.IH, of dest ee] keeps(3) consulted.unasked [OF keeps(4)]
    show ?case by blast
  next
    case (asks buf w n buf' w1 dest g g1 y)
    from capture_run_step [OF asks(1) io asks(2) _ asks.IH, of dest "Some g"] asks(3)
      consulted.continue [OF asks(4,5)] show ?case by blast
  next
    case (exits buf w n buf' w1 dest g g1)
    show ?case by (rule capture_run_exit [OF exits(1-3) refl exits(4) refl exits(5)])
  qed
qed (simp add: capture_run_def)

text \<open>The loop only reads, from its own descriptor; so no descriptor is opened or closed.\<close>

lemma read_from_fd_loop_makes:
  assumes "read_from_fd_loop K f is_stdout limit dest ee w = Some y"
  shows "makes (\<lambda>c. \<exists>cnt. c = Read (raw f) cnt) w (snd y)"
proof -
  let ?P = "\<lambda>c. \<exists>cnt. c = Read (raw f) cnt"
  have m: "makes ?P w w1" if "read_slice K f buf w = Some ((res, buf'), w1)" for buf w res buf' w1
    by (rule read_slice_makes [OF that]) blast
  from read_from_fd_loop_rounds [OF assms] show ?thesis
    by (induction rule: read_rounds.induct) (simp_all, (blast intro: makes_trans m)+)
qed

lemma read_from_fd_loop_moves:
  "read_from_fd_loop K f is_stdout limit dest ee w = Some y \<Longrightarrow> moves w (snd y) A A"
  by (rule makes_moves [OF read_from_fd_loop_makes]) auto

section \<open>When the loop does not end\<close>

text \<open>The loop stays in \<open>read_from_fd\<close> only while its descriptor goes on delivering data.\<close>

lemma read_from_fd_loop_hangs:
  fixes ee :: "'s closure option"
  assumes "read_from_fd_loop K f is_stdout limit dest ee w = None"
  shows "endless K (flows (raw f)) w"
proof (rule endless_progress
    [where X = "\<lambda>w. \<exists>dest (ee :: 's closure option). read_from_fd_loop K f is_stdout limit dest ee w = None"])
  show "\<exists>dest (ee :: 's closure option). read_from_fd_loop K f is_stdout limit dest ee w = None" using assms by blast
next
  fix w
  assume "\<exists>dest (ee :: 's closure option). read_from_fd_loop K f is_stdout limit dest ee w = None"
  then obtain dest and ee :: "'s closure option" where none: "read_from_fd_loop K f is_stdout limit dest ee w = None" by blast
  define buf where "buf = replicate (if limit \<le> length dest then 8192
      else min (limit - length dest) READ_CHUNK) (0::byte)"
  show "endless K (flows (raw f)) w \<or> (\<exists>t w1. execs K w t w1 \<and> t \<noteq> [] \<and> list_all (flows (raw f)) t \<and>
      (\<exists>dest (ee :: 's closure option). read_from_fd_loop K f is_stdout limit dest ee w1 = None))"
  proof (cases "read_slice K f buf w")
    case None
    then show ?thesis by (intro disjI1 read_slice_hangs)
  next
    case (Some y)
    then obtain res buf' w1 where s: "read_slice K f buf w = Some ((res, buf'), w1)" by (metis prod.exhaust)
    have "\<exists>n dest (ee :: 's closure option). res = Inr (Some n) \<and> 0 < n \<and>
        read_from_fd_loop K f is_stdout limit dest ee w1 = None"
      using none s
      by (subst (asm) read_from_fd_loop.simps)
        (cases "limit \<le> length dest"; cases res rule: io_exhaust;
          auto simp: buf_def Let_def split: if_splits option.splits prod.splits)
    with read_slice_flows s show ?thesis by blast
  qed
qed

text \<open>A descriptor that always has data keeps the loop for ever, if no callback may end it.\<close>

lemma read_from_fd_loop_flooded:
  assumes "\<And>cnt k. 0 < cnt \<Longrightarrow> 0 < r_ret (fst (trap K (Read (raw f) cnt) k))" and "\<not> is_stdout \<or> ee = None"
  shows "read_from_fd_loop K f is_stdout limit dest ee w = None"
proof (rule ccontr)
  assume "read_from_fd_loop K f is_stdout limit dest ee w \<noteq> None"
  then obtain y where "read_from_fd_loop K f is_stdout limit dest ee w = Some y" by blast
  from read_from_fd_loop_rounds [OF this] assms(2) show False
  proof (induction rule: read_rounds.induct)
    case (ends buf w res buf' w1 dest ee)
    from read_slice_always [OF assms(1) ends(1,3)] ends(2) show ?case by auto
  qed simp_all
qed

section \<open>The buffer as a bounded capture of two streams\<close>

definition stream_of :: "bool \<Rightarrow> buffer_state \<Rightarrow> byte list" where
  "stream_of is_stdout b = (if is_stdout then buf_stdout b else buf_stderr b)"

definition buffer_ok :: "buffer_state \<Rightarrow> bool" where
  "buffer_ok b \<longleftrightarrow> length (buf_stdout b) \<le> buf_limit b \<and> length (buf_stderr b) \<le> buf_limit b"

lemma buffer_ok_new: "buffer_ok (buffer_new limit)"
  by (simp add: buffer_ok_def buffer_new_def)

lemma read_from_fdD:
  assumes "read_from_fd K b f is_stdout ee w = Some ((res, b', ee'), w')"
  shows "read_from_fd_loop K f is_stdout (buf_limit b) (stream_of is_stdout b) ee w
           = Some ((res, stream_of is_stdout b', ee'), w')"
    and "stream_of (\<not> is_stdout) b' = stream_of (\<not> is_stdout) b" and "buf_limit b' = buf_limit b"
  using assms by (auto simp: read_from_fd_def stream_of_def bind_Some_conv split: if_splits)

lemma read_from_fd_spec:
  assumes "read_from_fd K b f is_stdout ee w = Some ((res, b', ee'), w')" and "io_bounded K"
  obtains t cs stop where "runs w w' t" "t \<noteq> []" "reads_only (raw f) t"
    and "stream_of is_stdout b' =
       captured (buf_limit b) (stream_of is_stdout b) (delivered (raw f) t)"
    and "stream_of is_stdout b' = stream_of is_stdout b @ concat cs"
    and "consulted is_stdout ee cs stop ee'"
    and "if stop then res = Inr True \<and> 0 < r_ret (snd (last t)) else drained res (snd (last t))"
  using read_from_fd_loop_runs [OF read_from_fdD(1) [OF assms(1)]] assms(2)
  unfolding capture_run_def fst_conv snd_conv by blast

lemma read_from_fd_moves:
  assumes "read_from_fd K b f is_stdout ee w = Some ((res, b', ee'), w')"
  shows "moves w w' A A"
  using read_from_fd_loop_moves [OF read_from_fdD(1) [OF assms]] by simp

lemma read_from_fd_makes:
  assumes "read_from_fd K b f is_stdout ee w = Some ((res, b', ee'), w')" and "\<And>cnt. P (Read (raw f) cnt)"
  shows "makes P w w'"
  using makes_mono [OF read_from_fd_loop_makes [OF read_from_fdD(1) [OF assms(1)]], of P] assms(2) by auto

lemma buffer_ok_step:
  assumes "read_from_fd K b f is_stdout ee w = Some ((res, b', ee'), w')" and "io_bounded K"
    and "buffer_ok b"
  shows "buffer_ok b'"
proof -
  obtain s where s: "stream_of is_stdout b' = captured (buf_limit b) (stream_of is_stdout b) s"
    by (rule read_from_fd_spec [OF assms(1,2)])
  have "length (stream_of is_stdout b) \<le> buf_limit b"
    using assms(3) by (simp add: buffer_ok_def stream_of_def)
  then have "length (stream_of is_stdout b') \<le> buf_limit b"
    using captured_length [of "buf_limit b" "stream_of is_stdout b" s] by (simp add: s max_def)
  then show ?thesis
    using assms(3) read_from_fdD(2,3) [OF assms(1)]
    by (cases is_stdout) (auto simp: buffer_ok_def stream_of_def)
qed

text \<open>
  Buffers as the program makes them: a fresh buffer, filled by any reads of any descriptors, with
  the callback handed on from read to read.
\<close>

inductive buffer_reach ::
  "'k os \<Rightarrow> nat \<Rightarrow> 's closure option \<Rightarrow> buffer_state \<Rightarrow> 's closure option \<Rightarrow> bool"
  for K limit g where
  fresh: "buffer_reach K limit g (buffer_new limit) g"
| grow: "buffer_reach K limit g b ee \<Longrightarrow>
    read_from_fd K b f is_stdout ee w = Some ((res, b', ee'), w') \<Longrightarrow>
    buffer_reach K limit g b' ee'"

lemma buffer_reach_ok:
  "buffer_reach K limit g b ee \<Longrightarrow> io_bounded K \<Longrightarrow> buffer_ok b \<and> buf_limit b = limit"
proof (induction rule: buffer_reach.induct)
  case fresh
  show ?case by (simp add: buffer_ok_new, simp add: buffer_new_def)
next
  case (grow b ee f is_stdout w res b' ee' w')
  then show ?case using buffer_ok_step read_from_fdD(3) by metis
qed

section \<open>Properties\<close>

text \<open>Running the demonstration kernel: the simplification rules of this component.\<close>

lemmas buffer_run = read_from_fd_def read_from_fd_loop.simps buffer_new_def read_slice_def
  read_raw.simps READ_CHUNK_def store_def last_errno_def Let_def demo_run stream_of_def

lemma demo_capture:
  "\<exists>w'. read_from_fd demo_os (buffer_new 2) (Fd 5) True None
       (demo_world [Data [7, 8, 9], Wait] [] []) =
     Some ((Inr False, \<lparr>buf_stdout = [7, 8], buf_stderr = [], buf_limit = 2\<rparr>,
       None :: unit closure option), w')"
  by (simp add: buffer_run cong: bind_eval_cong prod.case_cong_weak)

text \<open>C11. What is captured. One call of \<open>read_from_fd\<close> makes only reads of its descriptor; the
  selected stream becomes the old contents followed by everything the kernel delivered, cut at
  the limit, and the other stream and the limit are unchanged.\<close>

theorem read_from_fd_captures:
  assumes "read_from_fd K b f is_stdout ee w = Some ((res, b', ee'), w')" and "io_bounded K"
  shows "\<exists>t. runs w w' t \<and> reads_only (raw f) t \<and>
     stream_of is_stdout b' =
       take (max (buf_limit b) (length (stream_of is_stdout b)))
         (stream_of is_stdout b @ delivered (raw f) t) \<and>
     stream_of (\<not> is_stdout) b' = stream_of (\<not> is_stdout) b \<and> buf_limit b' = buf_limit b"
proof -
  obtain t where "runs w w' t" "reads_only (raw f) t"
    "stream_of is_stdout b' = captured (buf_limit b) (stream_of is_stdout b) (delivered (raw f) t)"
    by (rule read_from_fd_spec [OF assms])
  with read_from_fdD(2,3) [OF assms(1)] show ?thesis unfolding captured_def by blast
qed

theorem read_from_fd_captures_witness:
  "\<exists>w' t. runs (demo_world [Data [7, 8, 9], Wait] [] []) w' t \<and> reads_only 5 t \<and>
     take 2 (delivered 5 t) = [7, 8]"
proof -
  obtain w' where r: "read_from_fd demo_os (buffer_new 2) (Fd 5) True None
       (demo_world [Data [7, 8, 9], Wait] [] []) =
     Some ((Inr False, \<lparr>buf_stdout = [7, 8], buf_stderr = [], buf_limit = 2\<rparr>,
       None :: unit closure option), w')"
    using demo_capture by blast
  obtain t where "runs (demo_world [Data [7, 8, 9], Wait] [] []) w' t" "reads_only 5 t"
    "[7, 8] = take 2 (delivered 5 t)"
    using read_from_fd_captures [OF r demo_io_bounded] by (auto simp: stream_of_def buffer_new_def)
  then show ?thesis by metis
qed

text \<open>C25. The edge-triggered contract. When \<open>read_from_fd\<close> says "would block", the kernel's last
  answer was indeed EAGAIN, so the descriptor was drained; an error is the errno of the last
  failing read; "done" is said either after a read of zero bytes, or because the callback, shown the
  last chunk added to stdout in the state the earlier chunks left it in, answered yes. In all other
  cases the callback refused every chunk it was shown.\<close>

theorem read_from_fd_drains:
  assumes "read_from_fd K b f is_stdout ee w = Some ((res, b', ee'), w')" and "io_bounded K"
  shows "\<exists>t r cs. runs w w' t \<and> t \<noteq> [] \<and> snd (last t) = r \<and> stream_of is_stdout b' = stream_of is_stdout b @ concat cs \<and>
     (case res of
        Inr False \<Rightarrow> would_block r \<and> consulted is_stdout ee cs False ee'
      | Inr True \<Rightarrow> r_ret r = 0 \<and> consulted is_stdout ee cs False ee' \<or>
          0 < r_ret r \<and> is_stdout \<and> (\<exists>shown c g g1. cs = shown @ [c] \<and> consulted is_stdout ee shown False (Some g) \<and>
            call_mut g c = (True, g1) \<and> ee' = Some g1)
      | Inl e \<Rightarrow> r_ret r < 0 \<and> \<not> would_block r \<and> e = sys_err (r_errno r) ''read'' \<and> consulted is_stdout ee cs False ee')"
proof -
  obtain t cs stop where t: "runs w w' t" "t \<noteq> []" and cs: "stream_of is_stdout b' = stream_of is_stdout b @ concat cs"
    and c: "consulted is_stdout ee cs stop ee'"
    and d: "if stop then res = Inr True \<and> 0 < r_ret (snd (last t)) else drained res (snd (last t))"
    by (rule read_from_fd_spec [OF assms])
  show ?thesis
  proof (cases stop)
    case True
    with c have "consulted is_stdout ee cs True ee'" by simp
    from consulted_stop [OF this] have out: "is_stdout"
      and acc: "\<exists>shown c g g1. cs = shown @ [c] \<and> consulted is_stdout ee shown False (Some g) \<and>
        call_mut g c = (True, g1) \<and> ee' = Some g1" by blast+
    from d True have "res = Inr True" "0 < r_ret (snd (last t))" by simp_all
    with t cs out acc show ?thesis by (intro exI [of _ t] exI [of _ "snd (last t)"] exI [of _ cs]) (simp only: sum.case bool.case, blast)
  next
    case False
    with t cs c d show ?thesis
      by (intro exI [of _ t] exI [of _ "snd (last t)"] exI [of _ cs])
        (auto simp: drained_def split: sum.splits bool.splits)
  qed
qed

theorem read_from_fd_drains_witness:
  "\<exists>w'. read_from_fd demo_os (buffer_new 2) (Fd 5) True None (demo_world [Data [7, 8, 9], Wait] [] []) =
     Some ((Inr False, \<lparr>buf_stdout = [7, 8], buf_stderr = [], buf_limit = 2\<rparr>, None :: unit closure option), w') \<and>
     would_block (snd (last (trace w')))"
proof -
  obtain w' where r: "read_from_fd demo_os (buffer_new 2) (Fd 5) True None
       (demo_world [Data [7, 8, 9], Wait] [] []) =
     Some ((Inr False, \<lparr>buf_stdout = [7, 8], buf_stderr = [], buf_limit = 2\<rparr>,
       None :: unit closure option), w')"
    using demo_capture by blast
  obtain t where "runs (demo_world [Data [7, 8, 9], Wait] [] []) w' t" "would_block (snd (last t))"
    using read_from_fd_drains [OF r demo_io_bounded] by auto
  with r show ?thesis by (simp add: runs_def demo_world_def)
qed

text \<open>C30. The early-exit callback. The bytes added to stdout are exactly the chunks the callback was
  shown, in order, and a chunk it accepts is the last one and ends the read with "done"; it is
  never shown stderr, whose reads leave its state alone.\<close>

theorem read_from_fd_early_exit:
  assumes "read_from_fd K b f is_stdout ee w = Some ((res, b', ee'), w')" and "io_bounded K"
  shows "\<exists>cs stop. stream_of is_stdout b' = stream_of is_stdout b @ concat cs \<and>
     consulted is_stdout ee cs stop ee' \<and> (stop \<longrightarrow> res = Inr True) \<and>
     (\<not> is_stdout \<longrightarrow> \<not> stop \<and> ee' = ee)"
proof -
  obtain t cs stop where "runs w w' t" and s: "stream_of is_stdout b' = stream_of is_stdout b @ concat cs"
    and c: "consulted is_stdout ee cs stop ee'"
    and d: "if stop then res = Inr True \<and> 0 < r_ret (snd (last t)) else drained res (snd (last t))"
    by (rule read_from_fd_spec [OF assms])
  from d have r: "stop \<longrightarrow> res = Inr True" by simp
  from c have "\<not> is_stdout \<Longrightarrow> \<not> stop \<and> ee' = ee" by (induction rule: consulted.induct) auto
  with s c r show ?thesis by blast
qed

theorem read_from_fd_early_exit_witness:
  "\<exists>cs stop. [7, 8] = concat cs \<and>
     consulted True (Some (0::nat, \<lambda>s bs. (True, Suc s))) cs stop (Some (1, \<lambda>s bs. (True, Suc s)))"
proof -
  let ?g = "\<lambda>s (bs :: byte list). (True, Suc s)"
  have "\<exists>w'. read_from_fd demo_os (buffer_new 9) (Fd 5) True (Some (0, ?g))
       (demo_world [Data [7, 8], Data [9]] [] []) =
     Some ((Inr True, \<lparr>buf_stdout = [7, 8], buf_stderr = [], buf_limit = 9\<rparr>, Some (1, ?g)), w')"
    by (simp add: buffer_run call_mut_def cong: bind_eval_cong prod.case_cong_weak)
  then obtain w' where r: "read_from_fd demo_os (buffer_new 9) (Fd 5) True (Some (0, ?g))
       (demo_world [Data [7, 8], Data [9]] [] []) =
     Some ((Inr True, \<lparr>buf_stdout = [7, 8], buf_stderr = [], buf_limit = 9\<rparr>, Some (1, ?g)), w')"
    by blast
  show ?thesis
    using read_from_fd_early_exit [OF r demo_io_bounded] by (auto simp: stream_of_def buffer_new_def)
qed

text \<open>Bounded memory. However many reads fill a buffer, neither stream ever holds more than the
  limit the buffer was made with.\<close>

theorem buffer_within_limit:
  assumes "buffer_reach K limit g b ee" and "io_bounded K"
  shows "length (buf_stdout b) \<le> limit \<and> length (buf_stderr b) \<le> limit"
  using buffer_reach_ok [OF assms] by (auto simp: buffer_ok_def)

theorem buffer_within_limit_witness:
  "length (buf_stdout \<lparr>buf_stdout = [7, 8], buf_stderr = [], buf_limit = 2\<rparr>) \<le> 2"
proof -
  have "buffer_reach demo_os 2 None \<lparr>buf_stdout = [7, 8], buf_stderr = [], buf_limit = 2\<rparr>
      (None :: unit closure option)"
    using demo_capture buffer_reach.grow [OF buffer_reach.fresh] by blast
  from buffer_within_limit [OF this demo_io_bounded] show ?thesis by simp
qed

text \<open>One byte at a time, the demonstration kernel fills a stream up to its limit.\<close>

lemma demo_read_byte:
  assumes "d_in (kst w) = Data [x] # its" and "buf \<noteq> []"
  shows "\<exists>w1. read_slice demo_os f buf w = Some ((Inr (Some 1), x # tl buf), w1) \<and> d_in (kst w1) = its"
  using assms by (cases buf)
    (auto simp: read_slice_def read_raw.simps store_def last_errno_def Let_def demo_os_def demo_trap_def sys_def ok_reply_def)

lemma demo_read_wait:
  assumes "d_in (kst w) = Wait # its"
  shows "\<exists>w1. read_slice demo_os f buf w = Some ((Inr None, buf), w1)"
  using assms
  by (auto simp: read_slice_def read_raw.simps last_errno_def Let_def demo_os_def demo_trap_def sys_def err_reply_def)

lemma demo_loop_byte:
  assumes "length dest < limit"
  shows "\<exists>w'. read_from_fd_loop demo_os f is_stdout limit dest (None :: unit closure option)
     (demo_world [Data [x], Wait] [] []) = Some ((Inr False, dest @ [x], None), w')"
proof -
  let ?w = "demo_world [Data [x], Wait] [] []"
  let ?n = "min (limit - length dest) READ_CHUNK"
  have n: "0 < ?n" using assms by (simp add: READ_CHUNK_def)
  obtain w1 where r1: "read_slice demo_os f (replicate ?n 0) ?w = Some ((Inr (Some 1), x # tl (replicate ?n 0)), w1)"
    and w1: "d_in (kst w1) = [Wait]"
    using demo_read_byte [of ?w x "[Wait]" "replicate ?n 0" f] n by (auto simp: demo_world_def)
  have again: "\<exists>w2. read_from_fd_loop demo_os f is_stdout limit (dest @ [x]) (None :: unit closure option) w1
      = Some ((Inr False, dest @ [x], None), w2)"
  proof -
    have "\<exists>w2. read_slice demo_os f buf w1 = Some ((Inr None, buf), w2)" for buf
      by (rule demo_read_wait [OF w1])
    then obtain f2 where "\<And>buf. read_slice demo_os f buf w1 = Some ((Inr None, buf), f2 buf)" by metis
    then show ?thesis by (subst read_from_fd_loop.simps) (simp add: Let_def)
  qed
  show ?thesis
    using assms r1 again by (subst read_from_fd_loop.simps) (simp add: Let_def)
qed

lemma demo_fill:
  assumes "buffer_reach demo_os limit None b (None :: unit closure option)"
    and "length (stream_of is_stdout b) < limit"
  shows "buffer_reach demo_os limit None
     (if is_stdout then b\<lparr>buf_stdout := buf_stdout b @ [x]\<rparr> else b\<lparr>buf_stderr := buf_stderr b @ [x]\<rparr>)
     (None :: unit closure option)"
proof -
  have "buf_limit b = limit" using buffer_reach_ok [OF assms(1) demo_io_bounded] by blast
  with demo_loop_byte [OF assms(2), of "Fd 5" is_stdout x]
  have "\<exists>w'. read_from_fd demo_os b (Fd 5) is_stdout (None :: unit closure option) (demo_world [Data [x], Wait] [] []) =
      Some ((Inr False, if is_stdout then b\<lparr>buf_stdout := buf_stdout b @ [x]\<rparr>
        else b\<lparr>buf_stderr := buf_stderr b @ [x]\<rparr>, None), w')"
    by (auto simp: read_from_fd_def stream_of_def)
  with buffer_reach.grow [OF assms(1)] show ?thesis by blast
qed

lemma demo_reaches:
  assumes "length out \<le> limit" and "length err \<le> limit"
  shows "buffer_reach demo_os limit None \<lparr>buf_stdout = out, buf_stderr = err, buf_limit = limit\<rparr>
     (None :: unit closure option)"
proof -
  have "buffer_reach demo_os limit None \<lparr>buf_stdout = out, buf_stderr = [], buf_limit = limit\<rparr> (None :: unit closure option)"
    using assms(1)
  proof (induction out rule: rev_induct)
    case Nil
    show ?case using buffer_reach.fresh [of demo_os limit None] by (simp add: buffer_new_def)
  next
    case (snoc x out)
    then show ?case using demo_fill [where is_stdout = True and limit = limit and x = x] by (fastforce simp: stream_of_def)
  qed
  then show ?thesis
    using assms(2)
  proof (induction err rule: rev_induct)
    case (snoc x err)
    then show ?case using demo_fill [where is_stdout = False and limit = limit and x = x] by (fastforce simp: stream_of_def)
  qed simp
qed

text \<open>C40. The limit is per stream, not combined. The buffers that reading can produce under a limit,
  from any descriptors of any kernel that keeps to its reads' sizes, are exactly those in which each of
  the two streams is within the limit: neither stream ever exceeds it, and each can be full whatever the
  other holds, so that twice the limit can be held together.\<close>

theorem buffer_limit_not_combined:
  "(\<exists>K :: demo os. io_bounded K \<and> buffer_reach K limit None b (None :: unit closure option)) \<longleftrightarrow>
     buf_limit b = limit \<and> length (fst (buffer_into_parts b)) \<le> limit \<and> length (snd (buffer_into_parts b)) \<le> limit"
proof
  assume "\<exists>K :: demo os. io_bounded K \<and> buffer_reach K limit None b (None :: unit closure option)"
  then show "buf_limit b = limit \<and> length (fst (buffer_into_parts b)) \<le> limit \<and> length (snd (buffer_into_parts b)) \<le> limit"
    using buffer_reach_ok by (fastforce simp: buffer_ok_def buffer_into_parts_def)
next
  assume "buf_limit b = limit \<and> length (fst (buffer_into_parts b)) \<le> limit \<and> length (snd (buffer_into_parts b)) \<le> limit"
  with demo_reaches [of "buf_stdout b" limit "buf_stderr b"]
  have "buffer_reach demo_os limit None b (None :: unit closure option)"
    by (cases b) (simp add: buffer_into_parts_def)
  with demo_io_bounded show "\<exists>K :: demo os. io_bounded K \<and> buffer_reach K limit None b (None :: unit closure option)"
    by blast
qed

end
