(* ===== verification/Writer.thy ===== *)
theory Writer
  imports FdIo Demo
begin

text \<open>
  The stdin writer \<open>WriterState\<close> of \<^verbatim>\<open>src/src/io/writer.rs\<close>: a buffer and an offset into it. The loop
  of \<open>write_to_fd\<close> sends chunks until the buffer is sent, the pipe would block, is broken, or fails.
\<close>

definition WRITE_CHUNK :: nat where
  "WRITE_CHUNK = 65536"

record writer_state =
  wr_buf :: "byte list option"
  wr_off :: nat

definition writer_new :: "byte list option \<Rightarrow> writer_state" where
  "writer_new buf = \<lparr>wr_buf = buf, wr_off = 0\<rparr>"

partial_function (option) write_to_fd ::
  "'k os \<Rightarrow> writer_state \<Rightarrow> fd \<Rightarrow> 'k world
     \<Rightarrow> (((sys_error + bool) \<times> writer_state) \<times> 'k world) option" where
  "write_to_fd K st f w =
     (case wr_buf st of
        None \<Rightarrow> Some ((Inr True, st), w)
      | Some buf \<Rightarrow>
          if wr_off st < length buf
          then do {
            let remaining = length buf - wr_off st;
            let chunk = min remaining WRITE_CHUNK;
            (res, w1) \<leftarrow> write_slice K f (take chunk (drop (wr_off st) buf)) w;
            (case res of
               Inr (Some n) \<Rightarrow>
                 if 0 < n then write_to_fd K (st\<lparr>wr_off := wr_off st + n\<rparr>) f w1
                 else Some ((Inr True, st\<lparr>wr_buf := None\<rparr>), w1)
             | Inr None \<Rightarrow> Some ((Inr False, st), w1)
             | Inl e \<Rightarrow>
                 if code e = EPIPE then Some ((Inr True, st\<lparr>wr_buf := None\<rparr>), w1)
                 else Some ((Inl e, st\<lparr>wr_buf := None\<rparr>), w1))
          }
          else Some ((Inr True, st\<lparr>wr_buf := None\<rparr>), w))"

section \<open>What the loop sends\<close>

definition writes_only :: "int \<Rightarrow> event_log \<Rightarrow> bool" where
  "writes_only n t \<longleftrightarrow> (\<forall>e \<in> set t. \<exists>bs. fst e = Write n bs)"

lemma writes_only_simps [simp]:
  "writes_only n []" "writes_only n (s @ t) \<longleftrightarrow> writes_only n s \<and> writes_only n t"
  by (auto simp: writes_only_def)

lemma writes_only_moves:
  assumes "runs w w' t" and "writes_only n t"
  shows "moves w w' A A"
proof -
  have "replay t A = Some A"
    using assms(2) by (induction t) (auto simp: own_step_def writes_only_def)
  with assms(1) show ?thesis unfolding moves_def by blast
qed

text \<open>The four ways the loop ends, in terms of the last reply and the state it leaves.\<close>

definition finished :: "byte list \<Rightarrow> sys_error + bool \<Rightarrow> writer_state \<Rightarrow> event_log \<Rightarrow> bool" where
  "finished buf res st t =
     (case res of
        Inr False \<Rightarrow> wr_buf st = Some buf \<and> wr_off st < length buf \<and> t \<noteq> [] \<and> would_block (snd (last t))
      | Inr True \<Rightarrow> wr_buf st = None \<and>
          (wr_off st = length buf \<or>
           t \<noteq> [] \<and> (r_ret (snd (last t)) = 0 \<or>
                    r_ret (snd (last t)) < 0 \<and> r_errno (snd (last t)) = EPIPE))
      | Inl e \<Rightarrow> wr_buf st = None \<and> t \<noteq> [] \<and> r_ret (snd (last t)) < 0 \<and>
          \<not> would_block (snd (last t)) \<and> r_errno (snd (last t)) \<noteq> EPIPE \<and>
          e = sys_err (r_errno (snd (last t))) ''write'')"

definition send_run ::
  "'k os \<Rightarrow> writer_state \<Rightarrow> fd \<Rightarrow> 'k world
     \<Rightarrow> ((sys_error + bool) \<times> writer_state) \<times> 'k world \<Rightarrow> bool" where
  "send_run K st f w y \<longleftrightarrow>
     (case wr_buf st of
        None \<Rightarrow> y = ((Inr True, st), w)
      | Some buf \<Rightarrow> io_bounded K \<longrightarrow> wr_off st \<le> length buf \<longrightarrow>
          (\<exists>t. runs w (snd y) t \<and> writes_only (raw f) t \<and>
             wr_off st \<le> wr_off (snd (fst y)) \<and> wr_off (snd (fst y)) \<le> length buf \<and>
             accepted (raw f) t = take (wr_off (snd (fst y)) - wr_off st) (drop (wr_off st) buf) \<and>
             finished buf (fst (fst y)) (snd (fst y)) t))"

lemma finished_append:
  "finished buf res st t' \<Longrightarrow> finished buf res st (t @ t')"
  by (auto simp: finished_def split: sum.splits bool.splits)

lemma write_slice_data:
  assumes "write_slice K f buf w = Some (res, w')" and "io_bounded K"
  obtains t where "runs w w' t" and "writes_only (raw f) t" and "t \<noteq> []"
    and "res = io_result ''write'' (snd (last t))"
    and "\<forall>n. res = Inr (Some n) \<longrightarrow> n \<le> length buf \<and> accepted (raw f) t = take n buf"
    and "(\<nexists>n. res = Inr (Some n)) \<longrightarrow> accepted (raw f) t = []"
proof -
  obtain t where t: "runs w w' t" "set (map fst t) = {Write (raw f) buf}"
    and d: "case res of Inr (Some n) \<Rightarrow> n \<le> length buf \<and> accepted (raw f) t = take n buf
         | _ \<Rightarrow> accepted (raw f) t = []"
    and r: "t \<noteq> []" "res = io_result ''write'' (snd (last t))"
    by (rule write_slice_spec [OF assms])
  have w: "writes_only (raw f) t" using t(2) by (auto simp: writes_only_def)
  show thesis
    by (rule that [OF t(1) w r]) (use d in \<open>auto split: sum.splits option.splits\<close>)
qed

lemma send_run_step:
  assumes s: "write_slice K f (take chunk (drop (wr_off st) buf)) w = Some (Inr (Some n), w1)"
    and b: "wr_buf st = Some buf" and n: "0 < n"
    and rest: "send_run K (st\<lparr>wr_off := wr_off st + n\<rparr>) f w1 y"
  shows "send_run K st f w y"
proof -
  have "\<exists>t. runs w (snd y) t \<and> writes_only (raw f) t \<and>
     wr_off st \<le> wr_off (snd (fst y)) \<and> wr_off (snd (fst y)) \<le> length buf \<and>
     accepted (raw f) t = take (wr_off (snd (fst y)) - wr_off st) (drop (wr_off st) buf) \<and>
     finished buf (fst (fst y)) (snd (fst y)) t"
    if io: "io_bounded K" and off: "wr_off st \<le> length buf"
  proof -
    obtain t where t: "runs w w1 t" "writes_only (raw f) t"
      and a: "\<forall>m. (Inr (Some n) :: sys_error + nat option) = Inr (Some m) \<longrightarrow>
         m \<le> length (take chunk (drop (wr_off st) buf)) \<and>
         accepted (raw f) t = take m (take chunk (drop (wr_off st) buf))"
      by (rule write_slice_data [OF s io])
    from a have nc: "n \<le> chunk" "wr_off st + n \<le> length buf"
      and at: "accepted (raw f) t = take n (drop (wr_off st) buf)" using off by (auto simp: min_def split: if_splits)
    then obtain t' where t': "runs w1 (snd y) t'" "writes_only (raw f) t'"
      "wr_off st + n \<le> wr_off (snd (fst y))" "wr_off (snd (fst y)) \<le> length buf"
      "accepted (raw f) t' =
         take (wr_off (snd (fst y)) - (wr_off st + n)) (drop (wr_off st + n) buf)"
      "finished buf (fst (fst y)) (snd (fst y)) t'"
      using rest io b unfolding send_run_def by auto
    let ?d = "wr_off (snd (fst y)) - wr_off st"
    have "take ?d (drop (wr_off st) buf)
        = take n (drop (wr_off st) buf) @ take (?d - n) (drop n (drop (wr_off st) buf))"
      using t'(3) by (subst take_add [symmetric]) simp
    then have "accepted (raw f) (t @ t') = take ?d (drop (wr_off st) buf)"
      using at t'(5) by (simp add: add.commute diff_diff_left)
    then show ?thesis
      using runs_trans [OF t(1) t'(1)] t(2) t'(2-4) finished_append [OF t'(6)]
      by (intro exI [of _ "t @ t'"]) simp
  qed
  then show ?thesis by (simp add: send_run_def b)
qed

abbreviation write_result :: "writer_state \<Rightarrow> sys_error + nat option \<Rightarrow> (sys_error + bool) \<times> writer_state" where
  "write_result st res \<equiv> (case res of
       Inr (Some _) \<Rightarrow> (Inr True, st\<lparr>wr_buf := None\<rparr>)
     | Inr None \<Rightarrow> (Inr False, st)
     | Inl e \<Rightarrow> (if code e = EPIPE then Inr True else Inl e, st\<lparr>wr_buf := None\<rparr>))"

text \<open>A write that sends nothing ends the loop; the last reply says how.\<close>

lemma write_slice_nothing:
  assumes "write_slice K f buf w = Some (res, w1)" and "io_bounded K" and n: "\<forall>n. res = Inr (Some n) \<longrightarrow> n = 0"
  obtains t where "runs w w1 t" and "writes_only (raw f) t" and "t \<noteq> []" and "accepted (raw f) t = []"
    and "io_result ''write'' (snd (last t)) = res"
proof -
  obtain t where t: "runs w w1 t" "writes_only (raw f) t" "t \<noteq> []" "res = io_result ''write'' (snd (last t))"
    and a: "\<forall>m. res = Inr (Some m) \<longrightarrow> m \<le> length buf \<and> accepted (raw f) t = take m buf"
    and z: "(\<nexists>n. res = Inr (Some n)) \<longrightarrow> accepted (raw f) t = []"
    by (rule write_slice_data [OF assms(1,2)])
  have "accepted (raw f) t = []" using a z n by (cases res rule: io_exhaust) auto
  with t that show thesis by blast
qed

lemma finished_stop:
  assumes r: "io_result ''write'' (snd (last t)) = res" and t: "t \<noteq> []" and n: "\<forall>n. res = Inr (Some n) \<longrightarrow> n = 0"
    and st: "wr_buf st = Some buf" "wr_off st < length buf"
  shows "finished buf (fst (write_result st res)) (snd (write_result st res)) t"
proof (cases res rule: io_exhaust)
  case (data m)
  with n r have "r_ret (snd (last t)) = 0" by (simp add: io_result_simps(2))
  with t data show ?thesis by (simp add: finished_def)
next
  case block
  with r have "would_block (snd (last t))" by (simp add: io_result_simps(1))
  with t block st show ?thesis by (simp add: finished_def)
next
  case (err e)
  with r have "r_ret (snd (last t)) < 0 \<and> \<not> would_block (snd (last t)) \<and> e = sys_err (r_errno (snd (last t))) ''write''"
    by (simp add: io_result_simps(3))
  with t err show ?thesis by (simp add: finished_def)
qed

lemma send_run_stop:
  assumes s: "write_slice K f (take chunk (drop (wr_off st) buf)) w = Some (res, w1)"
    and st: "wr_buf st = Some buf" "wr_off st < length buf" and n: "\<forall>n. res = Inr (Some n) \<longrightarrow> n = 0"
  shows "send_run K st f w (write_result st res, w1)"
proof -
  have off: "wr_off (snd (write_result st res)) = wr_off st" by (cases res rule: io_exhaust) simp_all
  have "\<exists>t. runs w w1 t \<and> writes_only (raw f) t \<and> accepted (raw f) t = [] \<and>
      finished buf (fst (write_result st res)) (snd (write_result st res)) t" if io: "io_bounded K"
  proof -
    obtain t where "runs w w1 t" "writes_only (raw f) t" "t \<noteq> []" "accepted (raw f) t = []"
      "io_result ''write'' (snd (last t)) = res"
      by (rule write_slice_nothing [OF s io n])
    with finished_stop [OF _ _ n st] show ?thesis by blast
  qed
  with st off show ?thesis by (auto simp: send_run_def)
qed

text \<open>
  The rounds of the loop as a relation: nothing to send, everything sent, a write that makes progress, and
  one that ends the loop. The loop is related to it once, by induction over its unfoldings.
\<close>

inductive write_rounds ::
  "'k os \<Rightarrow> fd \<Rightarrow> writer_state \<Rightarrow> 'k world \<Rightarrow> ((sys_error + bool) \<times> writer_state) \<times> 'k world \<Rightarrow> bool"
  for K f where
  nothing: "wr_buf st = None \<Longrightarrow> write_rounds K f st w ((Inr True, st), w)"
| sent: "wr_buf st = Some buf \<Longrightarrow> length buf \<le> wr_off st
     \<Longrightarrow> write_rounds K f st w ((Inr True, st\<lparr>wr_buf := None\<rparr>), w)"
| sends: "wr_buf st = Some buf \<Longrightarrow> write_slice K f (take chunk (drop (wr_off st) buf)) w = Some (Inr (Some n), w1)
     \<Longrightarrow> 0 < n \<Longrightarrow> write_rounds K f (st\<lparr>wr_off := wr_off st + n\<rparr>) w1 y \<Longrightarrow> write_rounds K f st w y"
| ends: "wr_buf st = Some buf \<Longrightarrow> wr_off st < length buf
     \<Longrightarrow> write_slice K f (take chunk (drop (wr_off st) buf)) w = Some (res, w1)
     \<Longrightarrow> \<forall>n. res = Inr (Some n) \<longrightarrow> n = 0 \<Longrightarrow> write_rounds K f st w (write_result st res, w1)"

lemma write_to_fd_rounds: "write_to_fd K st f w = Some y \<Longrightarrow> write_rounds K f st w y"
proof (rule write_to_fd.raw_induct [where P = "\<lambda>K st f. write_rounds K f st"], goal_cases)
  case (1 loop K st f w y)
  note IH = 1(2) and eq = 1(3)
  show "write_rounds K f st w y"
  proof (cases "\<exists>buf. wr_buf st = Some buf \<and> wr_off st < length buf")
    case False
    with eq write_rounds.nothing [of st K f w] write_rounds.sent [of st _ K f w] show ?thesis
      by (cases "wr_buf st") auto
  next
    case True
    then obtain buf where b: "wr_buf st = Some buf" "wr_off st < length buf" by blast
    let ?data = "take (min (length buf - wr_off st) WRITE_CHUNK) (drop (wr_off st) buf)"
    have "write_slice K f ?data w \<noteq> None"
      using eq b by (cases "write_slice K f ?data w") (simp_all add: Let_def)
    then obtain res w1 where s: "write_slice K f ?data w = Some (res, w1)" by (metis option.exhaust prod.exhaust)
    show ?thesis
    proof (cases "\<exists>n. res = Inr (Some n) \<and> 0 < n")
      case True
      then obtain n where n: "res = Inr (Some n)" "0 < n" by blast
      with eq b s have "loop K (st\<lparr>wr_off := wr_off st + n\<rparr>) f w1 = Some y" by (simp add: Let_def)
      from write_rounds.sends [OF b(1) s [unfolded n(1)] n(2) IH [OF this]] show ?thesis .
    next
      case False
      have "y = (write_result st res, w1)"
        using eq b s False by (cases res rule: io_exhaust) (auto simp: Let_def)
      with write_rounds.ends [OF b s] False show ?thesis by simp
    qed
  qed
qed

lemma write_to_fd_runs:
  assumes "write_to_fd K st f w = Some y"
  shows "send_run K st f w y"
  using write_to_fd_rounds [OF assms]
proof (induction rule: write_rounds.induct)
  case (nothing st w)
  then show ?case by (simp add: send_run_def)
next
  case (sent st buf w)
  then show ?case by (auto simp: send_run_def finished_def)
next
  case (sends st buf chunk w n w1 y)
  from send_run_step [OF sends(2,1,3) sends.IH] show ?case .
next
  case (ends st buf chunk w res w1)
  from send_run_stop [OF ends(3,1,2,4)] show ?case .
qed

text \<open>The loop only writes, to its own descriptor; so no descriptor is opened or closed.\<close>

lemma write_to_fd_makes:
  assumes "write_to_fd K st f w = Some y"
  shows "makes (\<lambda>c. \<exists>bs. c = Write (raw f) bs) w (snd y)"
proof -
  let ?P = "\<lambda>c. \<exists>bs. c = Write (raw f) bs"
  have m: "makes ?P w w1" if "write_slice K f buf w = Some (res, w1)" for buf w res w1
    by (rule write_slice_makes [OF that]) blast
  from write_to_fd_rounds [OF assms] show ?thesis
    by (induction rule: write_rounds.induct) (simp_all, (blast intro: makes_trans m)+)
qed

lemma write_to_fd_moves: "write_to_fd K st f w = Some y \<Longrightarrow> moves w (snd y) A A"
  by (rule makes_moves [OF write_to_fd_makes]) auto

section \<open>When the loop does not end\<close>

text \<open>Every round that goes on moves the offset towards the end of the buffer.\<close>

lemma write_to_fd_hangs:
  assumes "write_to_fd K st f w = None"
  shows "\<exists>t w'. execs K w t w' \<and> endless K (write_interrupted (raw f)) w'"
  using assms
proof (induction "case wr_buf st of None \<Rightarrow> 0 | Some buf \<Rightarrow> length buf - wr_off st"
    arbitrary: st w rule: less_induct)
  case less
  obtain buf where b: "wr_buf st = Some buf" "wr_off st < length buf"
    using less.prems by (subst (asm) write_to_fd.simps) (auto split: option.splits if_splits)
  let ?data = "take (min (length buf - wr_off st) WRITE_CHUNK) (drop (wr_off st) buf)"
  show ?case
  proof (cases "write_slice K f ?data w")
    case None
    from write_slice_hangs [OF this] show ?thesis by (intro exI [of _ "[]"] exI [of _ w]) simp
  next
    case (Some y)
    then obtain res w1 where s: "write_slice K f ?data w = Some (res, w1)" by (metis prod.exhaust)
    have "\<exists>n. res = Inr (Some n) \<and> 0 < n \<and> write_to_fd K (st\<lparr>wr_off := wr_off st + n\<rparr>) f w1 = None"
      using less.prems s b
      by (subst (asm) write_to_fd.simps) (cases res rule: io_exhaust; auto simp: Let_def split: if_splits)
    then obtain n where n: "0 < n" "write_to_fd K (st\<lparr>wr_off := wr_off st + n\<rparr>) f w1 = None" by blast
    have "length buf - (wr_off st + n) < length buf - wr_off st" using n(1) b(2) by linarith
    with less.hyps [OF _ n(2)] b(1) obtain t w' where "execs K w1 t w'" "endless K (write_interrupted (raw f)) w'"
      by auto
    with write_slice_execs [OF s] show ?thesis using execs_trans by blast
  qed
qed

lemma write_to_fd_spec:
  assumes "write_to_fd K st f w = Some ((res, st'), w')" and "io_bounded K"
    and "wr_buf st = Some buf" and "wr_off st \<le> length buf"
  obtains t where "runs w w' t" "writes_only (raw f) t"
    "wr_off st \<le> wr_off st'" "wr_off st' \<le> length buf"
    "accepted (raw f) t = take (wr_off st' - wr_off st) (drop (wr_off st) buf)"
    "finished buf res st' t"
  using write_to_fd_runs [OF assms(1)] assms(2-4) by (auto simp: send_run_def)

lemma write_to_fd_empty: "wr_buf st = None \<Longrightarrow> write_to_fd K st f w = Some ((Inr True, st), w)"
  by (simp add: write_to_fd.simps)

text \<open>A writer in use: made for a buffer, called any number of times; \<open>sent\<close> is what the kernel took.\<close>

inductive writer_reach :: "'k os \<Rightarrow> fd \<Rightarrow> byte list \<Rightarrow> writer_state \<Rightarrow> byte list \<Rightarrow> bool"
  for K f buf where
  start: "writer_reach K f buf (writer_new (Some buf)) []"
| call: "writer_reach K f buf st sent \<Longrightarrow> write_to_fd K st f w = Some ((res, st'), w') \<Longrightarrow>
    runs w w' t \<Longrightarrow> writer_reach K f buf st' (sent @ accepted (raw f) t)"

lemma finished_buf: "finished buf res st t \<Longrightarrow> wr_buf st = None \<or> wr_buf st = Some buf"
  by (auto simp: finished_def split: sum.splits bool.splits)

lemma writer_reach_sent:
  assumes "io_bounded K"
  shows "writer_reach K f buf st sent \<Longrightarrow> (wr_buf st = None \<or> wr_buf st = Some buf) \<and>
     wr_off st \<le> length buf \<and> sent = take (wr_off st) buf"
proof (induction rule: writer_reach.induct)
  case start
  show ?case by (simp add: writer_new_def)
next
  case (call st sent w res st' w' t)
  show ?case
  proof (cases "wr_buf st")
    case None
    with call.hyps have "st' = st" "w' = w" by (simp_all add: write_to_fd_empty)
    with call.IH call.hyps(3) show ?thesis by simp
  next
    case (Some b)
    with call.IH have b: "wr_buf st = Some buf" "wr_off st \<le> length buf" by simp_all
    obtain t' where t': "runs w w' t'" "writes_only (raw f) t'"
      and o: "wr_off st \<le> wr_off st'" "wr_off st' \<le> length buf"
      and a: "accepted (raw f) t' = take (wr_off st' - wr_off st) (drop (wr_off st) buf)"
      and fin: "finished buf res st' t'"
      by (rule write_to_fd_spec [OF call.hyps(2) assms b])
    have "take (wr_off st') buf = take (wr_off st) buf @ take (wr_off st' - wr_off st) (drop (wr_off st) buf)"
      using o(1) by (subst take_add [symmetric]) simp
    with a runs_unique [OF t'(1) call.hyps(3)] call.IH o finished_buf [OF fin]
    show ?thesis by simp
  qed
qed

section \<open>Properties\<close>

lemmas writer_run = write_to_fd.simps writer_new_def write_slice_def write_raw.simps
  WRITE_CHUNK_def last_errno_def Let_def demo_run

lemma demo_send:
  "\<exists>w'. write_to_fd demo_os (writer_new (Some [1, 2, 3])) (Fd 4)
       (demo_world [] [Data [0, 0], Wait] []) =
     Some ((Inr False, \<lparr>wr_buf = Some [1, 2, 3], wr_off = 2\<rparr>), w')"
  by (simp add: writer_run cong: bind_eval_cong prod.case_cong_weak)

text \<open>C16. Exactly-once delivery to the child's stdin. Over any sequence of \<open>write_to_fd\<close> calls the
  bytes the kernel has accepted are the first \<open>off\<close> bytes of the buffer: nothing is lost,
  repeated or reordered across short writes and would-block returns.\<close>

theorem writer_sends_prefix:
  assumes "io_bounded K" and "writer_reach K f buf st sent"
  shows "sent = take (wr_off st) buf \<and> wr_off st \<le> length buf"
  using writer_reach_sent [OF assms] by blast

theorem writer_sends_prefix_witness:
  "\<exists>sent. writer_reach demo_os (Fd 4) [1, 2, 3] \<lparr>wr_buf = Some [1, 2, 3], wr_off = 2\<rparr> sent \<and>
     sent = [1, 2]"
proof -
  obtain w' where r: "write_to_fd demo_os (writer_new (Some [1, 2, 3])) (Fd 4)
       (demo_world [] [Data [0, 0], Wait] []) =
     Some ((Inr False, \<lparr>wr_buf = Some [1, 2, 3], wr_off = 2\<rparr>), w')"
    using demo_send by blast
  have b: "wr_buf (writer_new (Some [1, 2, 3])) = Some [1, 2, 3]" "wr_off (writer_new (Some [1, 2, 3])) \<le> length [1, 2, 3]"
    by (simp_all add: writer_new_def)
  obtain t where t: "runs (demo_world [] [Data [0, 0], Wait] []) w' t"
    by (rule write_to_fd_spec [OF r demo_io_bounded b])
  from writer_reach.call [OF writer_reach.start r t]
  have reach: "writer_reach demo_os (Fd 4) [1, 2, 3] \<lparr>wr_buf = Some [1, 2, 3], wr_off = 2\<rparr>
      ([] @ accepted (raw (Fd 4)) t)" .
  from writer_sends_prefix [OF demo_io_bounded reach] have "[] @ accepted (raw (Fd 4)) t = [1, 2]"
    by simp
  with reach show ?thesis by metis
qed

text \<open>C26. How \<open>write_to_fd\<close> ends. With the buffer pending it answers "would block" only after EAGAIN,
  keeping the buffer; "done" only when everything was sent, or the kernel took zero bytes or
  answered EPIPE; any other error is passed on. In all cases but would-block the buffer is
  dropped, so nothing is ever sent twice.\<close>

theorem write_to_fd_outcome:
  assumes "write_to_fd K st f w = Some ((res, st'), w')" and "io_bounded K"
    and "wr_buf st = Some buf" and "wr_off st \<le> length buf"
  shows "\<exists>t. runs w w' t \<and>
     (case res of
        Inr False \<Rightarrow> wr_buf st' = Some buf \<and> wr_off st' < length buf \<and> would_block (snd (last t))
      | Inr True \<Rightarrow> wr_buf st' = None \<and>
          (wr_off st' = length buf \<or> r_ret (snd (last t)) = 0 \<or> r_errno (snd (last t)) = EPIPE)
      | Inl e \<Rightarrow> wr_buf st' = None \<and> r_ret (snd (last t)) < 0 \<and>
          code e = r_errno (snd (last t)) \<and> code e \<notin> {EPIPE, EAGAIN})"
proof -
  obtain t where t: "runs w w' t" "writes_only (raw f) t"
      "wr_off st \<le> wr_off st'" "wr_off st' \<le> length buf"
      "accepted (raw f) t = take (wr_off st' - wr_off st) (drop (wr_off st) buf)"
    and fin: "finished buf res st' t"
    by (rule write_to_fd_spec [OF assms])
  show ?thesis
    by (intro exI [of _ t] conjI t(1))
      (use fin in \<open>auto simp: finished_def would_block_def split: sum.splits bool.splits\<close>)
qed

theorem write_to_fd_outcome_witness:
  "\<exists>w' t. runs (demo_world [] [Data [0, 0], Wait] []) w' t \<and> would_block (snd (last t))"
proof -
  obtain w' where r: "write_to_fd demo_os (writer_new (Some [1, 2, 3])) (Fd 4)
       (demo_world [] [Data [0, 0], Wait] []) =
     Some ((Inr False, \<lparr>wr_buf = Some [1, 2, 3], wr_off = 2\<rparr>), w')"
    using demo_send by blast
  show ?thesis
    using write_to_fd_outcome [OF r demo_io_bounded, of "[1, 2, 3]"] by (auto simp: writer_new_def)
qed

end
