(* ===== verification/Reactor.thy ===== *)
theory Reactor
  imports FdIo Demo
begin

text \<open>
  The epoll reactor of \<^verbatim>\<open>src/src/reactor/mod.rs\<close> (lines 162 to 446): tokens, events, registration
  and the conversion of epoll events. The vector handed to \<open>epoll_wait\<close> is modelled with its
  contents and its capacity, because the kernel writes into its spare capacity.
\<close>

section \<open>Constants\<close>

definition EPOLLIN :: u32 where "EPOLLIN = 1"
definition EPOLLOUT :: u32 where "EPOLLOUT = 4"
definition EPOLLERR :: u32 where "EPOLLERR = 8"
definition EPOLLHUP :: u32 where "EPOLLHUP = 16"
definition EPOLLET :: u32 where "EPOLLET = 0x80000000"
definition EPOLL_CLOEXEC :: int where "EPOLL_CLOEXEC = 524288"
definition IN_CLOEXEC :: int where "IN_CLOEXEC = 524288"
definition IN_NONBLOCK :: int where "IN_NONBLOCK = 2048"
definition SFD_CLOEXEC :: int where "SFD_CLOEXEC = 524288"
definition SFD_NONBLOCK :: int where "SFD_NONBLOCK = 2048"
definition SIG_BLOCK :: int where "SIG_BLOCK = 0"
definition SIGNALFD_SIGINFO_SIZE :: nat where "SIGNALFD_SIGINFO_SIZE = 128"

lemmas epoll_defs = EPOLLIN_def EPOLLOUT_def EPOLLERR_def EPOLLHUP_def EPOLLET_def

section \<open>Tokens, events and the reactor\<close>

datatype token = Token (val: u64)

definition token_new :: "u64 \<Rightarrow> token" where
  "token_new v = Token v"

text \<open>Tokens are handed out in increasing order, which is the order of their values.\<close>

instantiation token :: linorder
begin

definition less_eq_token :: "token \<Rightarrow> token \<Rightarrow> bool" where
  "less_eq_token a b \<longleftrightarrow> val a \<le> val b"

definition less_token :: "token \<Rightarrow> token \<Rightarrow> bool" where
  "less_token a b \<longleftrightarrow> val a < val b"

instance
  by standard (auto simp: less_eq_token_def less_token_def token.expand)

end

record event =
  ev_token :: token
  ev_readable :: bool
  ev_writable :: bool
  ev_error :: bool

record reactor =
  epfd :: int
  next_token :: u64
  events_buf :: "(u32 \<times> u64) list"
  events_cap :: nat
  signalfd :: "fd option"
  sigchld_token :: "token option"
  inotify_token :: "token option"

definition reactor_new :: "'k os \<Rightarrow> 'k world \<Rightarrow> (sys_error + reactor) \<times> 'k world" where
  "reactor_new K w =
     (let (r, w1) = sys K (EpollCreate1 EPOLL_CLOEXEC) w
      in case syscall_ret (r_ret r) ''epoll_create1'' w1 of
           Inl e \<Rightarrow> (Inl e, w1)
         | Inr _ \<Rightarrow>
             (Inr \<lparr>epfd = r_ret r, next_token = 1, events_buf = [], events_cap = 64,
                   signalfd = None, sigchld_token = None, inotify_token = None\<rparr>, w1))"

text \<open>Registration. The counter moves even when \<open>epoll_ctl\<close> fails.\<close>

definition interest :: "bool \<Rightarrow> bool \<Rightarrow> u32" where
  "interest readable writable =
     (let events = EPOLLET;
          events = (if readable then events OR EPOLLIN else events);
          events = (if writable then events OR EPOLLOUT else events)
      in events)"

definition add_with_token ::
  "'k os \<Rightarrow> reactor \<Rightarrow> int \<Rightarrow> token \<Rightarrow> bool \<Rightarrow> bool \<Rightarrow> 'k world \<Rightarrow> (sys_error + unit) \<times> 'k world" where
  "add_with_token K R raw_fd tok readable writable w =
     (let (r, w1) = sys K (EpollCtlAdd (epfd R) raw_fd (interest readable writable) (val tok)) w
      in (syscall_ret (r_ret r) ''epoll_ctl_add'' w1, w1))"

definition add ::
  "'k os \<Rightarrow> reactor \<Rightarrow> fd \<Rightarrow> bool \<Rightarrow> bool \<Rightarrow> 'k world \<Rightarrow> ((sys_error + token) \<times> reactor) \<times> 'k world" where
  "add K R f readable writable w =
     (let tok = Token (next_token R);
          R1 = R\<lparr>next_token := next_token R + 1\<rparr>;
          (res, w1) = add_with_token K R1 (raw f) tok readable writable w
      in ((case res of Inl e \<Rightarrow> Inl e | Inr _ \<Rightarrow> Inr tok, R1), w1))"

definition del_raw :: "'k os \<Rightarrow> reactor \<Rightarrow> int \<Rightarrow> 'k world \<Rightarrow> 'k world" where
  "del_raw K R n w = snd (sys K (EpollCtlDel (epfd R) n) w)"

definition del :: "'k os \<Rightarrow> reactor \<Rightarrow> fd \<Rightarrow> 'k world \<Rightarrow> 'k world" where
  "del K R f w = del_raw K R (raw f) w"

definition setup_inotify ::
  "'k os \<Rightarrow> reactor \<Rightarrow> 'k world \<Rightarrow> ((sys_error + fd) \<times> reactor) \<times> 'k world" where
  "setup_inotify K R w =
     (let (r, w1) = sys K (InotifyInit1 (IN_CLOEXEC OR IN_NONBLOCK)) w
      in case syscall_ret (r_ret r) ''inotify_init1'' w1 of
           Inl e \<Rightarrow> ((Inl e, R), w1)
         | Inr _ \<Rightarrow>
             (case fd_new (r_ret r) ''inotify'' w1 of
                Inl e \<Rightarrow> ((Inl e, R), w1)
              | Inr fd_obj \<Rightarrow>
                  (let ((res, R1), w2) = add K R fd_obj True False w1
                   in case res of
                        Inl e \<Rightarrow> ((Inl e, R1), drop_fd K fd_obj w2)
                      | Inr tok \<Rightarrow> ((Inr fd_obj, R1\<lparr>inotify_token := Some tok\<rparr>), w2))))"

definition setup_signalfd ::
  "'k os \<Rightarrow> reactor \<Rightarrow> 'k world \<Rightarrow> ((sys_error + unit) \<times> reactor) \<times> 'k world" where
  "setup_signalfd K R w =
     (let mask = {SIGCHLD};
          (r, w1) = sys K (Sigprocmask SIG_BLOCK mask) w
      in case syscall_ret (r_ret r) ''sigprocmask'' w1 of
           Inl e \<Rightarrow> ((Inl e, R), w1)
         | Inr _ \<Rightarrow>
             (let (sfd, w2) = sys K (Signalfd (-1) mask (SFD_NONBLOCK OR SFD_CLOEXEC)) w1
              in case syscall_ret (r_ret sfd) ''signalfd'' w2 of
                   Inl e \<Rightarrow> ((Inl e, R), w2)
                 | Inr _ \<Rightarrow>
                     (case fd_new (r_ret sfd) ''signalfd'' w2 of
                        Inl e \<Rightarrow> ((Inl e, R), w2)
                      | Inr f \<Rightarrow>
                          (let ((res, R1), w3) = add K R f True False w2
                           in case res of
                                Inl e \<Rightarrow> ((Inl e, R1), drop_fd K f w3)
                              | Inr tok \<Rightarrow>
                                  ((Inr (), R1\<lparr>signalfd := Some f, sigchld_token := Some tok\<rparr>),
                                   drop_opt_fd K (signalfd R1) w3)))))"

partial_function (option) drain_signalfd_loop ::
  "'k os \<Rightarrow> fd \<Rightarrow> byte list \<Rightarrow> 'k world \<Rightarrow> 'k world option" where
  "drain_signalfd_loop K f buf w =
     do {
       ((res, buf1), w1) \<leftarrow> read_slice K f buf w;
       (case res of
          Inr (Some n) \<Rightarrow> if n < length buf1 then Some w1 else drain_signalfd_loop K f buf1 w1
        | Inr None \<Rightarrow> Some w1
        | Inl _ \<Rightarrow> Some w1)
     }"

definition drain_signalfd :: "'k os \<Rightarrow> reactor \<Rightarrow> 'k world \<Rightarrow> 'k world option" where
  "drain_signalfd K R w =
     (case signalfd R of
        None \<Rightarrow> Some w
      | Some f \<Rightarrow> drain_signalfd_loop K f (replicate SIGNALFD_SIGINFO_SIZE 0) w)"

section \<open>Waiting\<close>

text \<open>
  \<open>Vec::reserve\<close>: the capacity after a request for \<open>additional\<close> more elements than the vector's
  length. \<open>max_events as i32\<close> keeps the low 32 bits.
\<close>

definition vec_reserve :: "nat \<Rightarrow> nat \<Rightarrow> nat \<Rightarrow> nat" where
  "vec_reserve cap len additional =
     (if additional \<le> cap - len then cap else max 4 (max (2 * cap) (len + additional)))"

definition as_i32 :: "nat \<Rightarrow> int" where
  "as_i32 n = sint (word_of_nat n :: 32 word)"

definition convert_event :: "u32 \<times> u64 \<Rightarrow> event" where
  "convert_event ev =
     (let is_read = fst ev AND EPOLLIN \<noteq> 0;
          is_write = fst ev AND EPOLLOUT \<noteq> 0;
          is_err = fst ev AND (EPOLLERR OR EPOLLHUP) \<noteq> 0
      in \<lparr>ev_token = Token (snd ev), ev_readable = is_read \<or> is_err,
          ev_writable = is_write \<or> is_err, ev_error = is_err\<rparr>)"

definition wait ::
  "'k os \<Rightarrow> reactor \<Rightarrow> event list \<Rightarrow> nat \<Rightarrow> int \<Rightarrow> 'k world
     \<Rightarrow> ((sys_error + nat) \<times> reactor \<times> event list) \<times> 'k world" where
  "wait K R buffer max_events timeout w =
     (let buffer = []
      in if max_events = 0 then ((Inr 0, R, buffer), w)
         else
           let R1 = (if events_cap R < max_events
                     then R\<lparr>events_cap := vec_reserve (events_cap R) (length (events_buf R))
                              (max_events - length (events_buf R))\<rparr>
                     else R);
               (n, w1) = sys K (EpollWait (epfd R1) (as_i32 max_events) timeout) w
           in if 0 < r_ret n
              then let R2 = R1\<lparr>events_buf := take (nat (r_ret n)) (out_events (r_out n))\<rparr>
                   in ((Inr (nat (r_ret n)), R2, buffer @ map convert_event (events_buf R2)), w1)
              else if r_ret n < 0
              then (if last_errno w1 = EINTR then ((Inr 0, R1, buffer), w1)
                    else ((Inl (sys_err (last_errno w1) ''epoll_wait''), R1, buffer), w1))
              else ((Inr 0, R1, buffer), w1))"

definition drop_reactor :: "'k os \<Rightarrow> reactor \<Rightarrow> 'k world \<Rightarrow> 'k world" where
  "drop_reactor K R w =
     (let w1 = (if 0 \<le> epfd R then snd (sys K (Close (epfd R)) w) else w)
      in drop_opt_fd K (signalfd R) w1)"

section \<open>Descriptors of the reactor\<close>

definition reactor_owns :: "reactor \<Rightarrow> int multiset" where
  "reactor_owns R = nonneg (epfd R) + opt_mset fd_owns (signalfd R)"

lemma moves_neutral: "sys K c w = (r, w') \<Longrightarrow> own_step (c, r) A = Some A \<Longrightarrow> moves w w' A A"
  by (rule moves_sys)

lemma add_spec:
  assumes "add K R f readable writable w = ((res, R'), w')"
  shows "R' = R\<lparr>next_token := next_token R + 1\<rparr>" and "moves w w' A A"
    and "res = Inr tok \<Longrightarrow> tok = Token (next_token R)"
  using assms
  by (auto simp: add_def add_with_token_def Let_def moves_sys split: prod.splits sum.splits)

lemma add_issues:
  "add K R f readable writable w = ((Inr tok, R'), w') \<Longrightarrow>
     tok = Token (next_token R) \<and> R' = R\<lparr>next_token := next_token R + 1\<rparr>"
  using add_spec(1,3) by blast

lemma add_owns: "add K R f readable writable w = ((res, R'), w') \<Longrightarrow> reactor_owns R' = reactor_owns R"
  by (auto dest: add_spec(1) simp: reactor_owns_def)

lemma del_moves: "moves w (del K R f w) A A"
proof -
  obtain r w1 where "sys K (EpollCtlDel (epfd R) (raw f)) w = (r, w1)" by fastforce
  then show ?thesis by (simp add: del_def del_raw_def moves_sys)
qed

lemma wait_spec:
  assumes "wait K R buffer max_events timeout w = ((res, R', buffer'), w')"
  shows "moves w w' A A" and "epfd R' = epfd R" and "signalfd R' = signalfd R"
    and "next_token R' = next_token R" and "inotify_token R' = inotify_token R"
  using assms
  by (auto simp: wait_def Let_def moves_sys split: prod.splits if_splits)

lemma reactor_new_moves:
  assumes "reactor_new K w = (res, w')"
  shows "moves w w' {#} (case res of Inl _ \<Rightarrow> {#} | Inr R \<Rightarrow> reactor_owns R)"
proof -
  obtain r where s: "sys K (EpollCreate1 EPOLL_CLOEXEC) w = (r, w')"
    using assms by (auto simp: reactor_new_def split: prod.splits sum.splits)
  have "own_step (EpollCreate1 EPOLL_CLOEXEC, r) {#} = Some (nonneg (r_ret r))"
    by (simp add: own_step_def)
  with s have "moves w w' {#} (nonneg (r_ret r))" by (rule moves_sys)
  with assms s show ?thesis
    by (cases "r_ret r = -1") (auto simp: reactor_new_def reactor_owns_def)
qed

lemma drop_reactor_moves: "moves w (drop_reactor K R w) (reactor_owns R) {#}"
proof -
  let ?w1 = "if 0 \<le> epfd R then snd (sys K (Close (epfd R)) w) else w"
  have "moves w ?w1 (nonneg (epfd R)) {#}"
    using drop_fd_moves [of w K "Fd (epfd R)"] by (cases "0 \<le> epfd R") (simp_all add: drop_fd_def)
  from moves_frame [OF this, of "opt_mset fd_owns (signalfd R)"]
  have "moves w ?w1 (reactor_owns R) (opt_mset fd_owns (signalfd R))"
    by (simp add: reactor_owns_def)
  then show ?thesis
    unfolding drop_reactor_def Let_def by (rule moves_trans) (rule drop_opt_fd_moves)
qed

lemma setup_inotify_spec:
  assumes "setup_inotify K R w = ((res, R'), w')"
  shows "moves w w' {#} (case res of Inl _ \<Rightarrow> {#} | Inr f \<Rightarrow> fd_owns f)"
    and "reactor_owns R' = reactor_owns R"
proof -
  let ?c = "InotifyInit1 (IN_CLOEXEC OR IN_NONBLOCK)"
  obtain r w1 where s: "sys K ?c w = (r, w1)" by fastforce
  have "own_step (?c, r) {#} = Some (nonneg (r_ret r))" by (simp add: own_step_def)
  with s have m: "moves w w1 {#} (nonneg (r_ret r))" by (rule moves_sys)
  show "moves w w' {#} (case res of Inl _ \<Rightarrow> {#} | Inr f \<Rightarrow> fd_owns f)"
  proof (cases "r_ret r < 0")
    case True
    with assms s m show ?thesis
      by (cases "r_ret r = -1") (auto simp: setup_inotify_def fd_new_def)
  next
    case False
    obtain ares R1 w2 where a: "add K R (Fd (r_ret r)) True False w1 = ((ares, R1), w2)"
      by (metis prod.exhaust)
    have o: "fd_owns (Fd (r_ret r)) = nonneg (r_ret r)" by (simp add: fd_owns_def)
    have m2: "moves w w2 {#} (nonneg (r_ret r))" by (rule moves_trans [OF m add_spec(2) [OF a]])
    have m3: "moves w (drop_fd K (Fd (r_ret r)) w2) {#} {#}"
      using moves_trans [OF m2] drop_fd_moves [of w2 K "Fd (r_ret r)"] by simp
    show ?thesis
      using assms s a False m2 m3 o
      by (cases ares) (auto simp: setup_inotify_def fd_new_def)
  qed
  show "reactor_owns R' = reactor_owns R"
    using assms s
    by (auto simp: setup_inotify_def reactor_owns_def Let_def dest!: add_spec(1)
        split: prod.splits sum.splits)
qed

lemma setup_signalfd_cases:
  assumes "setup_signalfd K R w = ((res, R'), w')"
  obtains (unmasked) r1 where "sys K (Sigprocmask SIG_BLOCK {SIGCHLD}) w = (r1, w')" "R' = R"
  | (unopened) r1 w1 r2 where "sys K (Sigprocmask SIG_BLOCK {SIGCHLD}) w = (r1, w1)"
      "sys K (Signalfd (-1) {SIGCHLD} (SFD_NONBLOCK OR SFD_CLOEXEC)) w1 = (r2, w')" "r_ret r2 < 0" "R' = R"
  | (opened) r1 w1 r2 w2 ares w3 where "sys K (Sigprocmask SIG_BLOCK {SIGCHLD}) w = (r1, w1)"
      "sys K (Signalfd (-1) {SIGCHLD} (SFD_NONBLOCK OR SFD_CLOEXEC)) w1 = (r2, w2)" "0 \<le> r_ret r2"
      "add K R (Fd (r_ret r2)) True False w2 = ((ares, R\<lparr>next_token := next_token R + 1\<rparr>), w3)"
      "case ares of
         Inl e \<Rightarrow> R' = R\<lparr>next_token := next_token R + 1\<rparr> \<and> w' = drop_fd K (Fd (r_ret r2)) w3
       | Inr tok \<Rightarrow> R' = R\<lparr>next_token := next_token R + 1, signalfd := Some (Fd (r_ret r2)), sigchld_token := Some tok\<rparr> \<and>
           w' = drop_opt_fd K (signalfd R) w3"
proof -
  obtain r1 w1 where s1: "sys K (Sigprocmask SIG_BLOCK {SIGCHLD}) w = (r1, w1)" by fastforce
  obtain r2 w2 where s2: "sys K (Signalfd (-1) {SIGCHLD} (SFD_NONBLOCK OR SFD_CLOEXEC)) w1 = (r2, w2)" by fastforce
  obtain ares R1 w3 where a: "add K R (Fd (r_ret r2)) True False w2 = ((ares, R1), w3)" by (metis prod.exhaust)
  note R1 = add_spec(1) [OF a]
  note eq = assms [unfolded setup_signalfd_def Let_def s1 s2 prod.case, symmetric]
  consider "r_ret r1 = -1" | "r_ret r1 \<noteq> -1" "r_ret r2 < 0" | "r_ret r1 \<noteq> -1" "0 \<le> r_ret r2" by linarith
  then show thesis
  proof cases
    case 1
    with eq s1 show thesis by (intro unmasked) simp_all
  next
    case 2
    with eq s1 s2 show thesis
      by (cases "r_ret r2 = -1"; intro unopened [OF _ _ 2(2)]) (simp_all add: fd_new_def)
  next
    case 3
    with eq s1 s2 a R1 show thesis
      by (cases ares; intro opened [of r1 w1 r2 w2 ares w3]) (auto simp: fd_new_def)
  qed
qed

lemma setup_signalfd_moves:
  assumes "setup_signalfd K R w = ((res, R'), w')"
  shows "moves w w' (reactor_owns R) (reactor_owns R')"
  using assms
proof (cases rule: setup_signalfd_cases)
  case (unmasked r1)
  show ?thesis unfolding unmasked(2) by (rule moves_sys [OF unmasked(1)]) simp
next
  case (unopened r1 w1 r2)
  have m1: "moves w w1 (reactor_owns R) (reactor_owns R)" by (rule moves_sys [OF unopened(1)]) simp
  show ?thesis
    unfolding unopened(4)
    by (rule moves_trans [OF m1 moves_sys [OF unopened(2)]]) (use unopened(3) in \<open>simp add: own_step_def\<close>)
next
  case (opened r1 w1 r2 w2 ares w3)
  let ?f = "Fd (r_ret r2)" and ?A = "reactor_owns R + nonneg (r_ret r2)"
  have m1: "moves w w1 (reactor_owns R) (reactor_owns R)" by (rule moves_sys [OF opened(1)]) simp
  have m2: "moves w1 w2 (reactor_owns R) ?A" by (rule moves_sys [OF opened(2)]) (simp add: own_step_def)
  note m3 = moves_trans [OF moves_trans [OF m1 m2] add_spec(2) [OF opened(4)]]
  have d1: "moves w3 (drop_fd K ?f w3) ?A (reactor_owns R)"
    using moves_frame [OF drop_fd_moves [of w3 K ?f], of "reactor_owns R"] by (simp add: add.commute)
  have d2: "moves w3 (drop_opt_fd K (signalfd R) w3) ?A (nonneg (epfd R) + nonneg (r_ret r2))"
    using moves_frame [OF drop_opt_fd_moves [of w3 K "signalfd R"],
        of "nonneg (epfd R) + nonneg (r_ret r2)"]
    by (simp add: reactor_owns_def ac_simps)
  show ?thesis
    using opened(5) moves_trans [OF m3 d1] moves_trans [OF m3 d2]
    by (cases ares) (simp_all add: reactor_owns_def fd_owns_def)
qed

section \<open>The tokens a reactor issues\<close>

text \<open>
  \<open>issued K R ts n\<close>: the reactor \<open>R\<close> is reachable from a new one by \<open>n\<close> operations, which issued
  the tokens \<open>ts\<close>, the newest first.
\<close>

inductive issued :: "'k os \<Rightarrow> reactor \<Rightarrow> token list \<Rightarrow> nat \<Rightarrow> bool" for K where
  made: "reactor_new K w = (Inr R, w') \<Longrightarrow> issued K R [] 0"
| added: "issued K R ts n \<Longrightarrow> add K R f rd wr w = ((Inr tok, R'), w') \<Longrightarrow> issued K R' (tok # ts) (Suc n)"
| refused: "issued K R ts n \<Longrightarrow> add K R f rd wr w = ((Inl e, R'), w') \<Longrightarrow> issued K R' ts (Suc n)"
| waited: "issued K R ts n \<Longrightarrow> wait K R buffer max_events timeout w = ((res, R', buffer'), w') \<Longrightarrow>
    issued K R' ts (Suc n)"
| watched: "issued K R ts n \<Longrightarrow> setup_inotify K R w = ((Inr f, R'), w') \<Longrightarrow>
    inotify_token R' = Some tok \<Longrightarrow> issued K R' (tok # ts) (Suc n)"
| not_watched: "issued K R ts n \<Longrightarrow> setup_inotify K R w = ((Inl e, R'), w') \<Longrightarrow> issued K R' ts (Suc n)"
| signalled: "issued K R ts n \<Longrightarrow> setup_signalfd K R w = ((Inr (), R'), w') \<Longrightarrow>
    sigchld_token R' = Some tok \<Longrightarrow> issued K R' (tok # ts) (Suc n)"
| not_signalled: "issued K R ts n \<Longrightarrow> setup_signalfd K R w = ((Inl e, R'), w') \<Longrightarrow> issued K R' ts (Suc n)"

text \<open>A set-up that succeeds issues the next token; one that fails may have used it up.\<close>

lemma setup_inotify_token:
  "setup_inotify K R w = ((Inr f, R'), w') \<Longrightarrow>
     inotify_token R' = Some (Token (next_token R)) \<and> next_token R' = next_token R + 1"
  "setup_inotify K R w = ((Inl e, R'), w') \<Longrightarrow> next_token R' = next_token R \<or> next_token R' = next_token R + 1"
  by (auto simp: setup_inotify_def Let_def dest: add_issues add_spec(1) split: prod.splits sum.splits)

lemma setup_signalfd_token:
  "setup_signalfd K R w = ((Inr u, R'), w') \<Longrightarrow>
     sigchld_token R' = Some (Token (next_token R)) \<and> next_token R' = next_token R + 1"
  "setup_signalfd K R w = ((Inl e, R'), w') \<Longrightarrow> next_token R' = next_token R \<or> next_token R' = next_token R + 1"
  by (auto simp: setup_signalfd_def Let_def dest: add_issues add_spec(1) split: prod.splits sum.splits)

definition issued_inv :: "u64 \<Rightarrow> token list \<Rightarrow> nat \<Rightarrow> bool" where
  "issued_inv next ts n \<longleftrightarrow>
     (\<exists>m \<le> n. next = word_of_nat (Suc m) \<and> sorted_wrt (>) ts \<and>
        (\<forall>t \<in> set ts. 0 < unat (val t) \<and> unat (val t) \<le> m))"

lemma issued_inv_grow:
  assumes "issued_inv nxt ts n" and "Suc n < 2 ^ 64 - 1"
  shows "issued_inv (nxt + 1) (Token nxt # ts) (Suc n)" and "issued_inv (nxt + 1) ts (Suc n)"
proof -
  obtain m where m: "m \<le> n" "nxt = word_of_nat (Suc m)" "sorted_wrt (>) ts"
    "\<forall>t \<in> set ts. 0 < unat (val t) \<and> unat (val t) \<le> m"
    using assms(1) unfolding issued_inv_def by blast
  have u: "unat nxt = Suc m"
    unfolding m(2) unat_of_nat using m(1) assms(2) by (subst mod_less) simp_all
  have n: "nxt + 1 = word_of_nat (Suc (Suc m))" by (simp add: m(2))
  have lt: "t < Token nxt" if "t \<in> set ts" for t
    using that m(4) u by (simp add: less_token_def word_less_nat_alt) (metis le_imp_less_Suc)
  show "issued_inv (nxt + 1) (Token nxt # ts) (Suc n)"
    unfolding issued_inv_def
    by (rule exI [of _ "Suc m"]) (use m u n lt in auto)
  show "issued_inv (nxt + 1) ts (Suc n)"
    unfolding issued_inv_def
    by (rule exI [of _ "Suc m"]) (use m n in auto)
qed

lemma issued_inv_step:
  assumes "issued_inv nxt ts n" and "Suc n < 2 ^ 64 - 1" and "nxt' = nxt \<or> nxt' = nxt + 1"
  shows "issued_inv nxt' ts (Suc n)"
proof -
  have "issued_inv nxt ts (Suc n)" using assms(1) by (auto simp: issued_inv_def intro: le_SucI)
  with issued_inv_grow(2) [OF assms(1,2)] assms(3) show ?thesis by blast
qed

lemma issued_invariant:
  "issued K R ts n \<Longrightarrow> n < 2 ^ 64 - 1 \<Longrightarrow> issued_inv (next_token R) ts n"
proof (induction rule: issued.induct)
  case (made w R w')
  then have "next_token R = 1" by (auto simp: reactor_new_def split: prod.splits sum.splits)
  then show ?case by (simp add: issued_inv_def)
next
  case (added R ts n f rd wr w tok R' w')
  then have "issued_inv (next_token R) ts n" by simp
  from issued_inv_grow(1) [OF this] added.prems show ?case
    using add_spec(1,3) [OF added.hyps(2)] by simp
next
  case (refused R ts n f rd wr w e R' w')
  then have "issued_inv (next_token R) ts n" by simp
  from issued_inv_grow(2) [OF this] refused.prems show ?case
    using add_spec(1) [OF refused.hyps(2)] by simp
next
  case (waited R ts n buffer max_events timeout w res R' buffer' w')
  then have "issued_inv (next_token R) ts n" by simp
  then show ?case
    using wait_spec(4) [OF waited.hyps(2)] by (auto simp: issued_inv_def intro: le_SucI)
next
  case (watched R ts n w f R' w' tok)
  then have "issued_inv (next_token R) ts n" by simp
  from issued_inv_grow(1) [OF this] watched.prems show ?case
    using setup_inotify_token(1) [OF watched.hyps(2)] watched.hyps(3) by simp
next
  case (not_watched R ts n w e R' w')
  then have "issued_inv (next_token R) ts n" by simp
  from issued_inv_step [OF this not_watched.prems setup_inotify_token(2) [OF not_watched.hyps(2)]] show ?case .
next
  case (signalled R ts n w R' w' tok)
  then have "issued_inv (next_token R) ts n" by simp
  from issued_inv_grow(1) [OF this] signalled.prems show ?case
    using setup_signalfd_token(1) [OF signalled.hyps(2)] signalled.hyps(3) by simp
next
  case (not_signalled R ts n w e R' w')
  then have "issued_inv (next_token R) ts n" by simp
  from issued_inv_step [OF this not_signalled.prems setup_signalfd_token(2) [OF not_signalled.hyps(2)]] show ?case .
qed

section \<open>Properties\<close>

text \<open>C17. Unique tokens. As long as fewer than \<open>2 ^ 64 - 1\<close> operations were made on it, a reactor has
  never issued the same token twice: the tokens it handed out, by \<open>add\<close> or for its own inotify and
  signal descriptors, are strictly increasing, and none is 0, whatever waits, refused registrations and
  failed set-ups came in between. The bound is there because the counter wraps at \<open>2 ^ 64\<close>.\<close>

theorem tokens_strictly_increase:
  assumes "issued K R ts n" and "n < 2 ^ 64 - 1"
  shows "sorted_wrt (>) ts \<and> distinct ts \<and> Token 0 \<notin> set ts"
proof -
  from issued_invariant [OF assms] have s: "sorted_wrt (>) ts"
    and "\<forall>t \<in> set ts. 0 < unat (val t)"
    unfolding issued_inv_def by blast+
  moreover have "distinct ts" using s by (induction ts) auto
  ultimately show ?thesis by force
qed

theorem tokens_strictly_increase_witness:
  "\<exists>R. issued demo_os R [Token 2, Token 1] 2 \<and> distinct [Token 2, Token 1]"
proof -
  let ?R0 = "\<lparr>epfd = 7, next_token = 1, events_buf = [], events_cap = 64,
    signalfd = None, sigchld_token = None, inotify_token = None\<rparr>"
  have "fst (reactor_new demo_os (demo_world [] [] [ok_reply 7 NoOut])) = Inr ?R0"
    by (simp add: reactor_new_def demo_run)
  then have i0: "issued demo_os ?R0 [] 0" by (metis issued.made prod.collapse)
  have "fst (add demo_os ?R0 (Fd 3) True False (demo_world [] [] []))
      = (Inr (Token 1), ?R0\<lparr>next_token := 2\<rparr>)"
    by (simp add: add_def add_with_token_def demo_run)
  then have i1: "issued demo_os (?R0\<lparr>next_token := 2\<rparr>) [Token 1] (Suc 0)"
    using issued.added [OF i0] by (metis prod.collapse)
  have "fst (add demo_os (?R0\<lparr>next_token := 2\<rparr>) (Fd 4) False True (demo_world [] [] []))
      = (Inr (Token 2), ?R0\<lparr>next_token := 3\<rparr>)"
    by (simp add: add_def add_with_token_def demo_run)
  then have i2: "issued demo_os (?R0\<lparr>next_token := 3\<rparr>) [Token 2, Token 1] (Suc (Suc 0))"
    using issued.added [OF i1] by (metis prod.collapse)
  have "Suc (Suc 0) < 2 ^ 64 - 1" by simp
  from tokens_strictly_increase [OF i2 this] i2 show ?thesis by (auto simp: numeral_2_eq_2)
qed

text \<open>\<open>epoll_wait\<close> reports at most as many events as it was asked for, and fills that many.\<close>

definition epoll_bounded :: "'k os \<Rightarrow> bool" where
  "epoll_bounded K \<longleftrightarrow>
     (\<forall>n mx t k r k'. trap K (EpollWait n mx t) k = (r, k') \<longrightarrow> 0 < r_ret r \<longrightarrow>
        r_ret r \<le> mx \<and> int (length (out_events (r_out r))) = r_ret r)"

lemma convert_event_error: "ev_error (convert_event ev) \<Longrightarrow>
    ev_readable (convert_event ev) \<and> ev_writable (convert_event ev)"
  by (simp add: convert_event_def Let_def)

lemma vec_reserve_enough: "len + additional \<le> vec_reserve cap len additional" if "len \<le> cap"
  using that by (auto simp: vec_reserve_def)

lemma convert_event_bits:
  "ev_token (convert_event (bits, dat)) = Token dat"
  "ev_error (convert_event (bits, dat)) \<longleftrightarrow> bit bits 3 \<or> bit bits 4"
  "ev_readable (convert_event (bits, dat)) \<longleftrightarrow> bit bits 0 \<or> bit bits 3 \<or> bit bits 4"
  "ev_writable (convert_event (bits, dat)) \<longleftrightarrow> bit bits 2 \<or> bit bits 3 \<or> bit bits 4"
proof -
  have b: "bits AND 1 \<noteq> 0 \<longleftrightarrow> bit bits 0" "bits AND 4 \<noteq> 0 \<longleftrightarrow> bit bits 2"
    "bits AND 8 \<noteq> 0 \<longleftrightarrow> bit bits 3" "bits AND 16 \<noteq> 0 \<longleftrightarrow> bit bits 4"
    using and_exp_eq_0_iff_not_bit [of bits 0] and_exp_eq_0_iff_not_bit [of bits 2]
      and_exp_eq_0_iff_not_bit [of bits 3] and_exp_eq_0_iff_not_bit [of bits 4] by simp_all
  have "bits AND (8 OR 16) \<noteq> 0 \<longleftrightarrow> bit bits 3 \<or> bit bits 4"
    using b(3,4) by (simp only: bit.conj_disj_distrib or_eq_0_iff) blast
  with b show "ev_token (convert_event (bits, dat)) = Token dat"
    "ev_error (convert_event (bits, dat)) \<longleftrightarrow> bit bits 3 \<or> bit bits 4"
    "ev_readable (convert_event (bits, dat)) \<longleftrightarrow> bit bits 0 \<or> bit bits 3 \<or> bit bits 4"
    "ev_writable (convert_event (bits, dat)) \<longleftrightarrow> bit bits 2 \<or> bit bits 3 \<or> bit bits 4"
    unfolding convert_event_def Let_def epoll_defs by simp_all
qed

text \<open>C28. What \<open>wait\<close> delivers. Asked for no events it makes no call. Otherwise it makes one \<open>epoll_wait\<close>,
  with room for all the events it asks for, and its answer is the kernel's: as many events as the
  kernel reported, stored in order in the caller's vector, whose earlier contents are gone; no events
  when the time ran out or a signal interrupted; the errno otherwise. Each stored event has the
  reported data as its token, is an error if EPOLLERR (bit 3) or EPOLLHUP (bit 4) is reported, readable
  on EPOLLIN (bit 0) and writable on EPOLLOUT (bit 2), and both on an error.\<close>

theorem wait_delivers:
  assumes "wait K R buffer max_events timeout w = ((res, R', buffer'), w')"
    and "epoll_bounded K" and "length (events_buf R) \<le> events_cap R"
  shows "if max_events = 0 then res = Inr 0 \<and> buffer' = [] \<and> R' = R \<and> w' = w
     else \<exists>r. runs w w' [(EpollWait (epfd R) (as_i32 max_events) timeout, r)] \<and> max_events \<le> events_cap R' \<and>
       res = (if r_ret r < 0 \<and> r_errno r \<noteq> EINTR then Inl (sys_err (r_errno r) ''epoll_wait'')
              else if r_ret r < 0 then Inr 0 else Inr (nat (r_ret r))) \<and>
       length buffer' = (if 0 < r_ret r then nat (r_ret r) else 0) \<and>
       (if 0 < r_ret r
        then list_all2 (\<lambda>(bits, dat) ev. ev_token ev = Token dat \<and>
               (ev_error ev \<longleftrightarrow> bit bits 3 \<or> bit bits 4) \<and>
               (ev_readable ev \<longleftrightarrow> bit bits 0 \<or> bit bits 3 \<or> bit bits 4) \<and>
               (ev_writable ev \<longleftrightarrow> bit bits 2 \<or> bit bits 3 \<or> bit bits 4)) (out_events (r_out r)) buffer'
        else buffer' = [])"
proof (cases "max_events = 0")
  case True
  with assms(1) show ?thesis by (auto simp: wait_def)
next
  case False
  let ?R1 = "if events_cap R < max_events
     then R\<lparr>events_cap := vec_reserve (events_cap R) (length (events_buf R))
              (max_events - length (events_buf R))\<rparr>
     else R"
  have ep: "epfd ?R1 = epfd R" by simp
  obtain r where s: "sys K (EpollWait (epfd R) (as_i32 max_events) timeout) w = (r, w')"
    using assms(1) False unfolding wait_def Let_def ep by (auto split: prod.splits if_splits)
  have cap: "max_events \<le> events_cap ?R1"
    using vec_reserve_enough [OF assms(3), of "max_events - length (events_buf R)"] by auto
  have len: "length (out_events (r_out r)) = nat (r_ret r)" if "0 < r_ret r"
    using assms(2) sysD(2) [OF s] that unfolding epoll_bounded_def by fastforce
  have er: "last_errno w' = r_errno r" if "r_ret r < 0"
    using sysD(3) [OF s that] by (simp add: last_errno_def)
  note out = assms(1) [unfolded wait_def Let_def ep s prod.case, symmetric]
  have cap': "max_events \<le> events_cap R'" using out cap False by (auto split: if_splits)
  have res: "res = (if r_ret r < 0 \<and> r_errno r \<noteq> EINTR then Inl (sys_err (r_errno r) ''epoll_wait'')
      else if r_ret r < 0 then Inr 0 else Inr (nat (r_ret r)))"
    using out False er by (auto split: if_splits)
  have buf: "buffer' = (if 0 < r_ret r then map convert_event (out_events (r_out r)) else [])"
    using out False len by (auto split: if_splits)
  show ?thesis
    unfolding if_not_P [OF False]
  proof (intro exI [of _ r] conjI)
    show "length buffer' = (if 0 < r_ret r then nat (r_ret r) else 0)" using buf len by simp
    show "if 0 < r_ret r
        then list_all2 (\<lambda>(bits, dat) ev. ev_token ev = Token dat \<and>
               (ev_error ev \<longleftrightarrow> bit bits 3 \<or> bit bits 4) \<and>
               (ev_readable ev \<longleftrightarrow> bit bits 0 \<or> bit bits 3 \<or> bit bits 4) \<and>
               (ev_writable ev \<longleftrightarrow> bit bits 2 \<or> bit bits 3 \<or> bit bits 4)) (out_events (r_out r)) buffer'
        else buffer' = []"
      using buf by (auto simp: convert_event_bits list_all2_conv_all_nth split: prod.splits)
  qed (fact runs_sys [OF s] cap' res)+
qed

theorem wait_delivers_witness:
  "\<exists>K :: unit os. \<exists>w R' w'. epoll_bounded K \<and>
     wait K \<lparr>epfd = 7, next_token = 1, events_buf = [], events_cap = 64, signalfd = None,
        sigchld_token = None, inotify_token = None\<rparr> [] 64 (-1) w
       = ((Inr 1, R', [\<lparr>ev_token = Token 3, ev_readable = True, ev_writable = True, ev_error = True\<rparr>]), w') \<and>
     (\<exists>r. runs w w' [(EpollWait 7 64 (-1), r)])"
proof -
  let ?K = "\<lparr>trap = (\<lambda>c k. (\<lparr>r_ret = (case c of EpollWait n mx t \<Rightarrow> if 1 \<le> mx then 1 else 0 | _ \<Rightarrow> 0),
        r_errno = 0, r_out = OutEvents [(16, 3)]\<rparr>, k)),
     os_WIFEXITED = (\<lambda>_. True), os_WEXITSTATUS = (\<lambda>_. 0), os_WIFSIGNALED = (\<lambda>_. False),
     os_WTERMSIG = (\<lambda>_. 0)\<rparr> :: unit os"
  let ?R = "\<lparr>epfd = 7, next_token = 1, events_buf = [], events_cap = 64, signalfd = None,
     sigchld_token = None, inotify_token = None\<rparr>"
  let ?w = "\<lparr>kst = (), errno = 0, trace = []\<rparr>"
  have b: "epoll_bounded ?K" by (auto simp: epoll_bounded_def)
  obtain R' w' where r: "wait ?K ?R [] 64 (-1) ?w
       = ((Inr 1, R', [\<lparr>ev_token = Token 3, ev_readable = True, ev_writable = True, ev_error = True\<rparr>]), w')"
    by (simp add: wait_def as_i32_def sys_def convert_event_def epoll_defs)
  have "as_i32 64 = 64" by (simp add: as_i32_def)
  with wait_delivers [OF r b] have "\<exists>r. runs ?w w' [(EpollWait 7 64 (-1), r)]" by auto
  with r b show ?thesis by blast
qed

text \<open>C29. Registration. A successful \<open>add\<close> made exactly one \<open>epoll_ctl(ADD)\<close> for the descriptor, always
  edge-triggered, with \<open>EPOLLIN\<close> and \<open>EPOLLOUT\<close> exactly as requested, and every event the kernel
  later reports with that registration's data carries the returned token.\<close>

theorem add_registers:
  assumes "add K R f readable writable w = ((Inr tok, R'), w')"
  shows "\<exists>ev r. runs w w' [(EpollCtlAdd (epfd R) (raw f) ev (val tok), r)] \<and> r_ret r \<noteq> -1 \<and>
     ev AND EPOLLET \<noteq> 0 \<and> (ev AND EPOLLIN \<noteq> 0 \<longleftrightarrow> readable) \<and> (ev AND EPOLLOUT \<noteq> 0 \<longleftrightarrow> writable) \<and>
     (\<forall>bits. ev_token (convert_event (bits, val tok)) = tok)"
proof -
  let ?ev = "interest readable writable"
  have tok: "tok = Token (next_token R)" using add_issues [OF assms] by simp
  obtain r where s: "sys K (EpollCtlAdd (epfd R) (raw f) ?ev (next_token R)) w = (r, w')"
    and ok: "r_ret r \<noteq> -1"
    using assms by (auto simp: add_def add_with_token_def syscall_ret_def Let_def
        split: prod.splits sum.splits if_splits)
  have "?ev AND EPOLLET \<noteq> 0" "?ev AND EPOLLIN \<noteq> 0 \<longleftrightarrow> readable" "?ev AND EPOLLOUT \<noteq> 0 \<longleftrightarrow> writable"
    by (cases readable; cases writable; simp add: interest_def epoll_defs)+
  moreover have "\<forall>bits. ev_token (convert_event (bits, val tok)) = tok"
    by (simp add: convert_event_def Let_def)
  ultimately show ?thesis
    using runs_sys [OF s] ok tok by auto
qed

theorem add_registers_witness:
  "\<exists>w' ev r. runs (demo_world [] [] []) w' [(EpollCtlAdd 7 3 ev 1, r)] \<and> ev AND EPOLLIN \<noteq> 0"
proof -
  let ?R = "\<lparr>epfd = 7, next_token = 1, events_buf = [], events_cap = 64, signalfd = None,
     sigchld_token = None, inotify_token = None\<rparr>"
  obtain w' where r: "add demo_os ?R (Fd 3) True False (demo_world [] [] [])
      = ((Inr (Token 1), ?R\<lparr>next_token := 2\<rparr>), w')"
    by (simp add: add_def add_with_token_def demo_run)
  show ?thesis using add_registers [OF r] by auto
qed

text \<open>C36. The set-up calls of the reactor leak nothing. Whatever fails in them, \<open>setup_inotify\<close> ends
  owning the returned descriptor or none, \<open>setup_signalfd\<close> leaves the reactor owning its epoll
  descriptor and the signalfd it stores (a replaced one is closed), and dropping a reactor closes
  all it owns.\<close>

theorem reactor_setup_owns:
  "(case setup_inotify K R w of ((res, R'), w') \<Rightarrow>
      moves w w' {#} (case res of Inl _ \<Rightarrow> {#} | Inr f \<Rightarrow> fd_owns f) \<and> reactor_owns R' = reactor_owns R) \<and>
   (case setup_signalfd K R w of ((res, R'), w') \<Rightarrow> moves w w' (reactor_owns R) (reactor_owns R')) \<and>
   moves w (drop_reactor K R w) (reactor_owns R) {#}"
  using setup_inotify_spec [of K R w] setup_signalfd_moves [of K R w] drop_reactor_moves [of w K R]
  by (simp split: prod.split)

end
