(* ===== verification/Drain.thy ===== *)
theory Drain
  imports Buffer Writer Reactor
begin

text \<open>
  \<open>DrainState\<close> of \<^verbatim>\<open>src/src/io/drain.rs\<close>: the parent's ends of the child's pipes, each in a slot with
  its reactor token, the output buffer and the stdin writer. Where Rust drops a slot or a
  descriptor the model calls \<open>drop_fd\<close>, in Rust's drop order: locals in reverse order of
  declaration, then parameters in reverse order, and the fields of a dropped struct in order.
\<close>

record fd_slot =
  slot_token :: "token option"
  slot_fd :: fd

record 's drain_state =
  stdout_slot :: "fd_slot option"
  stderr_slot :: "fd_slot option"
  stdin_slot :: "fd_slot option"
  drain_buffer :: buffer_state
  drain_writer :: writer_state
  drain_early_exit :: "'s closure option"

definition drop_slot :: "'k os \<Rightarrow> fd_slot option \<Rightarrow> 'k world \<Rightarrow> 'k world" where
  "drop_slot K s w = drop_opt_fd K (map_option slot_fd s) w"

definition drop_drain :: "'k os \<Rightarrow> 's drain_state \<Rightarrow> 'k world \<Rightarrow> 'k world" where
  "drop_drain K d w =
     drop_slot K (stdin_slot d) (drop_slot K (stderr_slot d) (drop_slot K (stdout_slot d) w))"

section \<open>Construction\<close>

text \<open>
  One of the three blocks of \<open>DrainState::new\<close>: a present descriptor is made non-blocking and moved
  into a slot without a token.
\<close>

definition new_slot :: "'k os \<Rightarrow> fd option \<Rightarrow> 'k world \<Rightarrow> (sys_error + fd_slot option) \<times> 'k world" where
  "new_slot K x w =
     (case x of
        None \<Rightarrow> (Inr None, w)
      | Some f \<Rightarrow>
          (let (res, w1) = set_nonblock K f w
           in case res of
                Inl e \<Rightarrow> (Inl e, w1)
              | Inr _ \<Rightarrow> (Inr (Some \<lparr>slot_token = None, slot_fd = f\<rparr>), w1)))"

definition drain_new ::
  "'k os \<Rightarrow> fd option \<Rightarrow> byte list option \<Rightarrow> fd option \<Rightarrow> fd option \<Rightarrow> nat \<Rightarrow> 's closure option
     \<Rightarrow> 'k world \<Rightarrow> (sys_error + 's drain_state) \<times> 'k world" where
  "drain_new K stdin_fd stdin_buf stdout_fd stderr_fd limit early_exit w =
     (let use_stdin = stdin_fd \<noteq> None \<and> stdin_buf \<noteq> None;
          (r1, w1) = new_slot K (if use_stdin then stdin_fd else None) w
      in case r1 of
           Inl e \<Rightarrow>
             (Inl e, drop_opt_fd K stdin_fd (drop_opt_fd K stdout_fd (drop_opt_fd K stderr_fd w1)))
         | Inr in_slot \<Rightarrow>
             (let stdin_left = (if use_stdin then None else stdin_fd);
                  (r2, w2) = new_slot K stdout_fd w1
              in case r2 of
                   Inl e \<Rightarrow>
                     (Inl e, drop_opt_fd K stdin_left (drop_opt_fd K stdout_fd
                               (drop_opt_fd K stderr_fd (drop_slot K in_slot w2))))
                 | Inr out_slot \<Rightarrow>
                     (let (r3, w3) = new_slot K stderr_fd w2
                      in case r3 of
                           Inl e \<Rightarrow>
                             (Inl e, drop_opt_fd K stdin_left (drop_opt_fd K stderr_fd
                                       (drop_slot K in_slot (drop_slot K out_slot w3))))
                         | Inr err_slot \<Rightarrow>
                             (Inr \<lparr>stdout_slot = out_slot, stderr_slot = err_slot,
                                   stdin_slot = in_slot, drain_buffer = buffer_new limit,
                                   drain_writer = writer_new stdin_buf,
                                   drain_early_exit = early_exit\<rparr>,
                              drop_opt_fd K stdin_left w3))))"

definition is_done :: "'s drain_state \<Rightarrow> bool" where
  "is_done d \<longleftrightarrow> stdin_slot d = None \<and> stdout_slot d = None \<and> stderr_slot d = None"

section \<open>Direct reading and writing\<close>

definition write_stdin ::
  "'k os \<Rightarrow> 's drain_state \<Rightarrow> 'k world
     \<Rightarrow> (((sys_error + bool) \<times> 's drain_state) \<times> 'k world) option" where
  "write_stdin K d w =
     (case stdin_slot d of
        None \<Rightarrow> Some ((Inr True, d), w)
      | Some s \<Rightarrow> do {
          ((res, wr), w1) \<leftarrow> write_to_fd K (drain_writer d) (slot_fd s) w;
          let d1 = d\<lparr>drain_writer := wr\<rparr>;
          (case res of
             Inl e \<Rightarrow> Some ((Inl e, d1), w1)
           | Inr True \<Rightarrow> Some ((Inr True, d1\<lparr>stdin_slot := None\<rparr>), drop_slot K (stdin_slot d1) w1)
           | Inr False \<Rightarrow> Some ((Inr False, d1), w1))
        })"

definition read_fd ::
  "'k os \<Rightarrow> 's drain_state \<Rightarrow> bool \<Rightarrow> 'k world
     \<Rightarrow> (((sys_error + bool) \<times> 's drain_state) \<times> 'k world) option" where
  "read_fd K d is_stdout w =
     (case (if is_stdout then stdout_slot d else stderr_slot d) of
        None \<Rightarrow> Some ((Inr True, d), w)
      | Some s \<Rightarrow> do {
          ((res, b, ee), w1) \<leftarrow>
             read_from_fd K (drain_buffer d) (slot_fd s) is_stdout (drain_early_exit d) w;
          let d1 = d\<lparr>drain_buffer := b, drain_early_exit := ee\<rparr>;
          (case res of
             Inl e \<Rightarrow> Some ((Inl e, d1), w1)
           | Inr True \<Rightarrow>
               if is_stdout
               then Some ((Inr True, d1\<lparr>stdout_slot := None\<rparr>), drop_slot K (stdout_slot d1) w1)
               else Some ((Inr True, d1\<lparr>stderr_slot := None\<rparr>), drop_slot K (stderr_slot d1) w1)
           | Inr False \<Rightarrow> Some ((Inr False, d1), w1))
        })"

definition take_all_slots :: "'s drain_state \<Rightarrow> fd_slot list \<times> 's drain_state" where
  "take_all_slots d =
     (let slots = [];
          slots = (case stdin_slot d of None \<Rightarrow> slots | Some s \<Rightarrow> slots @ [s]);
          slots = (case stdout_slot d of None \<Rightarrow> slots | Some s \<Rightarrow> slots @ [s]);
          slots = (case stderr_slot d of None \<Rightarrow> slots | Some s \<Rightarrow> slots @ [s])
      in (slots, d\<lparr>stdin_slot := None, stdout_slot := None, stderr_slot := None\<rparr>))"

section \<open>Reactor integration\<close>

text \<open>
  One of the three blocks of \<open>register_with_reactor\<close>: the slot is taken, registered and put back
  with its token; if \<open>add\<close> fails the taken slot is dropped.
\<close>

definition register_slot ::
  "'k os \<Rightarrow> fd_slot option \<Rightarrow> reactor \<Rightarrow> bool \<Rightarrow> bool \<Rightarrow> 'k world
     \<Rightarrow> ((sys_error + fd_slot option) \<times> reactor) \<times> 'k world" where
  "register_slot K x R readable writable w =
     (case x of
        None \<Rightarrow> ((Inr None, R), w)
      | Some s \<Rightarrow>
          (let ((res, R1), w1) = add K R (slot_fd s) readable writable w
           in case res of
                Inl e \<Rightarrow> ((Inl e, R1), drop_slot K (Some s) w1)
              | Inr tok \<Rightarrow> ((Inr (Some (s\<lparr>slot_token := Some tok\<rparr>)), R1), w1)))"

definition register_with_reactor ::
  "'k os \<Rightarrow> 's drain_state \<Rightarrow> reactor \<Rightarrow> 'k world
     \<Rightarrow> ((sys_error + unit) \<times> 's drain_state \<times> reactor) \<times> 'k world" where
  "register_with_reactor K d R w =
     (let ((r1, R1), w1) = register_slot K (stdin_slot d) R False True w
      in case r1 of
           Inl e \<Rightarrow> ((Inl e, d\<lparr>stdin_slot := None\<rparr>, R1), w1)
         | Inr s1 \<Rightarrow>
             (let d1 = d\<lparr>stdin_slot := s1\<rparr>;
                  ((r2, R2), w2) = register_slot K (stdout_slot d1) R1 True False w1
              in case r2 of
                   Inl e \<Rightarrow> ((Inl e, d1\<lparr>stdout_slot := None\<rparr>, R2), w2)
                 | Inr s2 \<Rightarrow>
                     (let d2 = d1\<lparr>stdout_slot := s2\<rparr>;
                          ((r3, R3), w3) = register_slot K (stderr_slot d2) R2 True False w2
                      in case r3 of
                           Inl e \<Rightarrow> ((Inl e, d2\<lparr>stderr_slot := None\<rparr>, R3), w3)
                         | Inr s3 \<Rightarrow> ((Inr (), d2\<lparr>stderr_slot := s3\<rparr>, R3), w3))))"

definition slot_matches :: "fd_slot option \<Rightarrow> token \<Rightarrow> bool" where
  "slot_matches x tok = (case x of None \<Rightarrow> False | Some s \<Rightarrow> slot_token s = Some tok)"

definition stdout_matches :: "'s drain_state \<Rightarrow> token \<Rightarrow> bool" where
  "stdout_matches d tok = slot_matches (stdout_slot d) tok"

definition stderr_matches :: "'s drain_state \<Rightarrow> token \<Rightarrow> bool" where
  "stderr_matches d tok = slot_matches (stderr_slot d) tok"

definition stdin_matches :: "'s drain_state \<Rightarrow> token \<Rightarrow> bool" where
  "stdin_matches d tok = slot_matches (stdin_slot d) tok"

text \<open>\<open>reactor.del\<close>, then the taken slot is dropped at the end of the block.\<close>

definition release_slot :: "'k os \<Rightarrow> fd_slot option \<Rightarrow> reactor \<Rightarrow> 'k world \<Rightarrow> 'k world" where
  "release_slot K x R w =
     (case x of None \<Rightarrow> w | Some s \<Rightarrow> drop_slot K (Some s) (del K R (slot_fd s) w))"

definition drop_stdout :: "'k os \<Rightarrow> 's drain_state \<Rightarrow> reactor \<Rightarrow> 'k world \<Rightarrow> 's drain_state \<times> 'k world" where
  "drop_stdout K d R w = (d\<lparr>stdout_slot := None\<rparr>, release_slot K (stdout_slot d) R w)"

definition drop_stderr :: "'k os \<Rightarrow> 's drain_state \<Rightarrow> reactor \<Rightarrow> 'k world \<Rightarrow> 's drain_state \<times> 'k world" where
  "drop_stderr K d R w = (d\<lparr>stderr_slot := None\<rparr>, release_slot K (stderr_slot d) R w)"

definition drop_stdin :: "'k os \<Rightarrow> 's drain_state \<Rightarrow> reactor \<Rightarrow> 'k world \<Rightarrow> 's drain_state \<times> 'k world" where
  "drop_stdin K d R w =
     (d\<lparr>stdin_slot := None, drain_writer := (drain_writer d)\<lparr>wr_buf := None\<rparr>\<rparr>,
      release_slot K (stdin_slot d) R w)"

definition handle_stdout_ready ::
  "'k os \<Rightarrow> 's drain_state \<Rightarrow> reactor \<Rightarrow> 'k world
     \<Rightarrow> (((sys_error + unit) \<times> 's drain_state) \<times> 'k world) option" where
  "handle_stdout_ready K d R w =
     (case stdout_slot d of
        None \<Rightarrow> Some ((Inr (), d), w)
      | Some s \<Rightarrow> do {
          ((res, b, ee), w1) \<leftarrow>
             read_from_fd K (drain_buffer d) (slot_fd s) True (drain_early_exit d) w;
          let d1 = d\<lparr>drain_buffer := b, drain_early_exit := ee\<rparr>;
          (case res of
             Inl e \<Rightarrow> Some ((Inl e, d1), w1)
           | Inr eof \<Rightarrow>
               if eof then (let (d2, w2) = drop_stdout K d1 R w1 in Some ((Inr (), d2), w2))
               else Some ((Inr (), d1), w1))
        })"

definition handle_stderr_ready ::
  "'k os \<Rightarrow> 's drain_state \<Rightarrow> reactor \<Rightarrow> 'k world
     \<Rightarrow> (((sys_error + unit) \<times> 's drain_state) \<times> 'k world) option" where
  "handle_stderr_ready K d R w =
     (case stderr_slot d of
        None \<Rightarrow> Some ((Inr (), d), w)
      | Some s \<Rightarrow> do {
          ((res, b, ee), w1) \<leftarrow>
             read_from_fd K (drain_buffer d) (slot_fd s) False (drain_early_exit d) w;
          let d1 = d\<lparr>drain_buffer := b, drain_early_exit := ee\<rparr>;
          (case res of
             Inl e \<Rightarrow> Some ((Inl e, d1), w1)
           | Inr eof \<Rightarrow>
               if eof then (let (d2, w2) = drop_stderr K d1 R w1 in Some ((Inr (), d2), w2))
               else Some ((Inr (), d1), w1))
        })"

definition handle_stdin_writable ::
  "'k os \<Rightarrow> 's drain_state \<Rightarrow> reactor \<Rightarrow> 'k world
     \<Rightarrow> (((sys_error + unit) \<times> 's drain_state) \<times> 'k world) option" where
  "handle_stdin_writable K d R w =
     (case stdin_slot d of
        None \<Rightarrow> Some ((Inr (), d), w)
      | Some s \<Rightarrow> do {
          ((res, wr), w1) \<leftarrow> write_to_fd K (drain_writer d) (slot_fd s) w;
          let d1 = d\<lparr>drain_writer := wr\<rparr>;
          (case res of
             Inl e \<Rightarrow> Some ((Inl e, d1), w1)
           | Inr done \<Rightarrow>
               if done then (let (d2, w2) = drop_stdin K d1 R w1 in Some ((Inr (), d2), w2))
               else Some ((Inr (), d1), w1))
        })"

text \<open>The buffers are moved out, then the rest of the state is dropped.\<close>

definition drain_into_parts ::
  "'k os \<Rightarrow> 's drain_state \<Rightarrow> 'k world \<Rightarrow> (byte list \<times> byte list) \<times> 'k world" where
  "drain_into_parts K d w = (buffer_into_parts (drain_buffer d), drop_drain K d w)"

section \<open>Descriptors of the drain\<close>

definition slot_owns :: "fd_slot option \<Rightarrow> int multiset" where
  "slot_owns x = opt_mset fd_owns (map_option slot_fd x)"

definition drain_owns :: "'s drain_state \<Rightarrow> int multiset" where
  "drain_owns d = slot_owns (stdout_slot d) + slot_owns (stderr_slot d) + slot_owns (stdin_slot d)"

lemma slot_owns_simps [simp]:
  "slot_owns None = {#}" "slot_owns (Some s) = fd_owns (slot_fd s)"
  by (simp_all add: slot_owns_def)

lemma drop_slot_moves: "moves w (drop_slot K s w) (slot_owns s) {#}"
  unfolding drop_slot_def slot_owns_def by (rule drop_opt_fd_moves)

lemma then_drop_fd: "moves w w1 A {#} \<Longrightarrow> moves w (drop_opt_fd K x w1) (A + opt_mset fd_owns x) {#}"
  by (rule moves_drop_seq [OF _ drop_opt_fd_moves])

lemma then_drop_slot: "moves w w1 A {#} \<Longrightarrow> moves w (drop_slot K x w1) (A + slot_owns x) {#}"
  by (rule moves_drop_seq [OF _ drop_slot_moves])

lemmas drop_seq = then_drop_fd then_drop_slot drop_opt_fd_moves drop_slot_moves

lemma drop_drain_moves: "moves w (drop_drain K d w) (drain_owns d) {#}"
  unfolding drop_drain_def drain_owns_def by (intro drop_seq)

lemma release_slot_moves: "moves w (release_slot K x R w) (slot_owns x) {#}"
proof (cases x)
  case None
  then show ?thesis by (simp add: release_slot_def)
next
  case (Some s)
  have "moves w (drop_slot K (Some s) (del K R (slot_fd s) w)) (slot_owns (Some s)) {#}"
    by (rule moves_trans [OF del_moves drop_slot_moves])
  with Some show ?thesis by (simp add: release_slot_def)
qed

lemma new_slot_spec:
  assumes "new_slot K x w = (res, w')"
  shows "moves w w' A A" and "res = Inr s \<Longrightarrow> slot_owns s = opt_mset fd_owns x"
  using assms
  by (auto simp: new_slot_def intro: set_nonblock_moves split: option.splits prod.splits sum.splits)

text \<open>\<open>DrainState::new\<close> fails at the first descriptor that cannot be made non-blocking.\<close>

lemma drain_new_cases:
  assumes "drain_new K stdin_fd stdin_buf stdout_fd stderr_fd limit ee w = (res, w')"
  obtains (no_stdin) e w1 where "new_slot K (if stdin_fd \<noteq> None \<and> stdin_buf \<noteq> None then stdin_fd else None) w = (Inl e, w1)"
      "res = Inl e" "w' = drop_opt_fd K stdin_fd (drop_opt_fd K stdout_fd (drop_opt_fd K stderr_fd w1))"
  | (no_stdout) x1 w1 e w2 where
      "new_slot K (if stdin_fd \<noteq> None \<and> stdin_buf \<noteq> None then stdin_fd else None) w = (Inr x1, w1)"
      "new_slot K stdout_fd w1 = (Inl e, w2)" "res = Inl e"
      "w' = drop_opt_fd K (if stdin_fd \<noteq> None \<and> stdin_buf \<noteq> None then None else stdin_fd)
         (drop_opt_fd K stdout_fd (drop_opt_fd K stderr_fd (drop_slot K x1 w2)))"
  | (no_stderr) x1 w1 x2 w2 e w3 where
      "new_slot K (if stdin_fd \<noteq> None \<and> stdin_buf \<noteq> None then stdin_fd else None) w = (Inr x1, w1)"
      "new_slot K stdout_fd w1 = (Inr x2, w2)" "new_slot K stderr_fd w2 = (Inl e, w3)" "res = Inl e"
      "w' = drop_opt_fd K (if stdin_fd \<noteq> None \<and> stdin_buf \<noteq> None then None else stdin_fd)
         (drop_opt_fd K stderr_fd (drop_slot K x1 (drop_slot K x2 w3)))"
  | (made) x1 w1 x2 w2 x3 w3 where
      "new_slot K (if stdin_fd \<noteq> None \<and> stdin_buf \<noteq> None then stdin_fd else None) w = (Inr x1, w1)"
      "new_slot K stdout_fd w1 = (Inr x2, w2)" "new_slot K stderr_fd w2 = (Inr x3, w3)"
      "res = Inr \<lparr>stdout_slot = x2, stderr_slot = x3, stdin_slot = x1, drain_buffer = buffer_new limit,
         drain_writer = writer_new stdin_buf, drain_early_exit = ee\<rparr>"
      "w' = drop_opt_fd K (if stdin_fd \<noteq> None \<and> stdin_buf \<noteq> None then None else stdin_fd) w3"
proof -
  obtain r1 w1 where s1: "new_slot K (if stdin_fd \<noteq> None \<and> stdin_buf \<noteq> None then stdin_fd else None) w = (r1, w1)"
    by fastforce
  obtain r2 w2 where s2: "new_slot K stdout_fd w1 = (r2, w2)" by fastforce
  obtain r3 w3 where s3: "new_slot K stderr_fd w2 = (r3, w3)" by fastforce
  note eq = assms [unfolded drain_new_def Let_def s1 s2 s3 prod.case, symmetric]
  show thesis
  proof (cases r1)
    case (Inl e)
    with eq s1 show thesis by (intro no_stdin) simp_all
  next
    case x1: (Inr x1)
    show thesis
    proof (cases r2)
      case (Inl e)
      with eq s1 s2 x1 show thesis by (intro no_stdout) simp_all
    next
      case (Inr x2)
      with eq s1 s2 s3 x1 show thesis by (cases r3; intro no_stderr made) simp_all
    qed
  qed
qed

lemma drain_new_moves:
  assumes "drain_new K stdin_fd stdin_buf stdout_fd stderr_fd limit ee w = (res, w')"
  shows "moves w w' (opt_mset fd_owns stdin_fd + opt_mset fd_owns stdout_fd + opt_mset fd_owns stderr_fd)
           (case res of Inl _ \<Rightarrow> {#} | Inr d \<Rightarrow> drain_owns d)"
proof -
  let ?use = "stdin_fd \<noteq> None \<and> stdin_buf \<noteq> None"
  let ?in = "opt_mset fd_owns (if ?use then stdin_fd else None)"
    and ?left = "opt_mset fd_owns (if ?use then None else stdin_fd)"
    and ?O = "opt_mset fd_owns stdout_fd" and ?E = "opt_mset fd_owns stderr_fd"
  have in_left: "opt_mset fd_owns stdin_fd = ?in + ?left" by simp
  note m = new_slot_spec(1) and o = new_slot_spec(2) [OF _ refl]
  show ?thesis
    using assms
  proof (cases rule: drain_new_cases)
    case (no_stdin e w1)
    have "moves w1 w' (?E + ?O + opt_mset fd_owns stdin_fd) {#}" unfolding no_stdin(3) by (intro drop_seq)
    from moves_trans [OF m [OF no_stdin(1)] this] show ?thesis by (simp add: no_stdin(2) ac_simps)
  next
    case (no_stdout x1 w1 e w2)
    have "moves w2 w' (slot_owns x1 + ?E + ?O + ?left) {#}" unfolding no_stdout(4) by (intro drop_seq)
    from moves_trans [OF moves_trans [OF m [OF no_stdout(1)] m [OF no_stdout(2)]] this]
    show ?thesis unfolding in_left by (simp add: no_stdout(3) o [OF no_stdout(1)] ac_simps)
  next
    case (no_stderr x1 w1 x2 w2 e w3)
    have "moves w3 w' (slot_owns x2 + slot_owns x1 + ?E + ?left) {#}" unfolding no_stderr(5) by (intro drop_seq)
    from moves_trans [OF moves_trans [OF moves_trans [OF m [OF no_stderr(1)] m [OF no_stderr(2)]] m [OF no_stderr(3)]] this]
    show ?thesis unfolding in_left by (simp add: no_stderr(4) o [OF no_stderr(1)] o [OF no_stderr(2)] ac_simps)
  next
    case (made x1 w1 x2 w2 x3 w3)
    have "moves w3 w' (?left + (?in + ?O + ?E)) (?in + ?O + ?E)"
      unfolding made(5) using moves_frame [OF drop_opt_fd_moves] by fastforce
    from moves_trans [OF moves_trans [OF moves_trans [OF m [OF made(1)] m [OF made(2)]] m [OF made(3)]] this]
    show ?thesis
      unfolding in_left by (simp add: made(4) drain_owns_def o [OF made(1)] o [OF made(2)] o [OF made(3)] ac_simps)
  qed
qed

section \<open>Registration\<close>

definition with_token :: "token \<Rightarrow> fd_slot \<Rightarrow> fd_slot" where
  "with_token tok s = s\<lparr>slot_token := Some tok\<rparr>"

lemma with_token_simps [simp]:
  "slot_token (with_token tok s) = Some tok" "slot_fd (with_token tok s) = slot_fd s"
  by (simp_all add: with_token_def)

lemma register_slot_spec:
  assumes "register_slot K x R rd wr w = ((res, R'), w')"
  shows "moves w w' (slot_owns x) (case res of Inl _ \<Rightarrow> {#} | Inr s \<Rightarrow> slot_owns s)"
    and "reactor_owns R' = reactor_owns R" and "epfd R' = epfd R"
    and "next_token R' = next_token R + (if x = None then 0 else 1)"
    and "\<forall>s. res = Inr s \<longrightarrow> s = map_option (with_token (Token (next_token R))) x"
proof -
  have "moves w w' (slot_owns x) (case res of Inl _ \<Rightarrow> {#} | Inr s \<Rightarrow> slot_owns s) \<and>
    reactor_owns R' = reactor_owns R \<and> epfd R' = epfd R \<and>
    next_token R' = next_token R + (if x = None then 0 else 1) \<and>
    (\<forall>s. res = Inr s \<longrightarrow> s = map_option (with_token (Token (next_token R))) x)"
  proof (cases x)
    case None
    with assms show ?thesis by (auto simp: register_slot_def)
  next
    case (Some s)
    obtain ares R1 w1 where a: "add K R (slot_fd s) rd wr w = ((ares, R1), w1)"
      by (metis prod.exhaust)
    note m = add_spec(2) [OF a, of "slot_owns x"] and R1 = add_spec(1) [OF a]
    have d: "moves w (drop_slot K x w1) (slot_owns x) {#}"
      using m drop_slot_moves by (rule moves_trans)
    show ?thesis
    proof (cases ares)
      case (Inl e)
      with assms a Some d R1 show ?thesis
        by (auto simp: register_slot_def reactor_owns_def)
    next
      case (Inr tok)
      with assms a Some m R1 add_spec(3) [OF a] show ?thesis
        by (auto simp: register_slot_def reactor_owns_def with_token_def)
    qed
  qed
  then show "moves w w' (slot_owns x) (case res of Inl _ \<Rightarrow> {#} | Inr s \<Rightarrow> slot_owns s)"
    "reactor_owns R' = reactor_owns R" "epfd R' = epfd R"
    "next_token R' = next_token R + (if x = None then 0 else 1)"
    "\<forall>s. res = Inr s \<longrightarrow> s = map_option (with_token (Token (next_token R))) x"
    by blast+
qed

text \<open>The three blocks in sequence: each keeps what the others own.\<close>

lemma register_slot_outcome:
  assumes "register_slot K x R rd wr w = ((res, R'), w')"
  shows "res = Inl e \<Longrightarrow> moves w w' (slot_owns x + A) A"
    and "res = Inr s \<Longrightarrow> moves w w' A A"
    and "res = Inr s \<Longrightarrow> s = map_option (with_token (Token (next_token R))) x"
proof -
  note spec = register_slot_spec [OF assms]
  show "res = Inl e \<Longrightarrow> moves w w' (slot_owns x + A) A"
    using moves_frame [OF spec(1), of A] by simp
  show s: "s = map_option (with_token (Token (next_token R))) x" if "res = Inr s"
    using spec(5) that by blast
  show "moves w w' A A" if "res = Inr s"
  proof (cases x)
    case None
    with assms show ?thesis by (simp add: register_slot_def)
  next
    case (Some v)
    obtain ares R1 w1 where a: "add K R (slot_fd v) rd wr w = ((ares, R1), w1)" by (metis prod.exhaust)
    from assms Some a that have "w' = w1" by (cases ares) (auto simp: register_slot_def)
    with add_spec(2) [OF a] show ?thesis by simp
  qed
qed

text \<open>The ways through the registration: it stops at the first slot that fails.\<close>

lemma register_with_reactor_cases:
  assumes "register_with_reactor K d R w = ((res, d', R'), w')"
  obtains (no_stdin) e where "register_slot K (stdin_slot d) R False True w = ((Inl e, R'), w')" "res = Inl e"
      "d' = d\<lparr>stdin_slot := None\<rparr>"
  | (no_stdout) x1 R1 w1 e where "register_slot K (stdin_slot d) R False True w = ((Inr x1, R1), w1)"
      "register_slot K (stdout_slot d) R1 True False w1 = ((Inl e, R'), w')" "res = Inl e"
      "d' = d\<lparr>stdin_slot := x1, stdout_slot := None\<rparr>"
  | (no_stderr) x1 R1 w1 x2 R2 w2 e where "register_slot K (stdin_slot d) R False True w = ((Inr x1, R1), w1)"
      "register_slot K (stdout_slot d) R1 True False w1 = ((Inr x2, R2), w2)"
      "register_slot K (stderr_slot d) R2 True False w2 = ((Inl e, R'), w')" "res = Inl e"
      "d' = d\<lparr>stdin_slot := x1, stdout_slot := x2, stderr_slot := None\<rparr>"
  | (registered) x1 R1 w1 x2 R2 w2 x3 where "register_slot K (stdin_slot d) R False True w = ((Inr x1, R1), w1)"
      "register_slot K (stdout_slot d) R1 True False w1 = ((Inr x2, R2), w2)"
      "register_slot K (stderr_slot d) R2 True False w2 = ((Inr x3, R'), w')" "res = Inr ()"
      "d' = d\<lparr>stdin_slot := x1, stdout_slot := x2, stderr_slot := x3\<rparr>"
proof -
  obtain r1 R1 w1 where s1: "register_slot K (stdin_slot d) R False True w = ((r1, R1), w1)"
    by (metis prod.exhaust)
  obtain r2 R2 w2 where s2: "register_slot K (stdout_slot d) R1 True False w1 = ((r2, R2), w2)"
    by (metis prod.exhaust)
  obtain r3 R3 w3 where s3: "register_slot K (stderr_slot d) R2 True False w2 = ((r3, R3), w3)"
    by (metis prod.exhaust)
  note def = register_with_reactor_def s1 s2 s3
  show thesis
    using assms s1 s2 s3 no_stdin no_stdout no_stderr registered
    by (cases r1; cases r2; cases r3) (auto simp: def)
qed

text \<open>Three slots get three different tokens.\<close>

lemma slot_tokens_distinct:
  assumes "register_slot K x R rd1 wr1 w = ((Inr x1, R1), w1)"
    and "register_slot K y R1 rd2 wr2 w1 = ((Inr y1, R2), w2)" and "register_slot K z R2 rd3 wr3 w2 = ((Inr z1, R3), w3)"
  shows "\<exists>t1 t2 t3. distinct [t1, t2, t3] \<and> x1 = map_option (with_token t1) x \<and>
     y1 = map_option (with_token t2) y \<and> z1 = map_option (with_token t3) z"
proof -
  have n: "next_token R1 = next_token R + (if x = None then 0 else 1)"
    "next_token R2 = next_token R1 + (if y = None then 0 else 1)"
    using register_slot_spec(4) [OF assms(1)] register_slot_spec(4) [OF assms(2)] by blast+
  let ?t = "next_token R"
  show ?thesis
    unfolding register_slot_outcome(3) [OF assms(1) refl] register_slot_outcome(3) [OF assms(2) refl]
      register_slot_outcome(3) [OF assms(3) refl] n
    by (intro exI [of _ "Token (if x = None then ?t + 2 else ?t)"]
        exI [of _ "Token (next_token R1 + (if y = None then 1 else 0))"] exI [of _ "Token (next_token R2)"])
      (cases x; cases y; simp add: n)
qed

lemma register_with_reactor_spec:
  assumes "register_with_reactor K d R w = ((res, d', R'), w')"
  shows "moves w w' (drain_owns d) (drain_owns d')" and "reactor_owns R' = reactor_owns R"
    and "epfd R' = epfd R"
    and "res = Inr () \<Longrightarrow> \<exists>t1 t2 t3. distinct [t1, t2, t3] \<and>
           d' = d\<lparr>stdin_slot := map_option (with_token t1) (stdin_slot d),
                  stdout_slot := map_option (with_token t2) (stdout_slot d),
                  stderr_slot := map_option (with_token t3) (stderr_slot d)\<rparr>"
proof -
  note keep = register_slot_spec(2,3) and out = register_slot_outcome
  have own: "slot_owns x1 = slot_owns x" if "x1 = map_option (with_token t) x" for x1 x t
    using that by (cases x) simp_all
  let ?thesis = "moves w w' (drain_owns d) (drain_owns d') \<and> reactor_owns R' = reactor_owns R \<and> epfd R' = epfd R \<and>
     (res = Inr () \<longrightarrow> (\<exists>t1 t2 t3. distinct [t1, t2, t3] \<and>
           d' = d\<lparr>stdin_slot := map_option (with_token t1) (stdin_slot d),
                  stdout_slot := map_option (with_token t2) (stdout_slot d),
                  stderr_slot := map_option (with_token t3) (stderr_slot d)\<rparr>))"
  have ?thesis
    using assms
  proof (cases rule: register_with_reactor_cases)
    case (no_stdin e)
    from out(1) [OF no_stdin(1) refl, of "slot_owns (stdout_slot d) + slot_owns (stderr_slot d)"]
      keep [OF no_stdin(1)] show ?thesis
      by (simp add: no_stdin(2,3) drain_owns_def ac_simps)
  next
    case (no_stdout x1 R1 w1 e)
    note o1 = own [OF out(3) [OF no_stdout(1) refl]]
    from moves_trans [OF out(2) [OF no_stdout(1) refl]
        out(1) [OF no_stdout(2) refl, of "slot_owns (stdin_slot d) + slot_owns (stderr_slot d)"]]
      keep [OF no_stdout(1)] keep [OF no_stdout(2)] show ?thesis
      by (simp add: no_stdout(3,4) drain_owns_def o1 ac_simps)
  next
    case (no_stderr x1 R1 w1 x2 R2 w2 e)
    note o12 = own [OF out(3) [OF no_stderr(1) refl]] own [OF out(3) [OF no_stderr(2) refl]]
    from moves_trans [OF moves_trans [OF out(2) [OF no_stderr(1) refl] out(2) [OF no_stderr(2) refl]]
        out(1) [OF no_stderr(3) refl, of "slot_owns (stdin_slot d) + slot_owns (stdout_slot d)"]]
      keep [OF no_stderr(1)] keep [OF no_stderr(2)] keep [OF no_stderr(3)] show ?thesis
      by (simp add: no_stderr(4,5) drain_owns_def o12 ac_simps)
  next
    case (registered x1 R1 w1 x2 R2 w2 x3)
    note o123 = own [OF out(3) [OF registered(1) refl]] own [OF out(3) [OF registered(2) refl]]
      own [OF out(3) [OF registered(3) refl]]
    from moves_trans [OF moves_trans [OF out(2) [OF registered(1) refl] out(2) [OF registered(2) refl]]
        out(2) [OF registered(3) refl]]
      keep [OF registered(1)] keep [OF registered(2)] keep [OF registered(3)]
      slot_tokens_distinct [OF registered(1-3)] show ?thesis
      by (auto simp: registered(5) drain_owns_def o123)
  qed
  then show "moves w w' (drain_owns d) (drain_owns d')" "reactor_owns R' = reactor_owns R" "epfd R' = epfd R"
    "res = Inr () \<Longrightarrow> \<exists>t1 t2 t3. distinct [t1, t2, t3] \<and>
           d' = d\<lparr>stdin_slot := map_option (with_token t1) (stdin_slot d),
                  stdout_slot := map_option (with_token t2) (stdout_slot d),
                  stderr_slot := map_option (with_token t3) (stderr_slot d)\<rparr>"
    by blast+
qed

section \<open>The handlers\<close>

text \<open>A slot is given back by removing it from epoll first and closing it afterwards.\<close>

definition released :: "reactor \<Rightarrow> fd_slot \<Rightarrow> event_log \<Rightarrow> bool" where
  "released R s t \<longleftrightarrow>
     (\<exists>r1 r2. t = (EpollCtlDel (epfd R) (raw (slot_fd s)), r1) #
        (if 0 \<le> raw (slot_fd s) then [(Close (raw (slot_fd s)), r2)] else []))"

lemma release_slot_released: "\<exists>t. runs w (release_slot K (Some s) R w) t \<and> released R s t"
proof -
  let ?n = "raw (slot_fd s)"
  obtain r1 w1 where s1: "sys K (EpollCtlDel (epfd R) ?n) w = (r1, w1)" by fastforce
  obtain r2 w2 where s2: "sys K (Close ?n) w1 = (r2, w2)" by fastforce
  show ?thesis
  proof (cases "0 \<le> ?n")
    case True
    with s1 s2 have "release_slot K (Some s) R w = w2"
      by (simp add: release_slot_def drop_slot_def drop_opt_fd_def drop_fd_def del_def del_raw_def)
    with True runs_trans [OF runs_sys [OF s1] runs_sys [OF s2]] show ?thesis
      by (auto simp: released_def)
  next
    case False
    with s1 have "release_slot K (Some s) R w = w1"
      by (simp add: release_slot_def drop_slot_def drop_opt_fd_def drop_fd_def del_def del_raw_def)
    with False runs_sys [OF s1] show ?thesis by (auto simp: released_def)
  qed
qed

text \<open>
  What the two output handlers share, and the direct \<open>read_fd\<close>: read, then give the slot up at end
  of file. \<open>slot_of\<close> and \<open>without\<close> select the output.
\<close>

definition slot_of :: "bool \<Rightarrow> 's drain_state \<Rightarrow> fd_slot option" where
  "slot_of is_stdout d = (if is_stdout then stdout_slot d else stderr_slot d)"

definition without :: "bool \<Rightarrow> 's drain_state \<Rightarrow> 's drain_state" where
  "without is_stdout d = (if is_stdout then d\<lparr>stdout_slot := None\<rparr> else d\<lparr>stderr_slot := None\<rparr>)"

definition handle_output ::
  "'k os \<Rightarrow> bool \<Rightarrow> 's drain_state \<Rightarrow> reactor \<Rightarrow> 'k world
     \<Rightarrow> (((sys_error + unit) \<times> 's drain_state) \<times> 'k world) option" where
  "handle_output K is_stdout d R w =
     (if is_stdout then handle_stdout_ready K d R w else handle_stderr_ready K d R w)"

lemma handle_output_cases:
  assumes "handle_output K is_stdout d R w = Some ((res, d'), w')"
  obtains (gone) "slot_of is_stdout d = None" "res = Inr ()" "d' = d" "w' = w"
  | (read) s rr b ee w1 where "slot_of is_stdout d = Some s"
      "read_from_fd K (drain_buffer d) (slot_fd s) is_stdout (drain_early_exit d) w
         = Some ((rr, b, ee), w1)"
      "if rr = Inr True
       then res = Inr () \<and> d' = without is_stdout (d\<lparr>drain_buffer := b, drain_early_exit := ee\<rparr>)
          \<and> w' = release_slot K (Some s) R w1
       else res = (case rr of Inl e \<Rightarrow> Inl e | Inr _ \<Rightarrow> Inr ())
          \<and> d' = d\<lparr>drain_buffer := b, drain_early_exit := ee\<rparr> \<and> w' = w1"
proof (cases "slot_of is_stdout d")
  case None
  with assms have "res = Inr () \<and> d' = d \<and> w' = w"
    by (cases is_stdout)
      (simp_all add: handle_output_def slot_of_def handle_stdout_ready_def handle_stderr_ready_def)
  with None gone show thesis by blast
next
  case (Some s)
  have "read_from_fd K (drain_buffer d) (slot_fd s) is_stdout (drain_early_exit d) w \<noteq> None"
  proof
    assume "read_from_fd K (drain_buffer d) (slot_fd s) is_stdout (drain_early_exit d) w = None"
    with assms Some show False
      by (cases is_stdout)
        (simp_all add: handle_output_def slot_of_def handle_stdout_ready_def handle_stderr_ready_def)
  qed
  then obtain rr b ee w1 where r: "read_from_fd K (drain_buffer d) (slot_fd s) is_stdout
      (drain_early_exit d) w = Some ((rr, b, ee), w1)"
    by (metis option.exhaust prod.exhaust)
  note defs = handle_output_def slot_of_def without_def handle_stdout_ready_def
    handle_stderr_ready_def drop_stdout_def drop_stderr_def Let_def
  show thesis
  proof (rule read [OF Some r], cases rr)
    case (Inl e)
    with assms Some r show "if rr = Inr True
       then res = Inr () \<and> d' = without is_stdout (d\<lparr>drain_buffer := b, drain_early_exit := ee\<rparr>)
          \<and> w' = release_slot K (Some s) R w1
       else res = (case rr of Inl e \<Rightarrow> Inl e | Inr _ \<Rightarrow> Inr ())
          \<and> d' = d\<lparr>drain_buffer := b, drain_early_exit := ee\<rparr> \<and> w' = w1"
      by (cases is_stdout) (simp_all add: defs)
  next
    case (Inr eof)
    with assms Some r show "if rr = Inr True
       then res = Inr () \<and> d' = without is_stdout (d\<lparr>drain_buffer := b, drain_early_exit := ee\<rparr>)
          \<and> w' = release_slot K (Some s) R w1
       else res = (case rr of Inl e \<Rightarrow> Inl e | Inr _ \<Rightarrow> Inr ())
          \<and> d' = d\<lparr>drain_buffer := b, drain_early_exit := ee\<rparr> \<and> w' = w1"
      by (cases is_stdout; cases eof) (simp_all add: defs)
  qed
qed

lemma handle_stdin_cases:
  assumes "handle_stdin_writable K d R w = Some ((res, d'), w')"
  obtains (gone) "stdin_slot d = None" "res = Inr ()" "d' = d" "w' = w"
  | (sent) s rr wr w1 where "stdin_slot d = Some s"
      "write_to_fd K (drain_writer d) (slot_fd s) w = Some ((rr, wr), w1)"
      "if rr = Inr True
       then res = Inr () \<and> d' = d\<lparr>stdin_slot := None, drain_writer := wr\<lparr>wr_buf := None\<rparr>\<rparr>
          \<and> w' = release_slot K (Some s) R w1
       else res = (case rr of Inl e \<Rightarrow> Inl e | Inr _ \<Rightarrow> Inr ())
          \<and> d' = d\<lparr>drain_writer := wr\<rparr> \<and> w' = w1"
proof (cases "stdin_slot d")
  case None
  with assms have "res = Inr () \<and> d' = d \<and> w' = w" by (simp add: handle_stdin_writable_def)
  with None gone show thesis by blast
next
  case (Some s)
  have "write_to_fd K (drain_writer d) (slot_fd s) w \<noteq> None"
  proof
    assume "write_to_fd K (drain_writer d) (slot_fd s) w = None"
    with assms Some show False by (simp add: handle_stdin_writable_def)
  qed
  then obtain rr wr w1 where r: "write_to_fd K (drain_writer d) (slot_fd s) w = Some ((rr, wr), w1)"
    by (metis option.exhaust prod.exhaust)
  note defs = handle_stdin_writable_def drop_stdin_def Let_def
  show thesis
  proof (rule sent [OF Some r], cases rr)
    case (Inl e)
    with assms Some r show "if rr = Inr True
       then res = Inr () \<and> d' = d\<lparr>stdin_slot := None, drain_writer := wr\<lparr>wr_buf := None\<rparr>\<rparr>
          \<and> w' = release_slot K (Some s) R w1
       else res = (case rr of Inl e \<Rightarrow> Inl e | Inr _ \<Rightarrow> Inr ())
          \<and> d' = d\<lparr>drain_writer := wr\<rparr> \<and> w' = w1"
      by (simp add: defs)
  next
    case (Inr fin)
    with assms Some r show "if rr = Inr True
       then res = Inr () \<and> d' = d\<lparr>stdin_slot := None, drain_writer := wr\<lparr>wr_buf := None\<rparr>\<rparr>
          \<and> w' = release_slot K (Some s) R w1
       else res = (case rr of Inl e \<Rightarrow> Inl e | Inr _ \<Rightarrow> Inr ())
          \<and> d' = d\<lparr>drain_writer := wr\<rparr> \<and> w' = w1"
      by (cases fin) (simp_all add: defs)
  qed
qed

lemma handle_output_moves:
  assumes "handle_output K is_stdout d R w = Some ((res, d'), w')"
  shows "moves w w' (drain_owns d) (drain_owns d')"
  using assms
proof (cases rule: handle_output_cases)
  case gone
  then show ?thesis by simp
next
  case (read s rr b ee w1)
  note m = read_from_fd_moves [OF read(2)]
  show ?thesis
  proof (cases "rr = Inr True")
    case False
    with read m show ?thesis by (simp add: drain_owns_def)
  next
    case True
    let ?rest = "(if is_stdout then slot_owns (stderr_slot d) else slot_owns (stdout_slot d))
      + slot_owns (stdin_slot d)"
    have "moves w1 w' (drain_owns d) (drain_owns d')"
      using moves_frame [OF release_slot_moves [of w1 K "Some s" R], of ?rest] read True
      by (cases is_stdout) (simp_all add: drain_owns_def slot_of_def without_def ac_simps)
    with m show ?thesis by (rule moves_trans)
  qed
qed

lemma handle_stdin_moves:
  assumes "handle_stdin_writable K d R w = Some ((res, d'), w')"
  shows "moves w w' (drain_owns d) (drain_owns d')"
  using assms
proof (cases rule: handle_stdin_cases)
  case gone
  then show ?thesis by simp
next
  case (sent s rr wr w1)
  note m = write_to_fd_moves [OF sent(2), unfolded snd_conv]
  show ?thesis
  proof (cases "rr = Inr True")
    case False
    with sent m show ?thesis by (simp add: drain_owns_def)
  next
    case True
    have "moves w1 w' (drain_owns d) (drain_owns d')"
      using moves_frame [OF release_slot_moves [of w1 K "Some s" R],
          of "slot_owns (stdout_slot d) + slot_owns (stderr_slot d)"] sent True
      by (simp add: drain_owns_def ac_simps)
    with m show ?thesis by (rule moves_trans)
  qed
qed

section \<open>Bytes through the drain\<close>

text \<open>Calls that move no data, and calls on other descriptors, are invisible to a stream.\<close>

lemma reads_only_streams:
  assumes "reads_only n t"
  shows "m \<noteq> n \<Longrightarrow> delivered m t = []" and "accepted m t = []"
  using assms
  by (induction t) (auto simp: reads_only_def delivered_def accepted_def read_bytes_def written_bytes_def)

lemma writes_only_streams:
  assumes "writes_only n t"
  shows "m \<noteq> n \<Longrightarrow> accepted m t = []" and "delivered m t = []"
  using assms
  by (induction t) (auto simp: writes_only_def delivered_def accepted_def read_bytes_def written_bytes_def)

lemma released_streams:
  assumes "released R s t"
  shows "delivered m t = []" and "accepted m t = []"
  using assms
  by (auto simp: released_def delivered_def accepted_def read_bytes_def written_bytes_def)

lemma captured_take:
  "captured limit (take limit xs) ys = take limit (xs @ ys)"
  by (auto simp: captured_def max_def min_def)

lemma stream_of_other: "o' \<noteq> is_stdout \<Longrightarrow> stream_of (\<not> is_stdout) b' = stream_of (\<not> is_stdout) b \<Longrightarrow>
    stream_of o' b' = stream_of o' b"
  by (cases o'; cases is_stdout) auto

text \<open>One call of an output handler: what it adds to its stream, and that it touches nothing else.\<close>

lemma handle_output_streams:
  assumes "handle_output K is_stdout d R w = Some ((res, d'), w')" and "io_bounded K"
  obtains t where "runs w w' t" and "\<forall>m. accepted m t = []"
    and "\<forall>m. (\<forall>s. slot_of is_stdout d = Some s \<longrightarrow> m \<noteq> raw (slot_fd s)) \<longrightarrow> delivered m t = []"
    and "\<forall>s. slot_of is_stdout d = Some s \<longrightarrow>
          stream_of is_stdout (drain_buffer d') = captured (buf_limit (drain_buffer d))
            (stream_of is_stdout (drain_buffer d)) (delivered (raw (slot_fd s)) t)"
    and "slot_of is_stdout d = None \<longrightarrow> drain_buffer d' = drain_buffer d"
    and "\<forall>o'. o' \<noteq> is_stdout \<longrightarrow> stream_of o' (drain_buffer d') = stream_of o' (drain_buffer d)"
    and "buf_limit (drain_buffer d') = buf_limit (drain_buffer d)"
    and "\<forall>o'. slot_of o' d' = None \<or> slot_of o' d' = slot_of o' d"
    and "stdin_slot d' = stdin_slot d" and "drain_writer d' = drain_writer d"
  using assms(1)
proof (cases rule: handle_output_cases)
  case gone
  show thesis by (rule that [of "[]"]) (simp_all add: gone)
next
  case (read s rr b ee w1)
  obtain t where t: "runs w w1 t" "reads_only (raw (slot_fd s)) t"
    and cap: "stream_of is_stdout b = captured (buf_limit (drain_buffer d))
      (stream_of is_stdout (drain_buffer d)) (delivered (raw (slot_fd s)) t)"
    by (rule read_from_fd_spec [OF read(2) assms(2)])
  obtain t2 where t2: "runs w1 w' t2" "\<forall>m. delivered m t2 = [] \<and> accepted m t2 = []"
  proof (cases "rr = Inr True")
    case True
    with read(3) have "w' = release_slot K (Some s) R w1" by simp
    with release_slot_released [of w1 K s R] obtain t2 where "runs w1 w' t2" "released R s t2" by blast
    with released_streams show thesis by (intro that [of t2]) auto
  next
    case False
    with read(3) show thesis by (intro that [of "[]"]) simp_all
  qed
  have d': "drain_buffer d' = b" "stdin_slot d' = stdin_slot d" "drain_writer d' = drain_writer d"
    "\<forall>o'. slot_of o' d' = None \<or> slot_of o' d' = slot_of o' d"
    using read(3) by (auto simp: without_def slot_of_def split: if_splits)
  show thesis
  proof (rule that [OF runs_trans [OF t(1) t2(1)]])
    show "\<forall>o'. o' \<noteq> is_stdout \<longrightarrow> stream_of o' (drain_buffer d') = stream_of o' (drain_buffer d)"
      unfolding d'(1) using stream_of_other [OF _ read_from_fdD(2) [OF read(2)]] by simp
  qed (use read(1) read_from_fdD(3) [OF read(2)] cap d' t2(2) reads_only_streams [OF t(2)] in auto)
qed

text \<open>A call of the writer, with or without a buffer left, sends the next part of the buffer.\<close>

lemma write_to_fd_sends:
  assumes "write_to_fd K st f w = Some ((res, st'), w')" and "io_bounded K"
    and "wr_buf st = None \<or> wr_buf st = Some buf" and "wr_off st \<le> length buf"
  obtains t where "runs w w' t" and "writes_only (raw f) t"
    and "take (wr_off st) buf @ accepted (raw f) t = take (wr_off st') buf"
    and "wr_buf st' = None \<or> wr_buf st' = Some buf" and "wr_off st' \<le> length buf"
proof (cases "wr_buf st")
  case None
  with assms(1) have "st' = st" "w' = w" by (simp_all add: write_to_fd_empty)
  with None assms(4) show thesis by (intro that [of "[]"]) simp_all
next
  case (Some b)
  with assms(3) have b: "wr_buf st = Some buf" by simp
  obtain t where t: "runs w w' t" "writes_only (raw f) t"
    and o: "wr_off st \<le> wr_off st'" "wr_off st' \<le> length buf"
    and a: "accepted (raw f) t = take (wr_off st' - wr_off st) (drop (wr_off st) buf)"
    and fin: "finished buf res st' t"
    by (rule write_to_fd_spec [OF assms(1,2) b assms(4)])
  have "take (wr_off st) buf @ take (wr_off st' - wr_off st) (drop (wr_off st) buf) = take (wr_off st') buf"
    using o(1) by (subst take_add [symmetric]) simp
  with a t o finished_buf [OF fin] show thesis by (intro that [of t]) simp_all
qed

lemma handle_stdin_streams:
  assumes "handle_stdin_writable K d R w = Some ((res, d'), w')" and "io_bounded K"
    and "wr_buf (drain_writer d) = None \<or> wr_buf (drain_writer d) = Some buf"
    and "wr_off (drain_writer d) \<le> length buf"
  obtains t where "runs w w' t" and "\<forall>m. delivered m t = []"
    and "\<forall>m. (\<forall>s. stdin_slot d = Some s \<longrightarrow> m \<noteq> raw (slot_fd s)) \<longrightarrow> accepted m t = []"
    and "\<forall>s. stdin_slot d = Some s \<longrightarrow> take (wr_off (drain_writer d)) buf @ accepted (raw (slot_fd s)) t
          = take (wr_off (drain_writer d')) buf"
    and "stdin_slot d = None \<longrightarrow> drain_writer d' = drain_writer d"
    and "wr_buf (drain_writer d') = None \<or> wr_buf (drain_writer d') = Some buf"
    and "wr_off (drain_writer d') \<le> length buf"
    and "stdin_slot d' = None \<or> stdin_slot d' = stdin_slot d"
    and "\<forall>o'. slot_of o' d' = slot_of o' d" and "drain_buffer d' = drain_buffer d"
  using assms(1)
proof (cases rule: handle_stdin_cases)
  case gone
  show thesis by (rule that [of "[]"]) (simp_all add: gone assms)
next
  case (sent s rr wr w1)
  let ?old = "drain_writer d"
  obtain t where t: "runs w w1 t" "writes_only (raw (slot_fd s)) t"
    and acc: "take (wr_off ?old) buf @ accepted (raw (slot_fd s)) t = take (wr_off wr) buf"
    and wr: "wr_buf wr = None \<or> wr_buf wr = Some buf" "wr_off wr \<le> length buf"
    by (rule write_to_fd_sends [OF sent(2) assms(2-4)])
  obtain t2 where t2: "runs w1 w' t2" "\<forall>m. delivered m t2 = [] \<and> accepted m t2 = []"
  proof (cases "rr = Inr True")
    case True
    with sent(3) have "w' = release_slot K (Some s) R w1" by simp
    with release_slot_released [of w1 K s R] obtain t2 where "runs w1 w' t2" "released R s t2" by blast
    with released_streams show thesis by (intro that [of t2]) auto
  next
    case False
    with sent(3) show thesis by (intro that [of "[]"]) simp_all
  qed
  show thesis
    by (rule that [OF runs_trans [OF t(1) t2(1)]])
      (use sent acc wr t2(2) writes_only_streams [OF t(2)] in \<open>auto simp: slot_of_def split: if_splits\<close>)
qed

section \<open>A drain in use\<close>

text \<open>
  \<open>drain_reach K R d0 w0 d w\<close>: the handlers, called in any order and any number of times, take the
  drain \<open>d0\<close> in the world \<open>w0\<close> to \<open>d\<close> in \<open>w\<close>.
\<close>

inductive drain_reach ::
  "'k os \<Rightarrow> reactor \<Rightarrow> 's drain_state \<Rightarrow> 'k world \<Rightarrow> 's drain_state \<Rightarrow> 'k world \<Rightarrow> bool"
  for K R d0 w0 where
  start: "drain_reach K R d0 w0 d0 w0"
| out_ready: "drain_reach K R d0 w0 d w \<Longrightarrow> handle_output K is_stdout d R w = Some ((res, d'), w') \<Longrightarrow>
    drain_reach K R d0 w0 d' w'"
| in_ready: "drain_reach K R d0 w0 d w \<Longrightarrow> handle_stdin_writable K d R w = Some ((res, d'), w') \<Longrightarrow>
    drain_reach K R d0 w0 d' w'"

lemma drain_reach_moves:
  "drain_reach K R d0 w0 d w \<Longrightarrow> moves w0 w (drain_owns d0) (drain_owns d)"
  by (induction rule: drain_reach.induct)
    (auto intro: moves_trans handle_output_moves handle_stdin_moves)

definition drain_made :: "nat \<Rightarrow> byte list \<Rightarrow> 's drain_state \<Rightarrow> bool" where
  "drain_made limit buf d \<longleftrightarrow>
     drain_buffer d = buffer_new limit \<and>
     (drain_writer d = writer_new (Some buf) \<or> drain_writer d = writer_new None \<and> buf = [])"

definition slot_fds :: "'s drain_state \<Rightarrow> int list" where
  "slot_fds d = concat (map (case_option [] (\<lambda>s. [raw (slot_fd s)])) [stdin_slot d, stdout_slot d, stderr_slot d])"

text \<open>The invariant: buffers and offset are functions of what the kernel delivered and accepted.\<close>

definition drain_inv :: "nat \<Rightarrow> byte list \<Rightarrow> 's drain_state \<Rightarrow> 's drain_state \<Rightarrow> event_log \<Rightarrow> bool" where
  "drain_inv limit buf d0 d t \<longleftrightarrow>
     buf_limit (drain_buffer d) = limit \<and>
     (\<forall>o'. stream_of o' (drain_buffer d) = (case slot_of o' d0 of
         None \<Rightarrow> [] | Some s \<Rightarrow> take limit (delivered (raw (slot_fd s)) t))) \<and>
     (\<forall>o'. slot_of o' d = None \<or> slot_of o' d = slot_of o' d0) \<and>
     (stdin_slot d = None \<or> stdin_slot d = stdin_slot d0) \<and>
     (wr_buf (drain_writer d) = None \<or> wr_buf (drain_writer d) = Some buf) \<and>
     wr_off (drain_writer d) \<le> length buf \<and>
     (\<forall>s. stdin_slot d0 = Some s \<longrightarrow>
        accepted (raw (slot_fd s)) t = take (wr_off (drain_writer d)) buf)"

lemma drain_inv_start: "drain_made limit buf d \<Longrightarrow> drain_inv limit buf d d []"
  by (auto simp: drain_made_def drain_inv_def buffer_new_def writer_new_def stream_of_def
      split: option.splits)

lemma slots_distinct:
  assumes "distinct (slot_fds d)" and "slot_of o1 d = Some s1" and "slot_of o2 d = Some s2" and "o1 \<noteq> o2"
  shows "raw (slot_fd s1) \<noteq> raw (slot_fd s2)"
  using assms by (cases o1; cases o2) (auto simp: slot_fds_def slot_of_def)

text \<open>One handler moves one stream on by what its descriptor delivered, and leaves the other.\<close>

lemma drain_inv_stream:
  assumes inv: "drain_inv limit buf d0 d t" and dist: "distinct (slot_fds d0)"
    and del: "\<forall>m. (\<forall>s. slot_of is_stdout d = Some s \<longrightarrow> m \<noteq> raw (slot_fd s)) \<longrightarrow> delivered m t' = []"
    and cap: "\<forall>s. slot_of is_stdout d = Some s \<longrightarrow>
          stream_of is_stdout (drain_buffer d') = captured (buf_limit (drain_buffer d))
            (stream_of is_stdout (drain_buffer d)) (delivered (raw (slot_fd s)) t')"
    and keep: "\<And>o'. o' \<noteq> is_stdout \<or> slot_of is_stdout d = None
      \<Longrightarrow> stream_of o' (drain_buffer d') = stream_of o' (drain_buffer d)"
  shows "stream_of o' (drain_buffer d') = (case slot_of o' d0 of
         None \<Rightarrow> [] | Some s \<Rightarrow> take limit (delivered (raw (slot_fd s)) (t @ t')))"
proof -
  from inv have old: "stream_of o' (drain_buffer d) = (case slot_of o' d0 of
       None \<Rightarrow> [] | Some s \<Rightarrow> take limit (delivered (raw (slot_fd s)) t))"
    and sl: "slot_of is_stdout d = None \<or> slot_of is_stdout d = slot_of is_stdout d0"
    and lim: "buf_limit (drain_buffer d) = limit"
    unfolding drain_inv_def by blast+
  show ?thesis
  proof (cases "o' = is_stdout \<and> slot_of is_stdout d \<noteq> None")
    case True
    then obtain s where s: "slot_of is_stdout d = Some s" by blast
    with sl True have "slot_of o' d0 = Some s" by simp
    with s cap old lim True show ?thesis by (simp add: captured_take)
  next
    case False
    have "delivered (raw (slot_fd s)) t' = []" if s: "slot_of o' d0 = Some s" for s
    proof (rule del [rule_format])
      fix s2 assume "slot_of is_stdout d = Some s2"
      then show "raw (slot_fd s) \<noteq> raw (slot_fd s2)"
        using slots_distinct [OF dist _ s, of is_stdout s2] sl False by auto
    qed
    moreover have "stream_of o' (drain_buffer d') = stream_of o' (drain_buffer d)" using keep False by blast
    ultimately show ?thesis using old by (auto split: option.splits)
  qed
qed

lemma drain_inv_output:
  assumes inv: "drain_inv limit buf d0 d t" and io: "io_bounded K" and dist: "distinct (slot_fds d0)"
    and step: "handle_output K is_stdout d R w = Some ((res, d'), w')"
  shows "\<exists>t'. runs w w' t' \<and> drain_inv limit buf d0 d' (t @ t')"
proof -
  obtain t' where t': "runs w w' t'" and acc: "\<forall>m. accepted m t' = []"
    and del: "\<forall>m. (\<forall>s. slot_of is_stdout d = Some s \<longrightarrow> m \<noteq> raw (slot_fd s)) \<longrightarrow> delivered m t' = []"
    and cap: "\<forall>s. slot_of is_stdout d = Some s \<longrightarrow>
          stream_of is_stdout (drain_buffer d') = captured (buf_limit (drain_buffer d))
            (stream_of is_stdout (drain_buffer d)) (delivered (raw (slot_fd s)) t')"
    and none: "slot_of is_stdout d = None \<longrightarrow> drain_buffer d' = drain_buffer d"
    and other: "\<forall>o'. o' \<noteq> is_stdout \<longrightarrow> stream_of o' (drain_buffer d') = stream_of o' (drain_buffer d)"
    and rest: "buf_limit (drain_buffer d') = buf_limit (drain_buffer d)"
      "\<forall>o'. slot_of o' d' = None \<or> slot_of o' d' = slot_of o' d"
      "stdin_slot d' = stdin_slot d" "drain_writer d' = drain_writer d"
    by (rule handle_output_streams [OF step io])
  have "drain_inv limit buf d0 d' (t @ t')"
    unfolding drain_inv_def
  proof (intro conjI)
    show "\<forall>o'. stream_of o' (drain_buffer d') = (case slot_of o' d0 of
         None \<Rightarrow> [] | Some s \<Rightarrow> take limit (delivered (raw (slot_fd s)) (t @ t')))"
      using drain_inv_stream [OF inv dist del cap] none other by auto
    show "\<forall>o'. slot_of o' d' = None \<or> slot_of o' d' = slot_of o' d0"
      using inv rest(2) unfolding drain_inv_def by metis
  qed (use inv rest acc in \<open>simp_all add: drain_inv_def\<close>)
  with t' show ?thesis by blast
qed

lemma drain_inv_input:
  assumes inv: "drain_inv limit buf d0 d t" and io: "io_bounded K"
    and step: "handle_stdin_writable K d R w = Some ((res, d'), w')"
  shows "\<exists>t'. runs w w' t' \<and> drain_inv limit buf d0 d' (t @ t')"
proof -
  from inv have wr: "wr_buf (drain_writer d) = None \<or> wr_buf (drain_writer d) = Some buf"
    "wr_off (drain_writer d) \<le> length buf"
    and sl: "stdin_slot d = None \<or> stdin_slot d = stdin_slot d0"
    unfolding drain_inv_def by blast+
  obtain t' where t': "runs w w' t'" and del: "\<forall>m. delivered m t' = []"
    and none: "\<forall>m. (\<forall>s. stdin_slot d = Some s \<longrightarrow> m \<noteq> raw (slot_fd s)) \<longrightarrow> accepted m t' = []"
    and acc: "\<forall>s. stdin_slot d = Some s \<longrightarrow> take (wr_off (drain_writer d)) buf
          @ accepted (raw (slot_fd s)) t' = take (wr_off (drain_writer d')) buf"
    and same: "stdin_slot d = None \<longrightarrow> drain_writer d' = drain_writer d"
    and rest: "wr_buf (drain_writer d') = None \<or> wr_buf (drain_writer d') = Some buf"
      "wr_off (drain_writer d') \<le> length buf" "stdin_slot d' = None \<or> stdin_slot d' = stdin_slot d"
      "\<forall>o'. slot_of o' d' = slot_of o' d" "drain_buffer d' = drain_buffer d"
    by (rule handle_stdin_streams [OF step io wr])
  have sent: "\<forall>s. stdin_slot d0 = Some s \<longrightarrow>
      accepted (raw (slot_fd s)) (t @ t') = take (wr_off (drain_writer d')) buf"
  proof (cases "stdin_slot d")
    case None
    with inv none same show ?thesis by (simp add: drain_inv_def)
  next
    case (Some s)
    with inv acc sl show ?thesis by (simp add: drain_inv_def)
  qed
  have "drain_inv limit buf d0 d' (t @ t')"
    unfolding drain_inv_def
  proof (intro conjI)
    show "stdin_slot d' = None \<or> stdin_slot d' = stdin_slot d0" using rest(3) sl by auto
  qed (use inv rest sent del in \<open>simp_all add: drain_inv_def cong: option.case_cong\<close>)
  with t' show ?thesis by blast
qed

lemma drain_reach_inv:
  assumes "drain_reach K R d0 w0 d w" and "io_bounded K" and "drain_made limit buf d0"
    and "distinct (slot_fds d0)"
  shows "\<exists>t. runs w0 w t \<and> drain_inv limit buf d0 d t"
  using assms
proof (induction rule: drain_reach.induct)
  case start
  then show ?case using drain_inv_start by (intro exI [of _ "[]"]) simp
next
  case (out_ready d w is_stdout res d' w')
  then obtain t where t: "runs w0 w t" "drain_inv limit buf d0 d t" by blast
  from drain_inv_output [OF t(2) out_ready.prems(1,3) out_ready.hyps(2)] t(1) show ?case
    by (blast intro: runs_trans)
next
  case (in_ready d w res d' w')
  then obtain t where t: "runs w0 w t" "drain_inv limit buf d0 d t" by blast
  from drain_inv_input [OF t(2) in_ready.prems(1) in_ready.hyps(2)] t(1) show ?case
    by (blast intro: runs_trans)
qed

section \<open>Properties\<close>

lemmas drain_run = handle_stdin_writable_def handle_stdout_ready_def drop_stdout_def drop_stdin_def
  release_slot_def drop_slot_def drop_opt_fd_def drop_fd_def del_def del_raw_def buffer_run writer_run

definition demo_drain :: "unit drain_state" where
  "demo_drain = \<lparr>stdout_slot = Some \<lparr>slot_token = Some (Token 2), slot_fd = Fd 5\<rparr>, stderr_slot = None,
     stdin_slot = Some \<lparr>slot_token = Some (Token 1), slot_fd = Fd 4\<rparr>, drain_buffer = buffer_new 2,
     drain_writer = writer_new (Some [1, 2]), drain_early_exit = None\<rparr>"

definition demo_reactor :: reactor where
  "demo_reactor = \<lparr>epfd = 7, next_token = 4, events_buf = [], events_cap = 64,
    signalfd = None, sigchld_token = None, inotify_token = None\<rparr>"

definition demo_drain_world :: "demo world" where
  "demo_drain_world = demo_world [Data [7, 8, 9], Eof] [] []"

lemma demo_drain_made: "drain_made 2 [1, 2] demo_drain" "distinct (slot_fds demo_drain)"
  by (simp_all add: drain_made_def demo_drain_def slot_fds_def)

text \<open>Stdin is written and closed, then stdout is read to its end and closed.\<close>

lemma demo_drain_reach:
  "\<exists>w'. drain_reach demo_os demo_reactor demo_drain demo_drain_world
     (demo_drain\<lparr>stdin_slot := None, drain_writer := \<lparr>wr_buf = None, wr_off = 2\<rparr>,
        stdout_slot := None,
        drain_buffer := \<lparr>buf_stdout = [7, 8], buf_stderr = [], buf_limit = 2\<rparr>\<rparr>) w'"
proof -
  let ?d1 = "demo_drain\<lparr>stdin_slot := None, drain_writer := \<lparr>wr_buf = None, wr_off = 2\<rparr>\<rparr>"
  let ?w1 = "\<lparr>kst = \<lparr>d_in = [Data [7, 8, 9], Eof], d_out = [], d_misc = []\<rparr>, errno = 0,
     trace = [(Write 4 [1, 2], ok_reply 2 NoOut), (EpollCtlDel 7 4, ok_reply 0 NoOut),
       (Close 4, ok_reply 0 NoOut)]\<rparr>"
  have 1: "handle_stdin_writable demo_os demo_drain demo_reactor demo_drain_world
      = Some ((Inr (), ?d1), ?w1)"
    by (simp add: demo_drain_world_def demo_drain_def demo_reactor_def drain_run
        cong: bind_eval_cong prod.case_cong_weak)
  have 2: "\<exists>w'. handle_output demo_os True ?d1 demo_reactor ?w1
      = Some ((Inr (), ?d1\<lparr>stdout_slot := None,
          drain_buffer := \<lparr>buf_stdout = [7, 8], buf_stderr = [], buf_limit = 2\<rparr>\<rparr>), w')"
    by (simp add: handle_output_def demo_drain_def demo_reactor_def drain_run
        cong: bind_eval_cong prod.case_cong_weak)
  from drain_reach.out_ready [OF drain_reach.in_ready [OF drain_reach.start 1]] 2 show ?thesis
    by blast
qed

text \<open>C5. What a drain captures and sends, end to end. Whatever the order in which readiness events
  call the handlers, at every moment the two buffers handed out are what the kernel delivered on
  the child's stdout and stderr, each cut at the limit, and what the kernel accepted on the
  child's stdin is a prefix of the caller's data, of the length the writer has recorded.\<close>

theorem drain_streams:
  assumes "drain_reach K R d0 w0 d w" and "io_bounded K" and "drain_made limit buf d0"
    and "distinct (slot_fds d0)"
  shows "\<exists>t. runs w0 w t \<and>
     fst (drain_into_parts K d w) =
       (case stdout_slot d0 of None \<Rightarrow> [] | Some s \<Rightarrow> take limit (delivered (raw (slot_fd s)) t),
        case stderr_slot d0 of None \<Rightarrow> [] | Some s \<Rightarrow> take limit (delivered (raw (slot_fd s)) t)) \<and>
     (\<forall>s. stdin_slot d0 = Some s \<longrightarrow> accepted (raw (slot_fd s)) t = take (wr_off (drain_writer d)) buf)"
proof -
  obtain t where t: "runs w0 w t" and inv: "drain_inv limit buf d0 d t"
    using drain_reach_inv [OF assms] by blast
  from inv have "stream_of o' (drain_buffer d) = (case slot_of o' d0 of
      None \<Rightarrow> [] | Some s \<Rightarrow> take limit (delivered (raw (slot_fd s)) t))" for o'
    unfolding drain_inv_def by blast
  from this [of True] this [of False] inv t show ?thesis
    by (auto simp: drain_into_parts_def buffer_into_parts_def stream_of_def slot_of_def drain_inv_def)
qed

theorem drain_streams_witness:
  "\<exists>w' t. runs demo_drain_world w' t \<and> take 2 (delivered 5 t) = [7, 8] \<and> accepted 4 t = [1, 2]"
proof -
  obtain w' where r: "drain_reach demo_os demo_reactor demo_drain demo_drain_world
     (demo_drain\<lparr>stdin_slot := None, drain_writer := \<lparr>wr_buf = None, wr_off = 2\<rparr>,
        stdout_slot := None,
        drain_buffer := \<lparr>buf_stdout = [7, 8], buf_stderr = [], buf_limit = 2\<rparr>\<rparr>) w'"
    using demo_drain_reach by blast
  show ?thesis
    using drain_streams [OF r demo_io_bounded demo_drain_made]
    by (auto simp: demo_drain_def drain_into_parts_def buffer_into_parts_def) metis
qed

text \<open>C10. No descriptor of a drain leaks or is closed twice. From any state the handlers can reach,
  dropping the drain leaves the caller with none of the descriptors the drain started with, each
  having been closed exactly once, and nothing else having been closed.\<close>

theorem drain_closes_all:
  assumes "drain_reach K R d0 w0 d w"
  shows "moves w0 (snd (drain_into_parts K d w)) (drain_owns d0) {#} \<and> drain_owns d \<subseteq># drain_owns d0"
proof -
  have sub: "slot_owns x \<subseteq># slot_owns y" if "x = None \<or> x = y" for x y using that by auto
  have step: "slot_of o' d2 = None \<or> slot_of o' d2 = slot_of o' d1"
    "stdin_slot d2 = None \<or> stdin_slot d2 = stdin_slot d1"
    if "handle_output K is_stdout d1 R w1 = Some ((res, d2), w2)" for is_stdout d1 w1 res d2 w2 o'
    using that by (cases rule: handle_output_cases; auto simp: without_def slot_of_def split: if_splits)+
  have step2: "slot_of o' d2 = slot_of o' d1" "stdin_slot d2 = None \<or> stdin_slot d2 = stdin_slot d1"
    if "handle_stdin_writable K d1 R w1 = Some ((res, d2), w2)" for d1 w1 res d2 w2 o'
    using that by (cases rule: handle_stdin_cases; auto simp: slot_of_def split: if_splits)+
  from assms have "(\<forall>o'. slot_of o' d = None \<or> slot_of o' d = slot_of o' d0) \<and>
      (stdin_slot d = None \<or> stdin_slot d = stdin_slot d0)"
  proof (induction rule: drain_reach.induct)
    case (out_ready d w is_stdout res d' w')
    from step [OF out_ready.hyps(2)] out_ready.IH show ?case by metis
  next
    case (in_ready d w res d' w')
    from step2 [OF in_ready.hyps(2)] in_ready.IH show ?case by metis
  qed simp
  then have "drain_owns d \<subseteq># drain_owns d0"
    unfolding drain_owns_def slot_of_def by (intro subset_mset.add_mono sub) (metis (full_types))+
  with drain_reach_moves [OF assms] drop_drain_moves [of w K d] show ?thesis
    by (auto simp: drain_into_parts_def intro: moves_trans)
qed

theorem drain_closes_all_witness:
  "\<exists>d w'. drain_reach demo_os demo_reactor demo_drain demo_drain_world d w' \<and>
     moves demo_drain_world (snd (drain_into_parts demo_os d w')) {#4, 5#} {#}"
proof -
  obtain d w' where r: "drain_reach demo_os demo_reactor demo_drain demo_drain_world d w'"
    using demo_drain_reach by blast
  from drain_closes_all [OF r] r show ?thesis
    by (auto simp: demo_drain_def drain_owns_def fd_owns_def add_mset_commute)
qed

text \<open>Construction. \<open>DrainState::new\<close> takes over the descriptors it is given: on success the drain
  owns exactly those that have a use (stdin only with data to write; otherwise it is closed), on
  error every one of them has been closed once; and a new drain has no reactor token, so no event
  can match it before it is registered.\<close>

theorem drain_new_owns:
  "case drain_new K i buf o_fd e limit ee w of (res, w') \<Rightarrow>
     moves w w' (opt_mset fd_owns i + opt_mset fd_owns o_fd + opt_mset fd_owns e)
       (case res of Inl _ \<Rightarrow> {#} | Inr d \<Rightarrow> drain_owns d) \<and>
     (case res of Inl _ \<Rightarrow> True
      | Inr d \<Rightarrow> drain_owns d = (if buf = None then {#} else opt_mset fd_owns i)
             + opt_mset fd_owns o_fd + opt_mset fd_owns e \<and>
          \<not> stdin_matches d tok \<and> \<not> stdout_matches d tok \<and> \<not> stderr_matches d tok \<and>
          (is_done d \<longleftrightarrow> (i = None \<or> buf = None) \<and> o_fd = None \<and> e = None))"
proof -
  have slot: "s = map_option (\<lambda>f. \<lparr>slot_token = None, slot_fd = f\<rparr>) x"
    if "new_slot K x w1 = (Inr s, w2)" for x s w1 w2
    using that by (auto simp: new_slot_def split: option.splits prod.splits sum.splits)
  have own: "slot_owns (map_option (\<lambda>f. \<lparr>slot_token = None, slot_fd = f\<rparr>) x) = opt_mset fd_owns x" for x
    by (cases x) simp_all
  have free: "\<not> slot_matches (map_option (\<lambda>f. \<lparr>slot_token = None, slot_fd = f\<rparr>) x) tok" for x
    by (cases x) (simp_all add: slot_matches_def)
  have free0: "\<not> slot_matches None tok" "\<not> slot_matches (Some \<lparr>slot_token = None, slot_fd = f\<rparr>) tok" for f
    by (simp_all add: slot_matches_def)
  obtain res w' where new: "drain_new K i buf o_fd e limit ee w = (res, w')" by fastforce
  have "drain_owns d = (if buf = None then {#} else opt_mset fd_owns i)
             + opt_mset fd_owns o_fd + opt_mset fd_owns e \<and>
          \<not> stdin_matches d tok \<and> \<not> stdout_matches d tok \<and> \<not> stderr_matches d tok \<and>
          (is_done d \<longleftrightarrow> (i = None \<or> buf = None) \<and> o_fd = None \<and> e = None)" if "res = Inr d" for d
    using new unfolding that
    by (auto simp: drain_new_def drain_owns_def own free free0 stdin_matches_def stdout_matches_def
        stderr_matches_def is_done_def Let_def ac_simps dest!: slot
        split: prod.splits sum.splits if_splits)
  with new drain_new_moves [OF new] show ?thesis by (auto split: sum.split)
qed

text \<open>C18. Tokens tell the streams apart. After a successful registration every open slot carries a
  token, an event token matches at most one of stdin, stdout and stderr, and the descriptors are
  the same as before; after a failed one the descriptors the drain no longer holds were closed.\<close>

theorem register_exclusive:
  assumes "register_with_reactor K d R w = ((res, d', R'), w')"
  shows "moves w w' (drain_owns d) (drain_owns d') \<and>
     (res = Inr () \<longrightarrow> drain_owns d' = drain_owns d \<and>
        (\<forall>s \<in> set_option (stdin_slot d') \<union> set_option (stdout_slot d') \<union> set_option (stderr_slot d').
           slot_token s \<noteq> None) \<and>
        (\<forall>tok. length (filter id [stdin_matches d' tok, stdout_matches d' tok, stderr_matches d' tok]) \<le> 1))"
proof -
  note spec = register_with_reactor_spec [OF assms]
  have own: "slot_owns (map_option (with_token t) x) = slot_owns x" for t x by (cases x) simp_all
  have match: "slot_matches (map_option (with_token t) x) tok \<longleftrightarrow> x \<noteq> None \<and> tok = t" for t x tok
    by (cases x) (auto simp: slot_matches_def)
  have "drain_owns d' = drain_owns d \<and>
        (\<forall>s \<in> set_option (stdin_slot d') \<union> set_option (stdout_slot d') \<union> set_option (stderr_slot d').
           slot_token s \<noteq> None) \<and>
        (\<forall>tok. length (filter id [stdin_matches d' tok, stdout_matches d' tok, stderr_matches d' tok]) \<le> 1)"
    if "res = Inr ()"
  proof -
    from spec(4) [OF that] obtain t1 t2 t3 where "distinct [t1, t2, t3]"
      "d' = d\<lparr>stdin_slot := map_option (with_token t1) (stdin_slot d),
              stdout_slot := map_option (with_token t2) (stdout_slot d),
              stderr_slot := map_option (with_token t3) (stderr_slot d)\<rparr>" by blast
    then show ?thesis
      by (auto simp: drain_owns_def own stdin_matches_def stdout_matches_def stderr_matches_def match)
  qed
  with spec(1) show ?thesis by blast
qed

theorem register_exclusive_witness:
  "\<exists>d' R' w'. register_with_reactor demo_os demo_drain demo_reactor (demo_world [] [] [])
     = ((Inr (), d', R'), w') \<and> drain_owns d' = {#4, 5#} \<and> stdin_matches d' (Token 4) \<and>
       stdout_matches d' (Token 5)"
proof -
  obtain d' R' w' where r: "register_with_reactor demo_os demo_drain demo_reactor (demo_world [] [] [])
     = ((Inr (), d', R'), w')" and m: "stdin_matches d' (Token 4)" "stdout_matches d' (Token 5)"
    by (simp add: register_with_reactor_def register_slot_def add_def add_with_token_def
        stdin_matches_def stdout_matches_def slot_matches_def demo_drain_def demo_reactor_def demo_run)
  from register_exclusive [OF r] r m show ?thesis
    by (auto simp: demo_drain_def drain_owns_def fd_owns_def add_mset_commute)
qed

text \<open>C19. When an output handler gives its pipe up. A handler that succeeds keeps the pipe only if the
  kernel's last answer was EAGAIN, so that under edge triggering no event is lost; it gives the
  pipe up only after end of file or when the callback accepted a chunk of stdout, and then the
  last thing it does is to remove the descriptor from epoll and to close it, in that order. A
  handler that fails keeps the pipe, and the error is the kernel's.\<close>

theorem handle_output_edge:
  assumes "handle_output K is_stdout d R w = Some ((res, d'), w')" and "io_bounded K"
    and "slot_of is_stdout d = Some s"
  shows "\<exists>t1 t2. runs w w' (t1 @ t2) \<and> t1 \<noteq> [] \<and> reads_only (raw (slot_fd s)) t1 \<and>
     (if slot_of is_stdout d' = None
      then res = Inr () \<and> released R s t2 \<and>
        (r_ret (snd (last t1)) = 0 \<or> is_stdout \<and> drain_early_exit d \<noteq> None \<and> 0 < r_ret (snd (last t1)))
      else t2 = [] \<and> slot_of is_stdout d' = Some s \<and>
        (case res of Inr _ \<Rightarrow> would_block (snd (last t1))
         | Inl e \<Rightarrow> r_ret (snd (last t1)) < 0 \<and> code e = r_errno (snd (last t1))))"
  using assms(1)
proof (cases rule: handle_output_cases)
  case gone
  with assms(3) show ?thesis by simp
next
  case (read s' rr b ee w1)
  with assms(3) have s: "s' = s" by simp
  obtain t cs stop where t: "runs w w1 t" "t \<noteq> []" "reads_only (raw (slot_fd s)) t"
    and c: "consulted is_stdout (drain_early_exit d) cs stop ee"
    and l: "if stop then rr = Inr True \<and> 0 < r_ret (snd (last t)) else drained rr (snd (last t))"
    by (rule read_from_fd_spec [OF read(2) [unfolded s] assms(2)])
  from c have stop: "stop \<Longrightarrow> is_stdout \<and> drain_early_exit d \<noteq> None"
    by (induction rule: consulted.induct) auto
  show ?thesis
  proof (cases "rr = Inr True")
    case True
    with read(3) s have w': "w' = release_slot K (Some s) R w1" and res: "res = Inr ()"
      and d': "slot_of is_stdout d' = None"
      by (auto simp: slot_of_def without_def)
    obtain t2 where t2: "runs w1 w' t2" "released R s t2"
      using release_slot_released [of w1 K s R] w' by blast
    show ?thesis
      by (intro exI [of _ t] exI [of _ t2])
        (use runs_trans [OF t(1) t2(1)] t t2 res d' l stop True in \<open>auto simp: drained_def split: if_splits\<close>)
  next
    case False
    with read(3) have w': "w' = w1" and res: "res = (case rr of Inl e \<Rightarrow> Inl e | Inr _ \<Rightarrow> Inr ())"
      and d': "slot_of is_stdout d' = Some s"
      using assms(3) by (auto simp: slot_of_def)
    from l False have "drained rr (snd (last t))" by (auto split: if_splits)
    with False have "case res of Inr _ \<Rightarrow> would_block (snd (last t))
         | Inl e \<Rightarrow> r_ret (snd (last t)) < 0 \<and> code e = r_errno (snd (last t))"
      unfolding res by (auto simp: drained_def split: sum.splits bool.splits)
    with t w' d' show ?thesis by (intro exI [of _ t] exI [of _ "[]"]) auto
  qed
qed

theorem handle_output_edge_witness:
  "\<exists>w' t. runs (demo_world [Data [7], Wait] [] []) w' t \<and> t \<noteq> [] \<and> would_block (snd (last t))"
proof -
  obtain d' w' where r: "handle_output demo_os True demo_drain demo_reactor (demo_world [Data [7], Wait] [] [])
      = Some ((Inr (), d'), w')" and d': "slot_of True d' \<noteq> None"
    by (simp add: handle_output_def demo_drain_def demo_reactor_def slot_of_def drain_run
        cong: bind_eval_cong prod.case_cong_weak)
  have "slot_of True demo_drain = Some \<lparr>slot_token = Some (Token 2), slot_fd = Fd 5\<rparr>"
    by (simp add: slot_of_def demo_drain_def)
  from handle_output_edge [OF r demo_io_bounded this] d' show ?thesis by auto
qed

text \<open>C27. The handlers and the direct calls agree: \<open>read_fd\<close> leaves the drain in the same state as the
  reactor's handler and fails exactly when it does; it reports "done" exactly when afterwards the
  slot is empty.\<close>

theorem read_fd_agrees:
  "map_option (\<lambda>((res, d'), w'). (d', is_ok res)) (read_fd K d is_stdout w) =
   map_option (\<lambda>((res, d'), w'). (d', is_ok res)) (handle_output K is_stdout d R w) \<and>
   (case read_fd K d is_stdout w of
      Some ((Inr eof, d'), w') \<Rightarrow> eof \<longleftrightarrow> slot_of is_stdout d' = None
    | _ \<Rightarrow> True)"
proof (cases "slot_of is_stdout d")
  case None
  then show ?thesis
    by (cases is_stdout)
      (simp_all add: slot_of_def read_fd_def handle_output_def handle_stdout_ready_def handle_stderr_ready_def)
next
  case (Some s)
  show ?thesis
  proof (cases "read_from_fd K (drain_buffer d) (slot_fd s) is_stdout (drain_early_exit d) w")
    case None
    with Some show ?thesis
      by (cases is_stdout)
        (simp_all add: slot_of_def read_fd_def handle_output_def handle_stdout_ready_def handle_stderr_ready_def)
  next
    case r: (Some y)
    obtain rr b ee w1 where "y = ((rr, b, ee), w1)" by (metis prod.exhaust)
    with Some r show ?thesis
      by (cases is_stdout; cases rr)
        (simp_all add: slot_of_def read_fd_def handle_output_def handle_stdout_ready_def
          handle_stderr_ready_def drop_stdout_def drop_stderr_def Let_def split: bool.split)
  qed
qed

text \<open>A handler fails to return only inside its transfer loop.\<close>

lemma handle_output_hangs_iff:
  "handle_output K is_stdout d R w = None \<longleftrightarrow>
     (\<exists>s. slot_of is_stdout d = Some s \<and>
        read_from_fd K (drain_buffer d) (slot_fd s) is_stdout (drain_early_exit d) w = None)"
proof (cases "slot_of is_stdout d")
  case None
  then show ?thesis
    by (cases is_stdout) (simp_all add: slot_of_def handle_output_def handle_stdout_ready_def handle_stderr_ready_def)
next
  case (Some s)
  show ?thesis
  proof (cases "read_from_fd K (drain_buffer d) (slot_fd s) is_stdout (drain_early_exit d) w")
    case None
    with Some show ?thesis
      by (cases is_stdout) (simp_all add: slot_of_def handle_output_def handle_stdout_ready_def handle_stderr_ready_def)
  next
    case r: (Some y)
    obtain rr b ee w1 where y: "y = ((rr, b, ee), w1)" by (metis prod.exhaust)
    from Some r show ?thesis
      unfolding y by (cases is_stdout; cases rr)
        (simp_all add: slot_of_def handle_output_def handle_stdout_ready_def handle_stderr_ready_def
          Let_def drop_stdout_def drop_stderr_def split: bool.split)
  qed
qed

lemma read_from_fd_hangs_iff:
  "read_from_fd K b f is_stdout ee w = None \<longleftrightarrow>
     read_from_fd_loop K f is_stdout (buf_limit b) (stream_of is_stdout b) ee w = None"
  unfolding read_from_fd_def stream_of_def
  by (cases "read_from_fd_loop K f is_stdout (buf_limit b) (if is_stdout then buf_stdout b else buf_stderr b) ee w") auto

lemma handle_output_hangs:
  assumes "handle_output K is_stdout d R w = None"
  obtains s where "slot_of is_stdout d = Some s" and "endless K (flows (raw (slot_fd s))) w"
  using assms read_from_fd_loop_hangs unfolding handle_output_hangs_iff read_from_fd_hangs_iff by blast

lemma handle_output_flooded:
  assumes "slot_of is_stdout d = Some s" and "\<not> is_stdout \<or> drain_early_exit d = None"
    and "\<And>cnt k. 0 < cnt \<Longrightarrow> 0 < r_ret (fst (trap K (Read (raw (slot_fd s)) cnt) k))"
  shows "handle_output K is_stdout d R w = None"
  using assms(1) read_from_fd_loop_flooded [OF assms(3,2)]
  unfolding handle_output_hangs_iff read_from_fd_hangs_iff by blast

lemma handle_stdin_hangs:
  assumes "handle_stdin_writable K d R w = None"
  obtains s t w' where "stdin_slot d = Some s" and "execs K w t w'"
    and "endless K (write_interrupted (raw (slot_fd s))) w'"
proof -
  obtain s where s: "stdin_slot d = Some s" using assms by (cases "stdin_slot d") (simp_all add: handle_stdin_writable_def)
  have "write_to_fd K (drain_writer d) (slot_fd s) w = None"
  proof (cases "write_to_fd K (drain_writer d) (slot_fd s) w")
    case (Some y)
    obtain rr st w1 where y: "y = ((rr, st), w1)" by (metis prod.exhaust)
    from assms s Some show ?thesis
      unfolding y by (cases rr) (auto simp: handle_stdin_writable_def drop_stdin_def Let_def split: if_splits prod.splits)
  qed simp
  with write_to_fd_hangs s that show thesis by blast
qed

text \<open>C37. When a handler does not return. A read handler hangs only if the kernel goes on for ever answering
  reads of its own pipe with data (or interruptions), the write handler only if its write is interrupted
  for ever; and a pipe that always has data does keep its read handler for ever, stderr always and stdout
  unless a callback may end it. The loop that looks at the deadline is not entered in between, so a child
  that writes as fast as it is read is not subject to its timeout.\<close>

theorem handlers_hang:
  "(handle_stdout_ready K d R w = None \<longrightarrow>
      (\<exists>s. stdout_slot d = Some s \<and> endless K (flows (raw (slot_fd s))) w)) \<and>
   (handle_stderr_ready K d R w = None \<longrightarrow>
      (\<exists>s. stderr_slot d = Some s \<and> endless K (flows (raw (slot_fd s))) w)) \<and>
   (handle_stdin_writable K d R w = None \<longrightarrow>
      (\<exists>s t w'. stdin_slot d = Some s \<and> execs K w t w' \<and> endless K (write_interrupted (raw (slot_fd s))) w')) \<and>
   (\<forall>s. stdout_slot d = Some s \<longrightarrow> drain_early_exit d = None \<longrightarrow>
      (\<forall>cnt k. 0 < cnt \<longrightarrow> 0 < r_ret (fst (trap K (Read (raw (slot_fd s)) cnt) k))) \<longrightarrow> handle_stdout_ready K d R w = None) \<and>
   (\<forall>s. stderr_slot d = Some s \<longrightarrow>
      (\<forall>cnt k. 0 < cnt \<longrightarrow> 0 < r_ret (fst (trap K (Read (raw (slot_fd s)) cnt) k))) \<longrightarrow> handle_stderr_ready K d R w = None)"
proof (intro conjI impI allI)
  assume "handle_stdout_ready K d R w = None"
  then have "handle_output K True d R w = None" by (simp add: handle_output_def)
  then show "\<exists>s. stdout_slot d = Some s \<and> endless K (flows (raw (slot_fd s))) w"
    by (rule handle_output_hangs) (auto simp: slot_of_def)
next
  assume "handle_stderr_ready K d R w = None"
  then have "handle_output K False d R w = None" by (simp add: handle_output_def)
  then show "\<exists>s. stderr_slot d = Some s \<and> endless K (flows (raw (slot_fd s))) w"
    by (rule handle_output_hangs) (auto simp: slot_of_def)
next
  assume "handle_stdin_writable K d R w = None"
  then show "\<exists>s t w'. stdin_slot d = Some s \<and> execs K w t w' \<and> endless K (write_interrupted (raw (slot_fd s))) w'"
    by (rule handle_stdin_hangs) blast
next
  fix s assume "stdout_slot d = Some s" "drain_early_exit d = None"
    "\<forall>cnt k. 0 < cnt \<longrightarrow> 0 < r_ret (fst (trap K (Read (raw (slot_fd s)) cnt) k))"
  then have "handle_output K True d R w = None" by (intro handle_output_flooded) (auto simp: slot_of_def)
  then show "handle_stdout_ready K d R w = None" by (simp add: handle_output_def)
next
  fix s assume "stderr_slot d = Some s" "\<forall>cnt k. 0 < cnt \<longrightarrow> 0 < r_ret (fst (trap K (Read (raw (slot_fd s)) cnt) k))"
  then have "handle_output K False d R w = None" by (intro handle_output_flooded) (auto simp: slot_of_def)
  then show "handle_stderr_ready K d R w = None" by (simp add: handle_output_def)
qed

theorem handlers_hang_witness:
  "\<exists>K :: unit os. io_bounded K \<and> (\<exists>w s. stdout_slot demo_drain = Some s \<and>
     handle_stdout_ready K demo_drain demo_reactor w = None \<and> endless K (flows (raw (slot_fd s))) w)"
proof -
  let ?K = "\<lparr>trap = (\<lambda>c k. (\<lparr>r_ret = (case c of Read n cnt \<Rightarrow> min 1 (int cnt) | Write n bs \<Rightarrow> int (length bs) | _ \<Rightarrow> 0),
        r_errno = 0,
        r_out = OutBytes (case c of Read n cnt \<Rightarrow> take cnt [121] | _ \<Rightarrow> [])\<rparr>, k)),
     os_WIFEXITED = (\<lambda>_. True), os_WEXITSTATUS = (\<lambda>_. 0), os_WIFSIGNALED = (\<lambda>_. False),
     os_WTERMSIG = (\<lambda>_. 0)\<rparr> :: unit os"
  let ?w = "\<lparr>kst = (), errno = 0, trace = []\<rparr>"
  have slot: "stdout_slot demo_drain = Some \<lparr>slot_token = Some (Token 2), slot_fd = Fd 5\<rparr>"
    and ee: "drain_early_exit demo_drain = None" by (simp_all add: demo_drain_def)
  have io: "io_bounded ?K" by (auto simp: io_bounded_def)
  have "\<forall>cnt k. 0 < cnt \<longrightarrow> 0 < r_ret (fst (trap ?K (Read (raw (slot_fd \<lparr>slot_token = Some (Token 2), slot_fd = Fd 5\<rparr>)) cnt) k))"
    by simp
  with slot ee have h: "handle_stdout_ready ?K demo_drain demo_reactor ?w = None"
    using handlers_hang [of ?K demo_drain demo_reactor ?w] by blast
  then obtain s where "stdout_slot demo_drain = Some s" "endless ?K (flows (raw (slot_fd s))) ?w"
    using handlers_hang [of ?K demo_drain demo_reactor ?w] by blast
  with io h show ?thesis by blast
qed

end
