(* ===== verification/Spawn.thy ===== *)
theory Spawn
  imports SysMod Proc Drain
begin

text \<open>
  Starting a process: the options and their builder, the choice of the backend, the pipes, and the two
  backends of \<^verbatim>\<open>src/src/spawn/mod.rs\<close> (lines 157 to 245, 356 to 630 and 676 to 1048). A \<open>fork\<close> returns
  twice; the child never returns from the backend, so the result of a backend is a \<open>forked\<close> value.
\<close>

section \<open>Options\<close>

datatype spawn_backend = Sb_Auto | Sb_PosixSpawn | Sb_Fork

record spawn_options =
  so_ctx :: exec_context
  so_stdin :: "byte list option"
  so_capture_stdout :: bool
  so_capture_stderr :: bool
  so_wait :: bool
  so_pgroup :: process_group
  so_max_output :: nat
  so_timeout_ms :: "u32 option"
  so_kill_grace_ms :: u32
  so_cancel :: cancel_policy
  so_backend :: spawn_backend
  so_early_exit :: "(byte list \<Rightarrow> bool) option"

record spawn_options_builder =
  sb_argv :: "str list"
  sb_env :: "str list option"
  sb_cwd :: "str option"
  sb_stdin :: "byte list option"
  sb_capture_stdout :: bool
  sb_capture_stderr :: bool
  sb_wait :: bool
  sb_pgroup :: process_group
  sb_max_output :: nat
  sb_timeout_ms :: "u32 option"
  sb_kill_grace_ms :: u32
  sb_cancel :: cancel_policy
  sb_backend :: spawn_backend
  sb_early_exit :: "(byte list \<Rightarrow> bool) option"

definition builder_new :: "str list \<Rightarrow> spawn_options_builder" where
  "builder_new argv =
     \<lparr>sb_argv = argv, sb_env = None, sb_cwd = None, sb_stdin = None,
      sb_capture_stdout = False, sb_capture_stderr = False, sb_wait = True,
      sb_pgroup = process_group_new None False, sb_max_output = 1024 * 1024,
      sb_timeout_ms = None, sb_kill_grace_ms = 2000, sb_cancel = Cancel_kill,
      sb_backend = Sb_Auto, sb_early_exit = None\<rparr>"

definition builder :: "str list \<Rightarrow> spawn_options_builder" where
  "builder argv = builder_new argv"

definition with_env :: "str list \<Rightarrow> spawn_options_builder \<Rightarrow> spawn_options_builder" where
  "with_env x b = b\<lparr>sb_env := Some x\<rparr>"

definition with_cwd :: "str \<Rightarrow> spawn_options_builder \<Rightarrow> spawn_options_builder" where
  "with_cwd x b = b\<lparr>sb_cwd := Some x\<rparr>"

definition with_stdin :: "byte list \<Rightarrow> spawn_options_builder \<Rightarrow> spawn_options_builder" where
  "with_stdin x b = b\<lparr>sb_stdin := Some x\<rparr>"

definition with_capture_stdout :: "spawn_options_builder \<Rightarrow> spawn_options_builder" where
  "with_capture_stdout b = b\<lparr>sb_capture_stdout := True\<rparr>"

definition with_capture_stderr :: "spawn_options_builder \<Rightarrow> spawn_options_builder" where
  "with_capture_stderr b = b\<lparr>sb_capture_stderr := True\<rparr>"

definition with_wait :: "bool \<Rightarrow> spawn_options_builder \<Rightarrow> spawn_options_builder" where
  "with_wait x b = b\<lparr>sb_wait := x\<rparr>"

definition with_pgroup :: "process_group \<Rightarrow> spawn_options_builder \<Rightarrow> spawn_options_builder" where
  "with_pgroup x b = b\<lparr>sb_pgroup := x\<rparr>"

definition with_max_output :: "nat \<Rightarrow> spawn_options_builder \<Rightarrow> spawn_options_builder" where
  "with_max_output x b = b\<lparr>sb_max_output := x\<rparr>"

definition with_timeout_ms :: "u32 \<Rightarrow> spawn_options_builder \<Rightarrow> spawn_options_builder" where
  "with_timeout_ms x b = b\<lparr>sb_timeout_ms := Some x\<rparr>"

definition with_kill_grace_ms :: "u32 \<Rightarrow> spawn_options_builder \<Rightarrow> spawn_options_builder" where
  "with_kill_grace_ms x b = b\<lparr>sb_kill_grace_ms := x\<rparr>"

definition with_cancel :: "cancel_policy \<Rightarrow> spawn_options_builder \<Rightarrow> spawn_options_builder" where
  "with_cancel x b = b\<lparr>sb_cancel := x\<rparr>"

definition with_backend :: "spawn_backend \<Rightarrow> spawn_options_builder \<Rightarrow> spawn_options_builder" where
  "with_backend x b = b\<lparr>sb_backend := x\<rparr>"

definition with_early_exit :: "(byte list \<Rightarrow> bool) \<Rightarrow> spawn_options_builder \<Rightarrow> spawn_options_builder" where
  "with_early_exit x b = b\<lparr>sb_early_exit := Some x\<rparr>"

definition build :: "spawn_options_builder \<Rightarrow> sys_error + spawn_options" where
  "build b =
     (case exec_context_new (sb_argv b) (sb_env b) (sb_cwd b) of
        Inl e \<Rightarrow> Inl e
      | Inr ctx \<Rightarrow>
          Inr \<lparr>so_ctx = ctx, so_stdin = sb_stdin b, so_capture_stdout = sb_capture_stdout b,
               so_capture_stderr = sb_capture_stderr b, so_wait = sb_wait b,
               so_pgroup = sb_pgroup b, so_max_output = sb_max_output b,
               so_timeout_ms = sb_timeout_ms b, so_kill_grace_ms = sb_kill_grace_ms b,
               so_cancel = sb_cancel b, so_backend = sb_backend b, so_early_exit = sb_early_exit b\<rparr>)"

section \<open>The backend\<close>

text \<open>
  \<open>select_backend\<close> caches its answer in a process-wide cell. Only a build for Android looks at the
  system property; \<open>android\<close> is that build-time choice. The property call never reports more than
  the 92 bytes of the buffer it is given (\<open>PROP_VALUE_MAX\<close>).
\<close>

datatype backend = Backend_PosixSpawn | Backend_Fork

definition probe_backend :: "'k os \<Rightarrow> bool \<Rightarrow> 'k world \<Rightarrow> backend \<times> 'k world" where
  "probe_backend K android w =
     (if android
      then (let (r, w1) = sys K (PropertyGet (ascii ''ro.build.version.sdk'')) w;
                value_buf = store (replicate 92 0) (out_bytes (r_out r))
            in if 0 < r_ret r
               then (let s = (case from_utf8 (take (nat (r_ret r)) value_buf) of None \<Rightarrow> [] | Some s \<Rightarrow> s)
                     in case parse_u32 s of
                          Some api \<Rightarrow> (if api < 32 then Backend_Fork else Backend_PosixSpawn, w1)
                        | None \<Rightarrow> (Backend_PosixSpawn, w1))
               else (Backend_PosixSpawn, w1))
      else (Backend_PosixSpawn, w))"

definition select_backend ::
  "'k os \<Rightarrow> bool \<Rightarrow> backend option \<Rightarrow> 'k world \<Rightarrow> (backend \<times> backend option) \<times> 'k world" where
  "select_backend K android cell w =
     (case cell of
        Some b \<Rightarrow> ((b, cell), w)
      | None \<Rightarrow> (let (b, w1) = probe_backend K android w in ((b, Some b), w1)))"

definition force_fork :: "spawn_options \<Rightarrow> bool" where
  "force_fork opts \<longleftrightarrow> pg_isolated (so_pgroup opts) \<or> ec_cwd (so_ctx opts) \<noteq> None"

definition resolve_backend ::
  "'k os \<Rightarrow> bool \<Rightarrow> backend option \<Rightarrow> spawn_options \<Rightarrow> 'k world \<Rightarrow> (backend \<times> backend option) \<times> 'k world" where
  "resolve_backend K android cell opts w =
     (if force_fork opts then ((Backend_Fork, cell), w)
      else case so_backend opts of
        Sb_Auto \<Rightarrow> select_backend K android cell w
      | Sb_PosixSpawn \<Rightarrow> ((Backend_PosixSpawn, cell), w)
      | Sb_Fork \<Rightarrow> ((Backend_Fork, cell), w))"

section \<open>Pipes\<close>

record pipes =
  stdin_r :: "fd option"
  stdin_w :: "fd option"
  stdout_r :: "fd option"
  stdout_w :: "fd option"
  stderr_r :: "fd option"
  stderr_w :: "fd option"

definition make_pipe :: "'k os \<Rightarrow> 'k world \<Rightarrow> (sys_error + fd \<times> fd) \<times> 'k world" where
  "make_pipe K w =
     (let (r, w1) = sys K (Pipe2 (O_CLOEXEC OR O_NONBLOCK)) w;
          (a, b) = out_fds (r_out r)
      in case syscall_ret (r_ret r) ''pipe2'' w1 of
           Inl e \<Rightarrow> (Inl e, w1)
         | Inr _ \<Rightarrow>
             (case fd_new a ''pipe2'' w1 of
                Inl e \<Rightarrow> (Inl e, w1)
              | Inr fa \<Rightarrow>
                  (case fd_new b ''pipe2'' w1 of
                     Inl e \<Rightarrow> (Inl e, drop_fd K fa w1)
                   | Inr fb \<Rightarrow> (Inr (fa, fb), w1))))"

definition pipe_if :: "'k os \<Rightarrow> bool \<Rightarrow> 'k world \<Rightarrow> (sys_error + fd option \<times> fd option) \<times> 'k world" where
  "pipe_if K wanted w =
     (if wanted
      then (let (res, w1) = make_pipe K w
            in case res of
                 Inl e \<Rightarrow> (Inl e, w1)
               | Inr (a, b) \<Rightarrow> (Inr (Some a, Some b), w1))
      else (Inr (None, None), w))"

definition pipes_new :: "'k os \<Rightarrow> byte list option \<Rightarrow> bool \<Rightarrow> bool \<Rightarrow> 'k world \<Rightarrow> (sys_error + pipes) \<times> 'k world" where
  "pipes_new K in_buf out err w =
     (let (p1, w1) = pipe_if K (in_buf \<noteq> None) w
      in case p1 of
           Inl e \<Rightarrow> (Inl e, w1)
         | Inr (in_r, in_w) \<Rightarrow>
             (let (p2, w2) = pipe_if K out w1
              in case p2 of
                   Inl e \<Rightarrow> (Inl e, drop_opt_fd K in_r (drop_opt_fd K in_w w2))
                 | Inr (out_r, out_w) \<Rightarrow>
                     (let (p3, w3) = pipe_if K err w2
                      in case p3 of
                           Inl e \<Rightarrow>
                             (Inl e, drop_opt_fd K in_r (drop_opt_fd K in_w
                                       (drop_opt_fd K out_r (drop_opt_fd K out_w w3))))
                         | Inr (err_r, err_w) \<Rightarrow>
                             (Inr \<lparr>stdin_r = in_r, stdin_w = in_w, stdout_r = out_r,
                                   stdout_w = out_w, stderr_r = err_r, stderr_w = err_w\<rparr>, w3))))"

definition close_all :: "'k os \<Rightarrow> pipes \<Rightarrow> 'k world \<Rightarrow> 'k world" where
  "close_all K p w =
     drop_opt_fd K (stderr_w p) (drop_opt_fd K (stderr_r p)
       (drop_opt_fd K (stdout_w p) (drop_opt_fd K (stdout_r p)
         (drop_opt_fd K (stdin_w p) (drop_opt_fd K (stdin_r p) w)))))"

text \<open>
  The end of both backends in the parent: the child's ends are closed, the parent's go into the
  drain. A plain \<open>fn\<close> pointer is a callback without state.
\<close>

definition fn_closure :: "(byte list \<Rightarrow> bool) \<Rightarrow> unit closure" where
  "fn_closure f = ((), \<lambda>s bs. (f bs, s))"

definition parent_drain ::
  "'k os \<Rightarrow> spawn_options \<Rightarrow> pipes \<Rightarrow> 'k world \<Rightarrow> (sys_error + unit drain_state) \<times> 'k world" where
  "parent_drain K opts p w =
     (let w1 = drop_opt_fd K (stdin_r p) w;
          w2 = drop_opt_fd K (stdout_w p) w1;
          w3 = drop_opt_fd K (stderr_w p) w2;
          (in_fd, w4) = (if so_stdin opts \<noteq> None then (stdin_w p, w3)
                         else (None, drop_opt_fd K (stdin_w p) w3))
      in drain_new K in_fd (so_stdin opts) (stdout_r p) (stderr_r p) (so_max_output opts)
           (map_option fn_closure (so_early_exit opts)) w4)"

section \<open>The posix_spawn backend\<close>

definition POSIX_SPAWN_SETPGROUP :: int where "POSIX_SPAWN_SETPGROUP = 2"
definition POSIX_SPAWN_SETSIGDEF :: int where "POSIX_SPAWN_SETSIGDEF = 4"
definition POSIX_SPAWN_SETSIGMASK :: int where "POSIX_SPAWN_SETSIGMASK = 8"

text \<open>
  The file actions for the three streams, each with the name its failure is reported under, and the
  code that adds them one by one until one fails.
\<close>

definition stdin_actions :: "pipes \<Rightarrow> (call \<times> string) list" where
  "stdin_actions p =
     (case (stdin_r p, stdin_w p) of
        (Some r, Some w) \<Rightarrow>
          [(FaAddDup2 (raw r) 0, ''dup2 stdin''), (FaAddClose (raw r), ''close stdin pipe''),
           (FaAddClose (raw w), ''close stdin write pipe'')]
      | _ \<Rightarrow> [])"

definition stdout_actions :: "pipes \<Rightarrow> (call \<times> string) list" where
  "stdout_actions p =
     (case (stdout_r p, stdout_w p) of
        (Some r, Some w) \<Rightarrow>
          [(FaAddDup2 (raw w) 1, ''dup2 stdout''), (FaAddClose (raw w), ''close stdout pipe''),
           (FaAddClose (raw r), ''close stdout read pipe'')]
      | _ \<Rightarrow> [])"

definition stderr_actions :: "pipes \<Rightarrow> (call \<times> string) list" where
  "stderr_actions p =
     (case (stderr_r p, stderr_w p) of
        (Some r, Some w) \<Rightarrow>
          [(FaAddDup2 (raw w) 2, ''dup2 stderr''), (FaAddClose (raw w), ''close stderr pipe''),
           (FaAddClose (raw r), ''close stderr read pipe'')]
      | _ \<Rightarrow> [])"

fun posix_calls :: "'k os \<Rightarrow> (call \<times> string) list \<Rightarrow> 'k world \<Rightarrow> (sys_error + unit) \<times> 'k world" where
  "posix_calls K [] w = (Inr (), w)"
| "posix_calls K ((c, o_name) # cs) w =
     (let (r, w1) = sys K c w
      in case posix_ret (r_ret r) o_name of
           Inl e \<Rightarrow> (Inl e, w1)
         | Inr _ \<Rightarrow> posix_calls K cs w1)"

definition handled_fds :: "pipes \<Rightarrow> int list" where
  "handled_fds p =
     concat (map (case_option [] (\<lambda>f. [raw f]))
       [stdin_r p, stdin_w p, stdout_r p, stdout_w p, stderr_r p, stderr_w p])"

text \<open>
  The scan of \<open>/proc/self/fd\<close>. \<open>readdir\<close> answers 0 for the null pointer at the end; a name that is
  the decimal number of a descriptor not handled already is closed in the child.
\<close>

definition inherited :: "int \<Rightarrow> int list \<Rightarrow> byte list \<Rightarrow> int option" where
  "inherited dir_fd handled name_bytes =
     (case from_utf8 name_bytes of
        None \<Rightarrow> None
      | Some s \<Rightarrow>
          (case parse_i32 s of
             None \<Rightarrow> None
           | Some n \<Rightarrow> if 2 < n \<and> n \<noteq> dir_fd \<and> n \<notin> set handled then Some n else None))"

partial_function (option) scan_dir :: "'k os \<Rightarrow> int \<Rightarrow> int list \<Rightarrow> 'k world \<Rightarrow> 'k world option" where
  "scan_dir K dir_fd handled w =
     (let (entry, w1) = sys K (Readdir dir_fd) w
      in if r_ret entry = 0 then Some w1
         else case inherited dir_fd handled (out_bytes (r_out entry)) of
                None \<Rightarrow> scan_dir K dir_fd handled w1
              | Some n \<Rightarrow> scan_dir K dir_fd handled (snd (sys K (FaAddClose n) w1)))"

definition close_inherited :: "'k os \<Rightarrow> int list \<Rightarrow> 'k world \<Rightarrow> 'k world option" where
  "close_inherited K handled w =
     (let (r, w1) = sys K OpenFdDir w; dir_fd = r_ret r
      in if 0 \<le> dir_fd
         then (let (d, w2) = sys K (Fdopendir dir_fd) w1
               in if r_ret d \<noteq> 0
                  then do {
                    w3 \<leftarrow> scan_dir K dir_fd handled w2;
                    Some (snd (sys K (Closedir dir_fd) w3))
                  }
                  else Some (snd (sys K (Close dir_fd) w2)))
         else Some w1)"

text \<open>The attribute calls after \<open>attr_init\<close>, in order.\<close>

definition attr_actions :: "process_group \<Rightarrow> (call \<times> string) list" where
  "attr_actions pg =
     (let flags0 = (0 :: int);
          (flags1, set_pg) = (case pg_leader pg of
             None \<Rightarrow> (flags0, [])
           | Some n \<Rightarrow> (flags0 OR POSIX_SPAWN_SETPGROUP, [(AttrSetpgroup n, ''setpgroup'')]));
          flags = flags1 OR (POSIX_SPAWN_SETSIGMASK OR POSIX_SPAWN_SETSIGDEF)
      in set_pg @ [(AttrSetflags flags, ''setflags''), (AttrSetsigmask empty_set, ''setsigmask''),
           (AttrSetsigdefault (set_with [SIGPIPE]), ''setsigdefault'')])"

definition exe_of :: "spawn_options \<Rightarrow> byte list" where
  "exe_of opts = (case ec_argv (so_ctx opts) of Dynamic v \<Rightarrow> hd v)"

definition fa_destroy :: "'k os \<Rightarrow> 'k world \<Rightarrow> 'k world" where
  "fa_destroy K w = snd (sys K FaDestroy w)"

definition attr_destroy :: "'k os \<Rightarrow> 'k world \<Rightarrow> 'k world" where
  "attr_destroy K w = snd (sys K AttrDestroy w)"

text \<open>
  The part of the backend that runs under both guards: the attributes, the spawn itself and the
  parent's end; the guards are dropped on every way out, the attributes first.
\<close>

definition posix_attrs ::
  "'k os \<Rightarrow> spawn_options \<Rightarrow> pipes \<Rightarrow> 'k world \<Rightarrow> (sys_error + int \<times> unit drain_state) \<times> 'k world" where
  "posix_attrs K opts p w =
     (let (r1, w1) = posix_calls K (attr_actions (so_pgroup opts)) w
      in case r1 of
           Inl e \<Rightarrow> (Inl e, attr_destroy K (close_all K p w1))
         | Inr _ \<Rightarrow>
             (let argv = get_argv_ptrs (so_ctx opts);
                  envp = get_envp_ptrs (so_ctx opts);
                  (r, w2) = sys K (PosixSpawn (exe_of opts) (c_array argv) (map_option c_array envp)) w1
              in case posix_ret (r_ret r) ''posix_spawn'' of
                   Inl e \<Rightarrow> (Inl e, attr_destroy K (close_all K p w2))
                 | Inr _ \<Rightarrow>
                     (let (res, w3) = parent_drain K opts p w2
                      in case res of
                           Inl e \<Rightarrow> (Inl e, attr_destroy K w3)
                         | Inr d \<Rightarrow> (Inr (out_num (r_out r), d), attr_destroy K w3))))"

definition spawn_posix_internal ::
  "'k os \<Rightarrow> spawn_options \<Rightarrow> 'k world \<Rightarrow> ((sys_error + int \<times> unit drain_state) \<times> 'k world) option" where
  "spawn_posix_internal K opts w =
     (let (pr, w1) = pipes_new K (so_stdin opts) (so_capture_stdout opts) (so_capture_stderr opts) w
      in case pr of
           Inl e \<Rightarrow> Some (Inl e, w1)
         | Inr p \<Rightarrow>
             (let (r, w2) = sys K FaInit w1
              in case posix_ret (r_ret r) ''file_actions_init'' of
                   Inl e \<Rightarrow> Some (Inl e, close_all K p w2)
                 | Inr _ \<Rightarrow>
                     (let (r3, w3) = posix_calls K (stdin_actions p @ stdout_actions p @ stderr_actions p) w2
                      in case r3 of
                           Inl e \<Rightarrow> Some (Inl e, fa_destroy K (close_all K p w3))
                         | Inr _ \<Rightarrow> do {
                             w4 \<leftarrow> close_inherited K (handled_fds p) w3;
                             let (a, w5) = sys K AttrInit w4;
                             (case posix_ret (r_ret a) ''attr_init'' of
                                Inl e \<Rightarrow> Some (Inl e, fa_destroy K (close_all K p w5))
                              | Inr _ \<Rightarrow>
                                  (let (res, w6) = posix_attrs K opts p w5
                                   in Some (res, fa_destroy K w6)))
                           })))"

section \<open>The fork backend\<close>

datatype 'a forked = In_parent 'a | In_child

text \<open>\<open>c_uint\<close> keeps the low 32 bits.\<close>

definition as_uint :: "int \<Rightarrow> int" where
  "as_uint n = uint (word_of_int n :: u32)"

definition close_range_fast :: "'k os \<Rightarrow> int option \<Rightarrow> 'k world \<Rightarrow> 'k world" where
  "close_range_fast K keep_fd w =
     (case keep_fd of
        Some n \<Rightarrow>
          snd (sys K (CloseRange (as_uint (n + 1)) (as_uint (- 1)) 0)
            (snd (sys K (CloseRange 3 (as_uint (max (n - 1) 2)) 0) w)))
      | None \<Rightarrow> snd (sys K (CloseRange 3 (as_uint (- 1)) 0) w))"

definition child_dup :: "'k os \<Rightarrow> fd option \<Rightarrow> fd option \<Rightarrow> int \<Rightarrow> 'k world \<Rightarrow> 'k world" where
  "child_dup K used other target w =
     (case (used, other) of
        (Some f, Some _) \<Rightarrow> snd (sys K (Dup2 (raw f) target) w)
      | _ \<Rightarrow> w)"

text \<open>What the child does; it ends in the new program or in \<open>_exit(127)\<close>.\<close>

definition child_exec :: "'k os \<Rightarrow> spawn_options \<Rightarrow> 'k world \<Rightarrow> 'k world" where
  "child_exec K opts w =
     (let w1 = (case pg_leader (so_pgroup opts) of
                  None \<Rightarrow> w | Some pg \<Rightarrow> snd (sys K (Setpgid 0 pg) w));
          w2 = snd (unblock_all K w1);
          w3 = reset_default K SIGPIPE w2;
          (r, w4) = sys K (Execve (exe_of opts) (c_array (get_argv_ptrs (so_ctx opts)))
                      (map_option c_array (get_envp_ptrs (so_ctx opts)))) w3
      in if r_ret r < 0 then snd (sys K (ExitNow 127) w4) else w4)"

definition child_run :: "'k os \<Rightarrow> spawn_options \<Rightarrow> pipes \<Rightarrow> 'k world \<Rightarrow> 'k world" where
  "child_run K opts p w =
     (let w1 = child_dup K (stdin_r p) (stdin_w p) 0 w;
          w2 = child_dup K (stdout_w p) (stdout_r p) 1 w1;
          w3 = child_dup K (stderr_w p) (stderr_r p) 2 w2;
          w4 = close_all K p w3;
          w5 = close_range_fast K None w4;
          w6 = (if pg_isolated (so_pgroup opts) then snd (sys K Setsid w5) else w5)
      in case ec_cwd (so_ctx opts) of
           None \<Rightarrow> child_exec K opts w6
         | Some cwd \<Rightarrow>
             (let (r, w7) = sys K (Chdir cwd) w6
              in if r_ret r \<noteq> 0 then snd (sys K (ExitNow 127) w7) else child_exec K opts w7))"

definition spawn_fork_internal ::
  "'k os \<Rightarrow> spawn_options \<Rightarrow> 'k world \<Rightarrow> (sys_error + int \<times> unit drain_state) forked \<times> 'k world" where
  "spawn_fork_internal K opts w =
     (let (pr, w1) = pipes_new K (so_stdin opts) (so_capture_stdout opts) (so_capture_stderr opts) w
      in case pr of
           Inl e \<Rightarrow> (In_parent (Inl e), w1)
         | Inr p \<Rightarrow>
             (let (r, w2) = sys K Fork w1
              in if r_ret r < 0
                 then (let w3 = close_all K p w2
                       in case syscall_ret (-1) ''fork'' w3 of
                            Inl e \<Rightarrow> (In_parent (Inl e), w3)
                          | Inr _ \<Rightarrow> (In_child, w3))
                 else if r_ret r = 0 then (In_child, child_run K opts p w2)
                 else (let (res, w3) = parent_drain K opts p w2
                       in case res of
                            Inl e \<Rightarrow> (In_parent (Inl e), w3)
                          | Inr d \<Rightarrow> (In_parent (Inr (r_ret r, d)), w3))))"

section \<open>Starting\<close>

record running_process =
  rp_process :: process
  rp_drain :: "unit drain_state"

definition run_backend ::
  "'k os \<Rightarrow> backend \<Rightarrow> spawn_options \<Rightarrow> 'k world
     \<Rightarrow> ((sys_error + int \<times> unit drain_state) forked \<times> 'k world) option" where
  "run_backend K b opts w =
     (case b of
        Backend_PosixSpawn \<Rightarrow> do { (x, w1) \<leftarrow> spawn_posix_internal K opts w; Some (In_parent x, w1) }
      | Backend_Fork \<Rightarrow> Some (spawn_fork_internal K opts w))"

definition as_running ::
  "(sys_error + int \<times> unit drain_state) forked \<Rightarrow> (sys_error + running_process) forked" where
  "as_running x =
     (case x of
        In_child \<Rightarrow> In_child
      | In_parent (Inl e) \<Rightarrow> In_parent (Inl e)
      | In_parent (Inr (n, d)) \<Rightarrow> In_parent (Inr \<lparr>rp_process = Process n, rp_drain = d\<rparr>))"

definition spawn_start ::
  "'k os \<Rightarrow> bool \<Rightarrow> backend option \<Rightarrow> spawn_options \<Rightarrow> 'k world
     \<Rightarrow> (((sys_error + running_process) forked \<times> backend option) \<times> 'k world) option" where
  "spawn_start K android cell opts w =
     (if \<not> so_wait opts \<and> (so_stdin opts \<noteq> None \<or> so_capture_stdout opts \<or> so_capture_stderr opts)
      then Some ((In_parent (Inl (sys_err EINVAL
             ''background I/O capture not supported (wait must be true)'')), cell), w)
      else
        (let ((b, cell1), w1) = resolve_backend K android cell opts w
         in do {
              (res, w2) \<leftarrow> run_backend K b opts w1;
              Some ((as_running res, cell1), w2)
            }))"

section \<open>Properties\<close>

text \<open>Options for the witnesses.\<close>

definition demo_options :: spawn_options where
  "demo_options = \<lparr>so_ctx = \<lparr>ec_argv = Dynamic [[97]], ec_envp = None, ec_cwd = None\<rparr>,
     so_stdin = None, so_capture_stdout = True, so_capture_stderr = False, so_wait = True,
     so_pgroup = \<lparr>pg_leader = None, pg_isolated = False\<rparr>, so_max_output = 10,
     so_timeout_ms = None, so_kill_grace_ms = 2000, so_cancel = Cancel_kill,
     so_backend = Sb_Fork, so_early_exit = None\<rparr>"

text \<open>A kernel for the witnesses: pipes are 5 and 6, a fork gives child 42, all else succeeds.\<close>

definition fork_os :: "unit os" where
  "fork_os = \<lparr>trap = (\<lambda>c k. (\<lparr>r_ret = (case c of Fork \<Rightarrow> 42 | _ \<Rightarrow> 0), r_errno = 0,
       r_out = (case c of Pipe2 _ \<Rightarrow> OutFds 5 6 | _ \<Rightarrow> NoOut)\<rparr>, k)),
     os_WIFEXITED = (\<lambda>_. True), os_WEXITSTATUS = (\<lambda>_. 0), os_WIFSIGNALED = (\<lambda>_. False),
     os_WTERMSIG = (\<lambda>_. 0)\<rparr>"

lemmas spawn_run = spawn_start_def run_backend_def as_running_def resolve_backend_def force_fork_def
  spawn_fork_internal_def pipes_new_def pipe_if_def make_pipe_def fd_new_def parent_drain_def
  drain_new_def new_slot_def set_nonblock_def drop_opt_fd_def drop_fd_def sys_def Let_def

text \<open>C33. The choice of the backend. A new session or a working directory always selects fork, the
  only backend that can honour them; otherwise an explicit choice is obeyed; an automatic choice
  is posix_spawn on Linux, without a call, and on Android fork exactly for an API level below 32;
  once made it is cached, and later choices repeat it without a call.\<close>

theorem backend_choice:
  "case resolve_backend K android cell opts w of ((b, cell'), w') \<Rightarrow>
     (b = Backend_PosixSpawn \<longrightarrow> \<not> pg_isolated (so_pgroup opts) \<and> ec_cwd (so_ctx opts) = None) \<and>
     (\<not> force_fork opts \<longrightarrow>
        (so_backend opts = Sb_Fork \<longrightarrow> b = Backend_Fork) \<and>
        (so_backend opts = Sb_PosixSpawn \<longrightarrow> b = Backend_PosixSpawn) \<and>
        (so_backend opts = Sb_Auto \<longrightarrow> cell' = Some b \<and>
           resolve_backend K android cell' opts w' = ((b, cell'), w') \<and>
           (cell = None \<and> \<not> android \<longrightarrow> b = Backend_PosixSpawn \<and> w' = w) \<and>
           (cell = None \<and> android \<longrightarrow> (b = Backend_Fork \<longleftrightarrow>
              (\<exists>r api. sys K (PropertyGet (ascii ''ro.build.version.sdk'')) w = (r, w') \<and> 0 < r_ret r \<and>
                 parse_u32 (case from_utf8 (take (nat (r_ret r)) (store (replicate 92 0) (out_bytes (r_out r))))
                            of None \<Rightarrow> [] | Some s \<Rightarrow> s) = Some api \<and> api < 32)))))"
proof -
  obtain q v where q: "sys K (PropertyGet (ascii ''ro.build.version.sdk'')) w = (q, v)" by fastforce
  obtain b cell' w' where r: "resolve_backend K android cell opts w = ((b, cell'), w')"
    by (metis prod.exhaust)
  have "b = Backend_PosixSpawn \<longrightarrow> \<not> force_fork opts"
    using r by (auto simp: resolve_backend_def)
  moreover have "resolve_backend K android cell' opts w' = ((b, cell'), w')" "cell' = Some b"
    if "\<not> force_fork opts" "so_backend opts = Sb_Auto"
    using r that by (auto simp: resolve_backend_def select_backend_def split: option.splits prod.splits)
  moreover have "b = Backend_PosixSpawn \<and> w' = w"
    if "\<not> force_fork opts" "so_backend opts = Sb_Auto" "cell = None" "\<not> android"
    using r that by (auto simp: resolve_backend_def select_backend_def probe_backend_def)
  moreover have "b = Backend_Fork \<longleftrightarrow>
      (\<exists>r api. sys K (PropertyGet (ascii ''ro.build.version.sdk'')) w = (r, w') \<and> 0 < r_ret r \<and>
         parse_u32 (case from_utf8 (take (nat (r_ret r)) (store (replicate 92 0) (out_bytes (r_out r))))
                    of None \<Rightarrow> [] | Some s \<Rightarrow> s) = Some api \<and> api < 32)"
    if "\<not> force_fork opts" "so_backend opts = Sb_Auto" "cell = None" "android"
  proof -
    have p: "probe_backend K True w = (b, w')"
      using r that by (auto simp: resolve_backend_def select_backend_def split: prod.splits)
    let ?s = "case from_utf8 (take (nat (r_ret q)) (store (replicate 92 0) (out_bytes (r_out q))))
                    of None \<Rightarrow> [] | Some s \<Rightarrow> s"
    have w': "w' = v" using p q by (auto simp: probe_backend_def Let_def split: if_splits option.splits)
    have "b = Backend_Fork \<longleftrightarrow> 0 < r_ret q \<and> (\<exists>api. parse_u32 ?s = Some api \<and> api < 32)"
    proof (cases "0 < r_ret q")
      case True
      with p q show ?thesis
        by (cases "parse_u32 ?s") (auto simp: probe_backend_def Let_def split: if_splits)
    next
      case False
      with p q show ?thesis by (auto simp: probe_backend_def)
    qed
    with q w' show ?thesis by auto
  qed
  moreover have "(so_backend opts = Sb_Fork \<longrightarrow> b = Backend_Fork) \<and>
        (so_backend opts = Sb_PosixSpawn \<longrightarrow> b = Backend_PosixSpawn)" if "\<not> force_fork opts"
    using r that by (auto simp: resolve_backend_def)
  ultimately show ?thesis unfolding r prod.case force_fork_def by blast
qed

theorem backend_choice_witness:
  "fst (fst (resolve_backend fork_os False None (demo_options\<lparr>so_backend := Sb_Auto\<rparr>)
     \<lparr>kst = (), errno = 0, trace = []\<rparr>)) = Backend_PosixSpawn"
  using backend_choice [where K = fork_os and android = False and cell = None
      and opts = "demo_options\<lparr>so_backend := Sb_Auto\<rparr>" and w = "\<lparr>kst = (), errno = 0, trace = []\<rparr>"]
  by (auto simp: demo_options_def force_fork_def split: prod.splits)

text \<open>The builder passes everything on. What \<open>build\<close> produces is the validated context and, field by
  field, what the setters were given; without setters it has the documented defaults (wait, kill on
  cancel, a 1 MiB limit, two seconds of grace, no timeout); and it fails only as the context does.\<close>

theorem build_faithful:
  "build (with_early_exit f (with_backend bk (with_cancel c (with_kill_grace_ms g (with_timeout_ms t
     (with_max_output m (with_pgroup pg (with_wait wt (with_capture_stderr (with_capture_stdout
     (with_stdin inp (with_cwd d (with_env en (builder argv))))))))))))))
   = map_sum id (\<lambda>ctx. \<lparr>so_ctx = ctx, so_stdin = Some inp, so_capture_stdout = True,
       so_capture_stderr = True, so_wait = wt, so_pgroup = pg, so_max_output = m,
       so_timeout_ms = Some t, so_kill_grace_ms = g, so_cancel = c, so_backend = bk,
       so_early_exit = Some f\<rparr>) (exec_context_new argv (Some en) (Some d)) \<and>
   build (builder argv) = map_sum id (\<lambda>ctx. \<lparr>so_ctx = ctx, so_stdin = None,
       so_capture_stdout = False, so_capture_stderr = False, so_wait = True,
       so_pgroup = process_group_new None False, so_max_output = 1048576, so_timeout_ms = None,
       so_kill_grace_ms = 2000, so_cancel = Cancel_kill, so_backend = Sb_Auto,
       so_early_exit = None\<rparr>) (exec_context_new argv None None)"
  by (auto simp: build_def builder_def builder_new_def with_early_exit_def with_backend_def
      with_cancel_def with_kill_grace_ms_def with_timeout_ms_def with_max_output_def with_pgroup_def
      with_wait_def with_capture_stderr_def with_capture_stdout_def with_stdin_def with_cwd_def
      with_env_def split: sum.split)

end
