(* ===== verification/SpawnOwn.thy ===== *)
theory SpawnOwn
  imports Spawn
begin

text \<open>
  Who owns the descriptors while a process is started: one lemma per operation of theory Spawn, on
  every path, up to the property of \<open>spawn_start\<close>.
\<close>

section \<open>Descriptors\<close>

text \<open>\<open>pipe2\<close> returns two descriptors when it succeeds.\<close>

definition pipe_ok :: "'k os \<Rightarrow> bool" where
  "pipe_ok K \<longleftrightarrow>
     (\<forall>fl k r k'. trap K (Pipe2 fl) k = (r, k') \<longrightarrow> r_ret r \<noteq> -1 \<longrightarrow>
        0 \<le> fst (out_fds (r_out r)) \<and> 0 \<le> snd (out_fds (r_out r)))"

definition pipes_owns :: "pipes \<Rightarrow> int multiset" where
  "pipes_owns p =
     opt_mset fd_owns (stdin_r p) + opt_mset fd_owns (stdin_w p) + opt_mset fd_owns (stdout_r p)
     + opt_mset fd_owns (stdout_w p) + opt_mset fd_owns (stderr_r p) + opt_mset fd_owns (stderr_w p)"

lemma close_all_moves: "moves w (close_all K p w) (pipes_owns p) {#}"
  unfolding close_all_def pipes_owns_def by (intro drop_seq)

lemma make_pipe_moves:
  assumes "make_pipe K w = (res, w')" and "pipe_ok K"
  shows "moves w w' {#} (case res of Inl _ \<Rightarrow> {#} | Inr (a, b) \<Rightarrow> fd_owns a + fd_owns b)"
proof -
  let ?c = "Pipe2 (O_CLOEXEC OR O_NONBLOCK)"
  obtain r w1 where s: "sys K ?c w = (r, w1)" by fastforce
  obtain a b where ab: "out_fds (r_out r) = (a, b)" by fastforce
  show ?thesis
  proof (cases "r_ret r = -1")
    case True
    then have "own_step (?c, r) {#} = Some {#}" by (simp add: own_step_def)
    with assms s ab True show ?thesis by (auto simp: make_pipe_def intro: moves_sys)
  next
    case False
    with assms(2) sysD(2) [OF s] ab have pos: "0 \<le> a" "0 \<le> b" unfolding pipe_ok_def by fastforce+
    have "own_step (?c, r) {#} = Some (nonneg a + nonneg b)" using False ab by (simp add: own_step_def)
    with s have "moves w w1 {#} (nonneg a + nonneg b)" by (rule moves_sys)
    with assms(1) s ab False pos show ?thesis
      by (auto simp: make_pipe_def fd_new_def fd_owns_def add_mset_commute)
  qed
qed

lemma pipe_if_moves:
  assumes "pipe_if K wanted w = (res, w')" and "pipe_ok K"
  shows "moves w w' {#} (case res of Inl _ \<Rightarrow> {#} | Inr (a, b) \<Rightarrow> opt_mset fd_owns a + opt_mset fd_owns b)"
proof (cases wanted)
  case True
  obtain r w1 where m: "make_pipe K w = (r, w1)" by fastforce
  with assms True make_pipe_moves [OF m] show ?thesis
    by (cases r) (auto simp: pipe_if_def)
qed (use assms in \<open>auto simp: pipe_if_def\<close>)

lemma moves_then: "moves w w1 {#} B \<Longrightarrow> moves w1 w2 {#} C \<Longrightarrow> moves w w2 {#} (B + C)"
  using moves_frame [of w1 w2 "{#}" C B] by (auto simp: add.commute intro: moves_trans)

lemma pipes_new_cases:
  assumes "pipes_new K in_buf out err w = (res, w')"
  obtains (no_stdin) e where "pipe_if K (in_buf \<noteq> None) w = (Inl e, w')" "res = Inl e"
  | (no_stdout) ir iw w1 e w2 where "pipe_if K (in_buf \<noteq> None) w = (Inr (ir, iw), w1)"
      "pipe_if K out w1 = (Inl e, w2)" "res = Inl e" "w' = drop_opt_fd K ir (drop_opt_fd K iw w2)"
  | (no_stderr) ir iw w1 our ouw w2 e w3 where "pipe_if K (in_buf \<noteq> None) w = (Inr (ir, iw), w1)"
      "pipe_if K out w1 = (Inr (our, ouw), w2)" "pipe_if K err w2 = (Inl e, w3)" "res = Inl e"
      "w' = drop_opt_fd K ir (drop_opt_fd K iw (drop_opt_fd K our (drop_opt_fd K ouw w3)))"
  | (made) ir iw w1 our ouw w2 er ew where "pipe_if K (in_buf \<noteq> None) w = (Inr (ir, iw), w1)"
      "pipe_if K out w1 = (Inr (our, ouw), w2)" "pipe_if K err w2 = (Inr (er, ew), w')"
      "res = Inr \<lparr>stdin_r = ir, stdin_w = iw, stdout_r = our, stdout_w = ouw, stderr_r = er, stderr_w = ew\<rparr>"
proof -
  obtain p1 w1 where s1: "pipe_if K (in_buf \<noteq> None) w = (p1, w1)" by fastforce
  obtain p2 w2 where s2: "pipe_if K out w1 = (p2, w2)" by fastforce
  obtain p3 w3 where s3: "pipe_if K err w2 = (p3, w3)" by fastforce
  note eq = assms [unfolded pipes_new_def Let_def s1 s2 s3 prod.case, symmetric]
  show thesis
  proof (cases p1)
    case (Inl e)
    with eq s1 show thesis by (intro no_stdin) simp_all
  next
    case p1: (Inr x1)
    obtain ir iw where x1: "x1 = (ir, iw)" by (cases x1)
    show thesis
    proof (cases p2)
      case (Inl e)
      with eq s1 s2 p1 x1 show thesis by (intro no_stdout) simp_all
    next
      case (Inr x2)
      obtain our ouw where x2: "x2 = (our, ouw)" by (cases x2)
      show thesis
      proof (cases p3)
        case (Inl e)
        with eq s1 s2 s3 p1 x1 x2 \<open>p2 = Inr x2\<close> show thesis by (intro no_stderr) simp_all
      next
        case (Inr x3)
        obtain er ew where "x3 = (er, ew)" by (cases x3)
        with eq s1 s2 s3 p1 x1 x2 \<open>p2 = Inr x2\<close> Inr show thesis by (intro made) simp_all
      qed
    qed
  qed
qed

lemma pipes_new_moves:
  assumes "pipes_new K in_buf out err w = (res, w')" and ok: "pipe_ok K"
  shows "moves w w' {#} (case res of Inl _ \<Rightarrow> {#} | Inr p \<Rightarrow> pipes_owns p)"
  using assms(1)
proof (cases rule: pipes_new_cases)
  case (no_stdin e)
  from pipe_if_moves [OF no_stdin(1) ok] show ?thesis by (simp add: no_stdin(2))
next
  case (no_stdout ir iw w1 e w2)
  have m: "moves w w2 {#} (opt_mset fd_owns iw + opt_mset fd_owns ir)"
    using moves_then [OF pipe_if_moves [OF no_stdout(1) ok] pipe_if_moves [OF no_stdout(2) ok]]
    by (simp add: ac_simps)
  have "moves w2 w' (opt_mset fd_owns iw + opt_mset fd_owns ir) {#}" unfolding no_stdout(4) by (intro drop_seq)
  from moves_trans [OF m this] show ?thesis by (simp add: no_stdout(3))
next
  case (no_stderr ir iw w1 our ouw w2 e w3)
  have m: "moves w w3 {#} (opt_mset fd_owns ouw + opt_mset fd_owns our + opt_mset fd_owns iw + opt_mset fd_owns ir)"
    using moves_then [OF moves_then [OF pipe_if_moves [OF no_stderr(1) ok] pipe_if_moves [OF no_stderr(2) ok]]
        pipe_if_moves [OF no_stderr(3) ok]]
    by (simp add: ac_simps)
  have "moves w3 w' (opt_mset fd_owns ouw + opt_mset fd_owns our + opt_mset fd_owns iw + opt_mset fd_owns ir) {#}"
    unfolding no_stderr(5) by (intro drop_seq)
  from moves_trans [OF m this] show ?thesis by (simp add: no_stderr(4))
next
  case (made ir iw w1 our ouw w2 er ew)
  from moves_then [OF moves_then [OF pipe_if_moves [OF made(1) ok] pipe_if_moves [OF made(2) ok]]
      pipe_if_moves [OF made(3) ok]]
  show ?thesis by (simp add: made(4) pipes_owns_def ac_simps)
qed

lemma posix_calls_makes:
  "posix_calls K cs w = (res, w') \<Longrightarrow> \<forall>x \<in> set cs. P (fst x) \<Longrightarrow> makes P w w'"
proof (induction cs arbitrary: w)
  case Nil
  then show ?case by simp
next
  case (Cons x cs)
  obtain c o_name where x: "x = (c, o_name)" by fastforce
  obtain r w1 where s: "sys K c w = (r, w1)" by fastforce
  have m: "makes P w w1" using s by (rule makes_sys) (use Cons.prems(2) x in simp)
  show ?case
  proof (cases "r_ret r = 0")
    case True
    with Cons.prems x s have "posix_calls K cs w1 = (res, w')" by (simp add: posix_ret_def)
    from makes_trans [OF m Cons.IH [OF this]] Cons.prems(2) show ?thesis by simp
  next
    case False
    with Cons.prems x s m show ?thesis by (simp add: posix_ret_def)
  qed
qed

lemma actions_neutral:
  "\<forall>x \<in> set (stdin_actions p @ stdout_actions p @ stderr_actions p). neutral (fst x)"
  "\<forall>x \<in> set (attr_actions pg). neutral (fst x)"
  by (auto simp: stdin_actions_def stdout_actions_def stderr_actions_def attr_actions_def
      split: option.splits)

lemma scan_dir_makes:
  assumes "scan_dir K n handled w = Some w'" and "P (Readdir n)" and "\<And>m. P (FaAddClose m)"
  shows "makes P w w'"
proof -
  have "P (Readdir n) \<longrightarrow> makes P w w'"
    using assms(1)
  proof (rule scan_dir.raw_induct
      [where P = "\<lambda>K n handled w w'. P (Readdir n) \<longrightarrow> makes P w w'", rotated], goal_cases)
    case (1 loop K n handled w w')
    obtain r w1 where s: "sys K (Readdir n) w = (r, w1)" by fastforce
    show ?case
    proof
      assume P: "P (Readdir n)"
      with s have m: "makes P w w1" by (rule makes_sys)
      have m2: "makes P w (snd (sys K (FaAddClose x) w1))" for x
        by (rule makes_trans [OF m makes_snd]) (rule assms(3))
      show "makes P w w'"
        using 1(2) s m makes_trans [OF m2 1(1) [THEN mp, OF _ P]] makes_trans [OF m 1(1) [THEN mp, OF _ P]]
        by (auto split: if_splits option.splits)
    qed
  qed
  with assms(2) show ?thesis by blast
qed

lemma close_inherited_moves:
  assumes "close_inherited K handled w = Some w'"
  shows "moves w w' A A"
proof -
  obtain r w1 where s1: "sys K OpenFdDir w = (r, w1)" by fastforce
  have "own_step (OpenFdDir, r) A = Some (A + nonneg (r_ret r))" by (simp add: own_step_def)
  with s1 have m1: "moves w w1 A (A + nonneg (r_ret r))" by (rule moves_sys)
  show ?thesis
  proof (cases "0 \<le> r_ret r")
    case False
    with assms s1 m1 show ?thesis by (simp add: close_inherited_def)
  next
    case pos: True
    then have B: "A + nonneg (r_ret r) = add_mset (r_ret r) A" by simp
    obtain d w2 where s2: "sys K (Fdopendir (r_ret r)) w1 = (d, w2)" by fastforce
    have m2: "moves w w2 A (add_mset (r_ret r) A)"
      by (rule moves_trans [OF m1 [unfolded B]]) (rule neutral_sys [OF _ s2], simp)
    have cl: "moves w3 (snd (sys K c w3)) (add_mset (r_ret r) A) A"
      if "c = Close (r_ret r) \<or> c = Closedir (r_ret r)" for c w3
    proof -
      obtain q w4 where s: "sys K c w3 = (q, w4)" by fastforce
      have "own_step (c, q) (add_mset (r_ret r) A) = Some A"
        using that by (auto simp: own_step_def release_def)
      with s have "moves w3 w4 (add_mset (r_ret r) A) A" by (rule moves_sys)
      with s show ?thesis by simp
    qed
    show ?thesis
    proof (cases "r_ret d = 0")
      case True
      with assms s1 s2 pos have "w' = snd (sys K (Close (r_ret r)) w2)"
        by (simp add: close_inherited_def Let_def)
      with moves_trans [OF m2 cl] show ?thesis by simp
    next
      case False
      with assms s1 s2 pos obtain w3 where sc: "scan_dir K (r_ret r) handled w2 = Some w3"
        and w': "w' = snd (sys K (Closedir (r_ret r)) w3)"
        by (auto simp: close_inherited_def bind_Some_conv Let_def)
      have "makes neutral w2 w3" using sc by (rule scan_dir_makes) simp_all
      from moves_trans [OF moves_trans [OF m2 makes_moves [OF this]] cl] w' show ?thesis by simp
    qed
  qed
qed

lemma parent_drain_moves:
  assumes "parent_drain K opts p w = (res, w')"
  shows "moves w w' (pipes_owns p) (case res of Inl _ \<Rightarrow> {#} | Inr d \<Rightarrow> drain_owns d)"
proof -
  let ?o = "opt_mset fd_owns"
  let ?w3 = "drop_opt_fd K (stderr_w p) (drop_opt_fd K (stdout_w p) (drop_opt_fd K (stdin_r p) w))"
  let ?rest = "?o (stdin_w p) + ?o (stdout_r p) + ?o (stderr_r p)"
  have "moves w ?w3 (?o (stdin_r p) + ?o (stdout_w p) + ?o (stderr_w p)) {#}" by (intro drop_seq)
  from moves_frame [OF this, of ?rest] have m3: "moves w ?w3 (pipes_owns p) ?rest"
    by (simp add: pipes_owns_def ac_simps)
  let ?in = "if so_stdin opts \<noteq> None then stdin_w p else None"
  let ?w4 = "if so_stdin opts \<noteq> None then ?w3 else drop_opt_fd K (stdin_w p) ?w3"
  have "moves ?w3 ?w4 ?rest (?o ?in + ?o (stdout_r p) + ?o (stderr_r p))"
    using moves_frame [OF drop_opt_fd_moves [of ?w3 K "stdin_w p"], of "?o (stdout_r p) + ?o (stderr_r p)"]
    by (simp add: ac_simps)
  with m3 have m4: "moves w ?w4 (pipes_owns p) (?o ?in + ?o (stdout_r p) + ?o (stderr_r p))"
    by (rule moves_trans)
  have "drain_new K ?in (so_stdin opts) (stdout_r p) (stderr_r p) (so_max_output opts)
      (map_option fn_closure (so_early_exit opts)) ?w4 = (res, w')"
    using assms by (cases "so_stdin opts") (simp_all add: parent_drain_def Let_def)
  from moves_trans [OF m4 drain_new_moves [OF this]] show ?thesis .
qed

lemma destroy_moves: "moves w (fa_destroy K w) A A" "moves w (attr_destroy K w) A A"
  unfolding fa_destroy_def attr_destroy_def by (rule sys_neutral, simp)+

text \<open>Every way out of the guarded parts ends in a destructor, which moves nothing.\<close>

lemma then_destroy:
  "moves w w1 A B \<Longrightarrow> moves w (fa_destroy K w1) A B" "moves w w1 A B \<Longrightarrow> moves w (attr_destroy K w1) A B"
  by (blast intro: moves_trans destroy_moves)+

lemma then_close_all: "moves w w1 A (pipes_owns p) \<Longrightarrow> moves w (close_all K p w1) A {#}"
  by (rule moves_trans [OF _ close_all_moves])

type_synonym started = "sys_error + int \<times> unit drain_state"

definition started_owns :: "started \<Rightarrow> int multiset" where
  "started_owns res = (case res of Inl _ \<Rightarrow> {#} | Inr x \<Rightarrow> drain_owns (snd x))"

lemma started_owns_simps [simp]: "started_owns (Inl e) = {#}" "started_owns (Inr x) = drain_owns (snd x)"
  by (simp_all add: started_owns_def)

text \<open>The ways through the \<open>posix_spawn\<close> backend.\<close>

abbreviation spawn_call :: "spawn_options \<Rightarrow> call" where
  "spawn_call opts \<equiv> PosixSpawn (exe_of opts) (c_array (get_argv_ptrs (so_ctx opts)))
     (map_option c_array (get_envp_ptrs (so_ctx opts)))"

lemma posix_attrs_cases:
  assumes "posix_attrs K opts p w = (res, w')"
  obtains (unset) e w1 where "posix_calls K (attr_actions (so_pgroup opts)) w = (Inl e, w1)" "res = Inl e"
      "w' = attr_destroy K (close_all K p w1)"
  | (failed) w1 r w2 where "posix_calls K (attr_actions (so_pgroup opts)) w = (Inr (), w1)"
      "sys K (spawn_call opts) w1 = (r, w2)" "r_ret r \<noteq> 0" "res = Inl (sys_err (r_ret r) ''posix_spawn'')"
      "w' = attr_destroy K (close_all K p w2)"
  | (spawned) w1 r w2 dres w3 where "posix_calls K (attr_actions (so_pgroup opts)) w = (Inr (), w1)"
      "sys K (spawn_call opts) w1 = (r, w2)" "r_ret r = 0" "parent_drain K opts p w2 = (dres, w3)"
      "res = map_sum id (Pair (out_num (r_out r))) dres" "w' = attr_destroy K w3"
proof -
  obtain r1 w1 where s1: "posix_calls K (attr_actions (so_pgroup opts)) w = (r1, w1)" by fastforce
  obtain r w2 where s2: "sys K (spawn_call opts) w1 = (r, w2)" by fastforce
  obtain dres w3 where s3: "parent_drain K opts p w2 = (dres, w3)" by fastforce
  note def = posix_attrs_def posix_ret_def
  show thesis
  proof (cases r1)
    case (Inl e)
    with assms s1 show thesis by (intro unset) (auto simp: def)
  next
    case r1: (Inr u)
    show thesis
    proof (cases "r_ret r = 0")
      case False
      with assms s1 r1 s2 show thesis by (intro failed) (auto simp: def)
    next
      case True
      have "res = map_sum id (Pair (out_num (r_out r))) dres" "w' = attr_destroy K w3"
        using assms s1 r1 s2 s3 True by (cases dres; simp add: def)+
      with s1 r1 s2 s3 True show thesis by (intro spawned) simp_all
    qed
  qed
qed

lemma spawn_posix_cases:
  assumes "spawn_posix_internal K opts w = Some (res, w')"
  obtains (no_pipes) e where "pipes_new K (so_stdin opts) (so_capture_stdout opts) (so_capture_stderr opts) w
        = (Inl e, w')" "res = Inl e"
  | (no_actions) p w1 r w2 where "pipes_new K (so_stdin opts) (so_capture_stdout opts) (so_capture_stderr opts) w
        = (Inr p, w1)" "sys K FaInit w1 = (r, w2)" "r_ret r \<noteq> 0"
      "res = Inl (sys_err (r_ret r) ''file_actions_init'')" "w' = close_all K p w2"
  | (not_added) p w1 r w2 e w3 where "pipes_new K (so_stdin opts) (so_capture_stdout opts) (so_capture_stderr opts) w
        = (Inr p, w1)" "sys K FaInit w1 = (r, w2)" "r_ret r = 0"
      "posix_calls K (stdin_actions p @ stdout_actions p @ stderr_actions p) w2 = (Inl e, w3)"
      "res = Inl e" "w' = fa_destroy K (close_all K p w3)"
  | (no_attrs) p w1 r w2 w3 w4 a w5 where "pipes_new K (so_stdin opts) (so_capture_stdout opts) (so_capture_stderr opts) w
        = (Inr p, w1)" "sys K FaInit w1 = (r, w2)" "r_ret r = 0"
      "posix_calls K (stdin_actions p @ stdout_actions p @ stderr_actions p) w2 = (Inr (), w3)"
      "close_inherited K (handled_fds p) w3 = Some w4" "sys K AttrInit w4 = (a, w5)" "r_ret a \<noteq> 0"
      "res = Inl (sys_err (r_ret a) ''attr_init'')" "w' = fa_destroy K (close_all K p w5)"
  | (attrs) p w1 r w2 w3 w4 a w5 w6 where "pipes_new K (so_stdin opts) (so_capture_stdout opts) (so_capture_stderr opts) w
        = (Inr p, w1)" "sys K FaInit w1 = (r, w2)" "r_ret r = 0"
      "posix_calls K (stdin_actions p @ stdout_actions p @ stderr_actions p) w2 = (Inr (), w3)"
      "close_inherited K (handled_fds p) w3 = Some w4" "sys K AttrInit w4 = (a, w5)" "r_ret a = 0"
      "posix_attrs K opts p w5 = (res, w6)" "w' = fa_destroy K w6"
proof -
  obtain pr w1 where s1: "pipes_new K (so_stdin opts) (so_capture_stdout opts) (so_capture_stderr opts) w = (pr, w1)"
    by fastforce
  note def = spawn_posix_internal_def s1 posix_ret_def
  show thesis
  proof (cases pr)
    case (Inl e)
    with assms s1 show thesis by (intro no_pipes) (auto simp: def)
  next
    case pr: (Inr p)
    obtain r w2 where s2: "sys K FaInit w1 = (r, w2)" by fastforce
    obtain r3 w3 where s3: "posix_calls K (stdin_actions p @ stdout_actions p @ stderr_actions p) w2 = (r3, w3)"
      by fastforce
    show thesis
    proof (cases "r_ret r \<noteq> 0 \<or> r3 \<noteq> Inr ()")
      case True
      then show thesis
        using assms s1 pr s2 s3 no_actions not_added by (cases r3) (auto simp: def split: if_splits)
    next
      case r: False
      then obtain w4 where s4: "close_inherited K (handled_fds p) w3 = Some w4"
        using assms pr s2 s3 by (cases "close_inherited K (handled_fds p) w3") (auto simp: def)
      obtain a w5 where s5: "sys K AttrInit w4 = (a, w5)" by fastforce
      obtain res' w6 where s6: "posix_attrs K opts p w5 = (res', w6)" by fastforce
      show thesis
      proof (cases "r_ret a = 0")
        case False
        with assms s1 pr s2 r s3 s4 s5 show thesis
          by (intro no_attrs [where r = r and a = a]) (auto simp: def)
      next
        case True
        have "res' = res \<and> w' = fa_destroy K w6" using assms pr s2 r s3 s4 s5 s6 True by (auto simp: def)
        with s1 pr s2 r s3 s4 s5 s6 True show thesis by (intro attrs [where r = r and a = a]) auto
      qed
    qed
  qed
qed

lemma posix_attrs_moves:
  assumes "posix_attrs K opts p w = (res, w')"
  shows "moves w w' (pipes_owns p) (started_owns res)"
proof -
  have set: "moves w w1 A A" if "posix_calls K (attr_actions (so_pgroup opts)) w = (x, w1)" for x w1 A
    by (rule makes_moves [OF posix_calls_makes [OF that actions_neutral(2)]])
  have made: "moves w1 w2 A A" if "sys K (spawn_call opts) w1 = (r, w2)" for r w1 w2 A
    by (rule neutral_sys [OF _ that]) simp
  show ?thesis
    using assms
  proof (cases rule: posix_attrs_cases)
    case (unset e w1)
    from then_destroy(2) [OF then_close_all [OF set [OF unset(1)]]] show ?thesis by (simp add: unset(2,3))
  next
    case (failed w1 r w2)
    from then_destroy(2) [OF then_close_all [OF moves_trans [OF set [OF failed(1)] made [OF failed(2)]]]] show ?thesis
      by (simp add: failed(4,5))
  next
    case (spawned w1 r w2 dres w3)
    from then_destroy(2) [OF moves_trans [OF moves_trans [OF set [OF spawned(1)] made [OF spawned(2)]]
          parent_drain_moves [OF spawned(4)]]]
    show ?thesis by (cases dres) (simp_all add: spawned(5,6))
  qed
qed

lemma spawn_posix_moves:
  assumes "spawn_posix_internal K opts w = Some (res, w')" and ok: "pipe_ok K"
  shows "moves w w' {#} (started_owns res)"
proof -
  have init: "moves w w2 {#} (pipes_owns p)" if "pipes_new K (so_stdin opts) (so_capture_stdout opts)
      (so_capture_stderr opts) w = (Inr p, w1)" "sys K FaInit w1 = (r, w2)" for p w1 r w2
    using pipes_new_moves [OF that(1) ok] neutral_sys [OF _ that(2)] by (auto intro: moves_trans)
  have add: "moves w2 w3 A A"
    if "posix_calls K (stdin_actions p @ stdout_actions p @ stderr_actions p) w2 = (x, w3)" for p w2 x w3 A
    by (rule makes_moves [OF posix_calls_makes [OF that actions_neutral(1)]])
  have scan: "moves w3 w5 A A" if "close_inherited K h w3 = Some w4" "sys K AttrInit w4 = (a, w5)" for h w3 w4 a w5 A
    by (rule moves_trans [OF close_inherited_moves [OF that(1)] neutral_sys [OF _ that(2)]]) simp
  show ?thesis
    using assms(1)
  proof (cases rule: spawn_posix_cases)
    case (no_pipes e)
    with pipes_new_moves [OF no_pipes(1) ok] show ?thesis by simp
  next
    case (no_actions p w1 r w2)
    from then_close_all [OF init [OF no_actions(1,2)]] show ?thesis by (simp add: no_actions(4,5))
  next
    case (not_added p w1 r w2 e w3)
    from then_destroy(1) [OF then_close_all [OF moves_trans [OF init [OF not_added(1,2)] add [OF not_added(4)]]]]
    show ?thesis by (simp add: not_added(5,6))
  next
    case (no_attrs p w1 r w2 w3 w4 a w5)
    from then_destroy(1) [OF then_close_all [OF moves_trans [OF init [OF no_attrs(1,2)]
          moves_trans [OF add [OF no_attrs(4)] scan [OF no_attrs(5,6)]]]]]
    show ?thesis by (simp add: no_attrs(8,9))
  next
    case (attrs p w1 r w2 w3 w4 a w5 w6)
    from then_destroy(1) [OF moves_trans [OF moves_trans [OF init [OF attrs(1,2)]
          moves_trans [OF add [OF attrs(4)] scan [OF attrs(5,6)]]] posix_attrs_moves [OF attrs(8)]]]
    show ?thesis by (simp add: attrs(9))
  qed
qed

section \<open>The child of a fork\<close>

text \<open>
  The child's run after the redirections: it makes no call that opens or closes a descriptor it
  tracks, except for \<open>close_all\<close>.
\<close>

lemma unblock_all_moves: "moves w (snd (unblock_all K w)) A A"
proof -
  have "snd (unblock_all K w) = snd (sys K (Sigprocmask SIG_SETMASK empty_set) w)"
    by (simp add: unblock_all_def split: prod.split)
  then show ?thesis by (simp add: sys_neutral)
qed

lemma child_exec_moves: "moves w (child_exec K opts w) A A"
proof -
  let ?w1 = "case pg_leader (so_pgroup opts) of None \<Rightarrow> w | Some pg \<Rightarrow> snd (sys K (Setpgid 0 pg) w)"
  let ?w3 = "reset_default K SIGPIPE (snd (unblock_all K ?w1))"
  let ?c = "Execve (exe_of opts) (c_array (get_argv_ptrs (so_ctx opts)))
      (map_option c_array (get_envp_ptrs (so_ctx opts)))"
  obtain r w4 where s: "sys K ?c ?w3 = (r, w4)" by fastforce
  have m1: "moves w ?w1 A A" by (simp add: sys_neutral split: option.split)
  have m3: "moves w ?w3 A A"
    unfolding reset_default_def
    by (rule moves_trans [OF moves_trans [OF m1 unblock_all_moves] sys_neutral]) simp
  have m4: "moves w w4 A A" by (rule moves_trans [OF m3 neutral_sys [OF _ s]]) simp
  have m5: "moves w (snd (sys K (ExitNow 127) w4)) A A" by (rule moves_trans [OF m4 sys_neutral]) simp
  show ?thesis using m4 m5 s by (simp add: child_exec_def Let_def)
qed

lemma child_run_moves: "moves w (child_run K opts p w) (pipes_owns p) {#}"
proof -
  have dup: "moves v (child_dup K x y n v) A A" for v x y n A
    by (auto simp: child_dup_def sys_neutral split: option.split)
  let ?w3 = "child_dup K (stderr_w p) (stderr_r p) 2 (child_dup K (stdout_w p) (stdout_r p) 1
      (child_dup K (stdin_r p) (stdin_w p) 0 w))"
  have m3: "moves w ?w3 A A" for A by (rule moves_trans [OF moves_trans [OF dup dup] dup])
  let ?w5 = "close_range_fast K None (close_all K p ?w3)"
  have m5: "moves w ?w5 (pipes_owns p) {#}"
    unfolding close_range_fast_def option.case
    by (rule moves_trans [OF then_close_all [OF m3] sys_neutral]) simp
  let ?w6 = "if pg_isolated (so_pgroup opts) then snd (sys K Setsid ?w5) else ?w5"
  have m6: "moves w ?w6 (pipes_owns p) {#}"
    using moves_trans [OF m5 sys_neutral [of Setsid]] m5 by simp
  show ?thesis
  proof (cases "ec_cwd (so_ctx opts)")
    case None
    with moves_trans [OF m6 child_exec_moves] show ?thesis by (simp add: child_run_def Let_def)
  next
    case (Some cwd)
    obtain r w7 where s: "sys K (Chdir cwd) ?w6 = (r, w7)" by fastforce
    have m7: "moves w w7 (pipes_owns p) {#}" by (rule moves_trans [OF m6 neutral_sys [OF _ s]]) simp
    have m8: "moves w (snd (sys K (ExitNow 127) w7)) (pipes_owns p) {#}"
      by (rule moves_trans [OF m7 sys_neutral]) simp
    from moves_trans [OF m7 child_exec_moves] m8 Some s show ?thesis
      by (simp add: child_run_def Let_def)
  qed
qed

definition forked_owns :: "'a forked \<Rightarrow> ('a \<Rightarrow> int multiset) \<Rightarrow> int multiset" where
  "forked_owns x f = (case x of In_parent y \<Rightarrow> f y | In_child \<Rightarrow> {#})"

lemma forked_owns_simps [simp]: "forked_owns (In_parent y) f = f y" "forked_owns In_child f = {#}"
  by (simp_all add: forked_owns_def)

lemma spawn_fork_moves:
  assumes "spawn_fork_internal K opts w = (res, w')" and ok: "pipe_ok K"
  shows "moves w w' {#} (forked_owns res started_owns)"
proof -
  obtain pr w1 where s1: "pipes_new K (so_stdin opts) (so_capture_stdout opts) (so_capture_stderr opts) w = (pr, w1)"
    by fastforce
  note m1 = pipes_new_moves [OF s1 ok]
  note def = spawn_fork_internal_def s1
  show ?thesis
  proof (cases pr)
    case (Inl e)
    with assms m1 show ?thesis by (auto simp: def)
  next
    case pr: (Inr p)
    with m1 have m1: "moves w w1 {#} (pipes_owns p)" by simp
    obtain r w2 where s2: "sys K Fork w1 = (r, w2)" by fastforce
    have m2: "moves w w2 {#} (pipes_owns p)"
      by (rule moves_trans [OF m1 neutral_sys [OF _ s2]]) simp
    consider "r_ret r < 0" | "r_ret r = 0" | "0 < r_ret r" by linarith
    then show ?thesis
    proof cases
      case 1
      with assms pr s2 then_close_all [OF m2] show ?thesis by (auto simp: def Let_def)
    next
      case 2
      with assms pr s2 moves_trans [OF m2 child_run_moves] show ?thesis by (auto simp: def)
    next
      case 3
      obtain dres w3 where s3: "parent_drain K opts p w2 = (dres, w3)" by fastforce
      from moves_trans [OF m2 parent_drain_moves [OF s3]] show ?thesis
        using assms pr s2 3 s3 by (cases dres) (auto simp: def)
    qed
  qed
qed

lemma resolve_backend_moves:
  assumes "resolve_backend K android cell opts w = (x, w')"
  shows "moves w w' A A"
proof -
  have p: "moves v v' A A" if "probe_backend K android v = (b, v')" for v v' b
  proof -
    obtain r v1 where s: "sys K (PropertyGet (ascii ''ro.build.version.sdk'')) v = (r, v1)" by fastforce
    have "moves v v1 A A" by (rule neutral_sys [OF _ s]) simp
    with that s show ?thesis
      by (auto simp: probe_backend_def Let_def split: if_splits option.splits)
  qed
  show ?thesis
    using assms
    by (auto simp: resolve_backend_def select_backend_def intro: p
        split: if_splits spawn_backend.splits option.splits prod.splits)
qed

definition running_owns :: "sys_error + running_process \<Rightarrow> int multiset" where
  "running_owns res = (case res of Inl _ \<Rightarrow> {#} | Inr rp \<Rightarrow> drain_owns (rp_drain rp))"

lemma run_backend_moves:
  assumes "run_backend K b opts w = Some (res, w')" and ok: "pipe_ok K"
  shows "moves w w' {#} (forked_owns res started_owns)"
proof (cases b)
  case Backend_PosixSpawn
  with assms obtain y where y: "spawn_posix_internal K opts w = Some (y, w')" and "res = In_parent y"
    by (auto simp: run_backend_def bind_Some_conv)
  with spawn_posix_moves [OF y ok] show ?thesis by simp
next
  case Backend_Fork
  with assms have "spawn_fork_internal K opts w = (res, w')" by (simp add: run_backend_def)
  from spawn_fork_moves [OF this ok] show ?thesis .
qed

lemma as_running_owns: "forked_owns (as_running x) running_owns = forked_owns x started_owns"
  by (cases x rule: forked.exhaust)
    (auto simp: as_running_def running_owns_def started_owns_def split: sum.splits)

lemma spawn_start_moves:
  assumes "spawn_start K android cell opts w = Some ((res, cell'), w')" and ok: "pipe_ok K"
  shows "moves w w' {#} (forked_owns res running_owns)"
proof (cases "\<not> so_wait opts \<and> (so_stdin opts \<noteq> None \<or> so_capture_stdout opts \<or> so_capture_stderr opts)")
  case True
  with assms show ?thesis by (auto simp: spawn_start_def running_owns_def)
next
  case False
  obtain b cell1 w1 where s1: "resolve_backend K android cell opts w = ((b, cell1), w1)"
    by (metis prod.exhaust)
  obtain x where x: "run_backend K b opts w1 = Some (x, w')" "res = as_running x"
  proof (cases "run_backend K b opts w1")
    case None
    with assms(1) False s1 show thesis by (simp add: spawn_start_def split: if_splits)
  next
    case (Some y)
    with assms(1) False s1 show thesis by (cases y) (auto simp: spawn_start_def intro: that)
  qed
  from moves_trans [OF resolve_backend_moves [OF s1] run_backend_moves [OF x(1) ok]] show ?thesis
    by (simp add: x(2) as_running_owns)
qed

section \<open>Property\<close>

text \<open>C13. Starting a process leaks no descriptor. Whatever the options, the backend, and whatever call
  fails on the way, \<open>spawn_start\<close> ends with the caller owning exactly the descriptors of the
  returned drain, or none if it fails; in a forked child, which owns copies of all the pipes, it
  ends owning none of them; and nothing is closed that was not opened here, or closed twice.\<close>

theorem spawn_start_owns:
  assumes "spawn_start K android cell opts w = Some ((res, cell'), w')" and "pipe_ok K"
  shows "moves w w' {#} (forked_owns res running_owns)"
  using assms by (rule spawn_start_moves)

lemma fork_os_pipe_ok: "pipe_ok fork_os"
  by (simp add: pipe_ok_def fork_os_def)

theorem spawn_start_owns_witness:
  "\<exists>rp cell' w'. spawn_start fork_os False None demo_options \<lparr>kst = (), errno = 0, trace = []\<rparr>
      = Some ((In_parent (Inr rp), cell'), w') \<and>
     moves \<lparr>kst = (), errno = 0, trace = []\<rparr> w' {#} {#5#}"
proof -
  let ?w = "\<lparr>kst = (), errno = 0, trace = []\<rparr>"
  obtain rp cell' w' where r: "spawn_start fork_os False None demo_options ?w
      = Some ((In_parent (Inr rp), cell'), w')" and d: "drain_owns (rp_drain rp) = {#5#}"
    by (simp add: demo_options_def fork_os_def spawn_run drain_owns_def fd_owns_def)
  from spawn_start_owns [OF r fork_os_pipe_ok] r d show ?thesis
    by (auto simp: running_owns_def)
qed

end
