(* ===== verification/IoCalls.thy ===== *)
theory IoCalls
  imports Drain Proc
begin

text \<open>
  Which calls the I/O operations make. The drain, the reactor and the descriptors only read, write,
  close and talk to epoll; so a machine that watches signals, waits or the life of a child sees
  nothing of them.
\<close>

definition io_call :: "call \<Rightarrow> bool" where
  "io_call c \<longleftrightarrow> (case c of
     Read _ _ \<Rightarrow> True | Write _ _ \<Rightarrow> True | Close _ \<Rightarrow> True | FcntlGetfl _ \<Rightarrow> True
   | FcntlSetfl _ _ \<Rightarrow> True | EpollCtlAdd _ _ _ _ \<Rightarrow> True | EpollCtlDel _ _ \<Rightarrow> True
   | EpollWait _ _ _ \<Rightarrow> True | EpollCreate1 _ \<Rightarrow> True
   | _ \<Rightarrow> False)"

lemma io_call_simps [simp]:
  "io_call (Read n m)" "io_call (Write n bs)" "io_call (Close n)" "io_call (FcntlGetfl n)"
  "io_call (FcntlSetfl n fl)" "io_call (EpollCtlAdd n q ev tok)" "io_call (EpollCtlDel n q)"
  "io_call (EpollWait n q t)" "io_call (EpollCreate1 fl)"
  by (simp_all add: io_call_def)

abbreviation io_only :: "'k world \<Rightarrow> 'k world \<Rightarrow> bool" where
  "io_only \<equiv> makes io_call"

text \<open>Those that move no data and make no pipes: closing, flags and epoll.\<close>

definition upkeep_call :: "call \<Rightarrow> bool" where
  "upkeep_call c \<longleftrightarrow> (case c of
     Close _ \<Rightarrow> True | FcntlGetfl _ \<Rightarrow> True | FcntlSetfl _ _ \<Rightarrow> True | EpollCtlAdd _ _ _ _ \<Rightarrow> True
   | EpollCtlDel _ _ \<Rightarrow> True | EpollWait _ _ _ \<Rightarrow> True | EpollCreate1 _ \<Rightarrow> True | _ \<Rightarrow> False)"

lemma upkeep_call_simps [simp]:
  "upkeep_call (Close n)" "upkeep_call (FcntlGetfl n)" "upkeep_call (FcntlSetfl n fl)"
  "upkeep_call (EpollCtlAdd n q ev tok)" "upkeep_call (EpollCtlDel n q)" "upkeep_call (EpollWait n q t)"
  "upkeep_call (EpollCreate1 fl)"
  by (simp_all add: upkeep_call_def)

abbreviation upkeep_only :: "'k world \<Rightarrow> 'k world \<Rightarrow> bool" where
  "upkeep_only \<equiv> makes upkeep_call"

lemma upkeep_io: "upkeep_only w w' \<Longrightarrow> io_only w w'"
  by (erule makes_mono) (auto simp: upkeep_call_def io_call_def split: call.splits)

lemma drop_fd_upkeep: "upkeep_only w (drop_fd K f w)"
  by (simp add: drop_fd_def makes_snd)

lemma drop_opt_fd_upkeep: "upkeep_only w (drop_opt_fd K x w)"
  by (cases x) (simp_all add: drop_opt_fd_def drop_fd_upkeep)

lemma drop_slot_upkeep: "upkeep_only w (drop_slot K s w)"
  by (simp add: drop_slot_def drop_opt_fd_upkeep)

lemma drop_drain_upkeep: "upkeep_only w (drop_drain K d w)"
  unfolding drop_drain_def by (rule makes_trans [OF makes_trans [OF drop_slot_upkeep drop_slot_upkeep] drop_slot_upkeep])

lemma drop_reactor_upkeep: "upkeep_only w (drop_reactor K R w)"
  unfolding drop_reactor_def Let_def
  by (rule makes_trans [OF _ drop_opt_fd_upkeep]) (simp add: makes_snd)

lemma del_upkeep: "upkeep_only w (del K R f w)"
  by (simp add: del_def del_raw_def makes_snd)

lemma release_slot_upkeep: "upkeep_only w (release_slot K x R w)"
  by (cases x) (auto simp: release_slot_def intro: makes_trans del_upkeep drop_slot_upkeep)

lemma set_nonblock_upkeep:
  assumes "set_nonblock K f w = (res, w')"
  shows "upkeep_only w w'"
proof -
  obtain r1 w1 where s1: "sys K (FcntlGetfl (raw f)) w = (r1, w1)" by fastforce
  obtain r2 w2 where s2: "sys K (FcntlSetfl (raw f) (r_ret r1 OR O_NONBLOCK)) w1 = (r2, w2)" by fastforce
  have i1: "upkeep_only w w1" using s1 by (rule makes_sys) simp
  have i2: "upkeep_only w1 w2" using s2 by (rule makes_sys) simp
  show ?thesis
    using assms s1 s2 i1 makes_trans [OF i1 i2] by (auto simp: set_nonblock_def split: sum.splits)
qed

lemma new_slot_upkeep: "new_slot K x w = (res, w') \<Longrightarrow> upkeep_only w w'"
  by (cases x) (auto simp: new_slot_def split: prod.splits sum.splits dest: set_nonblock_upkeep)

lemma reactor_new_upkeep: "reactor_new K w = (res, w') \<Longrightarrow> upkeep_only w w'"
  by (auto simp: reactor_new_def split: prod.splits sum.splits dest: makes_sys [where P = upkeep_call])

lemma add_upkeep: "add K R f rd wr w = ((res, R'), w') \<Longrightarrow> upkeep_only w w'"
  by (auto simp: add_def add_with_token_def Let_def split: prod.splits sum.splits
      dest: makes_sys [where P = upkeep_call])

lemma wait_upkeep: "wait K R buffer n timeout w = (x, w') \<Longrightarrow> upkeep_only w w'"
  by (auto simp: wait_def Let_def split: prod.splits if_splits dest: makes_sys [where P = upkeep_call])

lemma register_slot_upkeep:
  assumes "register_slot K x R rd wr w = ((res, R'), w')"
  shows "upkeep_only w w'"
proof (cases x)
  case None
  with assms show ?thesis by (simp add: register_slot_def)
next
  case (Some s)
  obtain r R1 w1 where a: "add K R (slot_fd s) rd wr w = ((r, R1), w1)" by (metis prod.exhaust)
  with assms Some add_upkeep [OF a] show ?thesis
    by (cases r) (auto simp: register_slot_def intro: makes_trans drop_slot_upkeep)
qed

lemma register_with_reactor_upkeep:
  assumes "register_with_reactor K d R w = ((res, d', R'), w')"
  shows "upkeep_only w w'"
  using assms
  by (cases rule: register_with_reactor_cases) (auto dest!: register_slot_upkeep intro: makes_trans)

lemma drain_into_parts_upkeep: "upkeep_only w (snd (drain_into_parts K d w))"
  by (simp add: drain_into_parts_def drop_drain_upkeep)

text \<open>The same as I/O.\<close>

lemmas drop_fd_io = drop_fd_upkeep [THEN upkeep_io]
lemmas drop_opt_fd_io = drop_opt_fd_upkeep [THEN upkeep_io]
lemmas drop_slot_io = drop_slot_upkeep [THEN upkeep_io]
lemmas drop_drain_io = drop_drain_upkeep [THEN upkeep_io]
lemmas drop_reactor_io = drop_reactor_upkeep [THEN upkeep_io]
lemmas del_io = del_upkeep [THEN upkeep_io]
lemmas release_slot_io = release_slot_upkeep [THEN upkeep_io]
lemmas set_nonblock_io = set_nonblock_upkeep [THEN upkeep_io]
lemmas new_slot_io = new_slot_upkeep [THEN upkeep_io]
lemmas reactor_new_io = reactor_new_upkeep [THEN upkeep_io]
lemmas add_io = add_upkeep [THEN upkeep_io]
lemmas wait_io = wait_upkeep [THEN upkeep_io]
lemmas register_slot_io = register_slot_upkeep [THEN upkeep_io]
lemmas register_with_reactor_io = register_with_reactor_upkeep [THEN upkeep_io]
lemmas drain_into_parts_io = drain_into_parts_upkeep [THEN upkeep_io]

lemma handle_output_io:
  assumes "handle_output K is_stdout d R w = Some ((res, d'), w')"
  shows "io_only w w'"
  using assms
proof (cases rule: handle_output_cases)
  case (read s rr b ee w1)
  have "io_only w w1" using read(2) by (rule read_from_fd_makes) simp
  with read(3) show ?thesis by (auto split: if_splits intro: makes_trans release_slot_io)
qed simp

lemma handle_stdin_io:
  assumes "handle_stdin_writable K d R w = Some ((res, d'), w')"
  shows "io_only w w'"
  using assms
proof (cases rule: handle_stdin_cases)
  case (sent s rr wr w1)
  have "makes io_call w (snd ((rr, wr), w1))"
    by (rule makes_mono [OF write_to_fd_makes [OF sent(2)]]) auto
  then have "io_only w w1" by simp
  with sent(3) show ?thesis by (auto split: if_splits intro: makes_trans release_slot_io)
qed simp

text \<open>What waiting and signalling call.\<close>

lemma wait_step_makes: "wait_step K p w = Some (x, w') \<Longrightarrow> P (Waitpid (pid p) WNOHANG) \<Longrightarrow> makes P w w'"
  by (rule step_retry.makes_call)

lemma wait_blocking_makes: "wait_blocking K p w = Some (x, w') \<Longrightarrow> P (Waitpid (pid p) 0) \<Longrightarrow> makes P w w'"
  by (rule block_retry.makes_call)

end
