(* ===== verification/WaitLoop.thy ===== *)
theory WaitLoop
  imports SpawnOwn IoCalls
begin

text \<open>
  Running a process to its end: \<open>spawn\<close> and \<open>wait_loop\<close> of \<^verbatim>\<open>src/src/spawn/mod.rs\<close> (lines 523 to 536,
  632 to 674 and 1050 to 1185). Time is the reply to a \<open>Clock\<close> call, in nanoseconds. Whatever ends the
  loop, the parameters \<open>reactor\<close> and \<open>drain\<close> are dropped in that order, unless the drain was
  consumed before.
\<close>

section \<open>State\<close>

datatype kill_state = Ks_none | Ks_term_sent | Ks_kill_sent

text \<open>The states are passed in this order and never left backwards.\<close>

instantiation kill_state :: linorder
begin

definition less_eq_kill_state :: "kill_state \<Rightarrow> kill_state \<Rightarrow> bool" where
  "less_eq_kill_state a b \<longleftrightarrow> a = b \<or> a = Ks_none \<or> b = Ks_kill_sent"

definition less_kill_state :: "kill_state \<Rightarrow> kill_state \<Rightarrow> bool" where
  "less_kill_state a b \<longleftrightarrow> a \<le> b \<and> a \<noteq> (b :: kill_state)"

instance
proof
  fix a b c :: kill_state
  show "a \<le> b \<Longrightarrow> b \<le> c \<Longrightarrow> a \<le> c" "a \<le> b \<or> b \<le> a"
    by (cases a; cases b; cases c; simp add: less_eq_kill_state_def)+
qed (auto simp: less_eq_kill_state_def less_kill_state_def)

end

record process_output =
  out_pid :: int
  out_status :: "exit_status option"
  out_stdout :: "byte list"
  out_stderr :: "byte list"
  out_timed_out :: bool

text \<open>What stays the same during the loop, and what changes from round to round.\<close>

record wait_env =
  we_process :: process
  we_start :: int
  we_deadline :: "nat option"
  we_grace_ms :: u32
  we_cancel :: cancel_policy
  we_pgroup :: process_group

record loop_state =
  lp_drain :: "unit drain_state"
  lp_reactor :: reactor
  lp_status :: "exit_status option"
  lp_kill :: kill_state
  lp_timed_out :: bool

datatype round_result = Again loop_state | Stop "sys_error + process_output"

section \<open>The deadline\<close>

definition NANOS_PER_MILLI :: nat where "NANOS_PER_MILLI = 1000000"

definition target_is_group :: "process_group \<Rightarrow> bool" where
  "target_is_group pg \<longleftrightarrow> pg_isolated pg \<or> pg_leader pg \<noteq> None"

definition send_signal :: "'k os \<Rightarrow> wait_env \<Rightarrow> int \<Rightarrow> 'k world \<Rightarrow> (sys_error + unit) \<times> 'k world" where
  "send_signal K env sig w =
     (if target_is_group (we_pgroup env) then kill_pgroup K (we_process env) sig w
      else kill_process K (we_process env) sig w)"

definition kill_step ::
  "'k os \<Rightarrow> wait_env \<Rightarrow> nat \<Rightarrow> kill_state \<Rightarrow> 'k world \<Rightarrow> kill_state \<times> 'k world" where
  "kill_step K env elapsed_over st w =
     (case st of
        Ks_none \<Rightarrow>
          (if we_cancel env = Cancel_graceful
           then (let (r, w1) = send_signal K env SIGTERM w
                 in (if is_ok r then Ks_term_sent else Ks_kill_sent, w1))
           else if we_cancel env = Cancel_kill
           then (let (r, w1) = send_signal K env SIGKILL w in (Ks_kill_sent, w1))
           else (Ks_none, w))
      | Ks_term_sent \<Rightarrow>
          (if unat (we_grace_ms env) < elapsed_over
           then (let (r, w1) = send_signal K env SIGKILL w in (Ks_kill_sent, w1))
           else (Ks_term_sent, w))
      | Ks_kill_sent \<Rightarrow> (Ks_kill_sent, w))"

definition elapsed_since :: "wait_env \<Rightarrow> reply \<Rightarrow> nat" where
  "elapsed_since env r = nat (out_num (r_out r) - we_start env)"

definition check_deadline ::
  "'k os \<Rightarrow> wait_env \<Rightarrow> loop_state \<Rightarrow> 'k world \<Rightarrow> (int \<times> loop_state) \<times> 'k world" where
  "check_deadline K env ls w =
     (case we_deadline env of
        None \<Rightarrow> ((-1, ls), w)
      | Some dl \<Rightarrow>
          (let (r, w1) = sys K Clock w; elapsed = elapsed_since env r
           in if dl \<le> elapsed
              then (let elapsed_over = (elapsed - dl) div NANOS_PER_MILLI;
                        (st, w2) = kill_step K env elapsed_over (lp_kill ls) w1
                    in ((100, ls\<lparr>lp_timed_out := True, lp_kill := st\<rparr>), w2))
              else ((min (int ((dl - elapsed) div NANOS_PER_MILLI)) (2 ^ 31 - 1), ls), w1)))"

section \<open>One round\<close>

definition abandon :: "'k os \<Rightarrow> loop_state \<Rightarrow> 'k world \<Rightarrow> 'k world" where
  "abandon K ls w = drop_drain K (lp_drain ls) (drop_reactor K (lp_reactor ls) w)"

definition poll_status ::
  "'k os \<Rightarrow> wait_env \<Rightarrow> loop_state \<Rightarrow> 'k world \<Rightarrow> ((sys_error + loop_state) \<times> 'k world) option" where
  "poll_status K env ls w =
     (if lp_status ls = None
      then do {
        (res, w1) \<leftarrow> wait_step K (we_process env) w;
        (case res of
           Inl e \<Rightarrow> Some (Inl e, w1)
         | Inr None \<Rightarrow> Some (Inr ls, w1)
         | Inr (Some s) \<Rightarrow> Some (Inr (ls\<lparr>lp_status := Some s\<rparr>), w1))
      }
      else Some (Inr ls, w))"

fun del_slots :: "'k os \<Rightarrow> reactor \<Rightarrow> fd_slot list \<Rightarrow> 'k world \<Rightarrow> 'k world" where
  "del_slots K R [] w = w"
| "del_slots K R (s # ss) w = del_slots K R ss (drop_slot K (Some s) (del K R (slot_fd s) w))"

definition finish ::
  "'k os \<Rightarrow> wait_env \<Rightarrow> loop_state \<Rightarrow> 'k world \<Rightarrow> ((sys_error + process_output) \<times> 'k world) option" where
  "finish K env ls w = do {
     (res, w1) \<leftarrow> (case lp_status ls of
         Some s \<Rightarrow> Some (Inr s, w)
       | None \<Rightarrow> wait_blocking K (we_process env) w);
     (case res of
        Inl e \<Rightarrow> Some (Inl e, abandon K ls w1)
      | Inr s \<Rightarrow>
          (let (slots, d1) = take_all_slots (lp_drain ls);
               w2 = del_slots K (lp_reactor ls) slots w1;
               ((out, err), w3) = drain_into_parts K d1 w2
           in Some (Inr \<lparr>out_pid = pid (we_process env), out_status = Some s, out_stdout = out,
                         out_stderr = err, out_timed_out = lp_timed_out ls\<rparr>,
                    drop_reactor K (lp_reactor ls) w3)))
   }"

definition handle_event ::
  "'k os \<Rightarrow> event \<Rightarrow> unit drain_state \<Rightarrow> reactor \<Rightarrow> 'k world
     \<Rightarrow> (((sys_error + unit) \<times> unit drain_state) \<times> 'k world) option" where
  "handle_event K ev d R w =
     (if stdout_matches d (ev_token ev)
      then (if ev_readable ev then handle_stdout_ready K d R w
            else if ev_error ev
            then (let (d1, w1) = drop_stdout K d R w in Some ((Inr (), d1), w1))
            else Some ((Inr (), d), w))
      else if stderr_matches d (ev_token ev)
      then (if ev_readable ev then handle_stderr_ready K d R w
            else if ev_error ev
            then (let (d1, w1) = drop_stderr K d R w in Some ((Inr (), d1), w1))
            else Some ((Inr (), d), w))
      else if stdin_matches d (ev_token ev)
      then (if ev_writable ev then handle_stdin_writable K d R w
            else if ev_error ev
            then (let (d1, w1) = drop_stdin K d R w in Some ((Inr (), d1), w1))
            else Some ((Inr (), d), w))
      else Some ((Inr (), d), w))"

fun handle_events ::
  "'k os \<Rightarrow> event list \<Rightarrow> unit drain_state \<Rightarrow> reactor \<Rightarrow> 'k world
     \<Rightarrow> (((sys_error + unit) \<times> unit drain_state) \<times> 'k world) option" where
  "handle_events K [] d R w = Some ((Inr (), d), w)"
| "handle_events K (ev # evs) d R w = do {
     ((res, d1), w1) \<leftarrow> handle_event K ev d R w;
     (case res of
        Inl e \<Rightarrow> Some ((Inl e, d1), w1)
      | Inr _ \<Rightarrow> handle_events K evs d1 R w1)
   }"

definition pump :: "'k os \<Rightarrow> loop_state \<Rightarrow> int \<Rightarrow> 'k world \<Rightarrow> (round_result \<times> 'k world) option" where
  "pump K ls timeout w =
     (let ((res, R1, events), w1) = wait K (lp_reactor ls) [] 64 timeout w;
          ls1 = ls\<lparr>lp_reactor := R1\<rparr>
      in case res of
           Inl e \<Rightarrow> Some (Stop (Inl e), abandon K ls1 w1)
         | Inr nevents \<Rightarrow> do {
             ((r, d1), w2) \<leftarrow> handle_events K (take nevents events) (lp_drain ls1) R1 w1;
             let ls2 = ls1\<lparr>lp_drain := d1\<rparr>;
             (case r of
                Inl e \<Rightarrow> Some (Stop (Inl e), abandon K ls2 w2)
              | Inr _ \<Rightarrow> Some (Again ls2, w2))
           })"

definition epoll_timeout :: "loop_state \<Rightarrow> int \<Rightarrow> int" where
  "epoll_timeout ls poll_timeout =
     (if lp_status ls \<noteq> None
      then (if poll_timeout = -1 \<or> 1 < poll_timeout then 1 else poll_timeout)
      else poll_timeout)"

definition wait_round ::
  "'k os \<Rightarrow> wait_env \<Rightarrow> loop_state \<Rightarrow> 'k world \<Rightarrow> (round_result \<times> 'k world) option" where
  "wait_round K env ls w =
     (let ((poll_timeout, ls1), w1) = check_deadline K env ls w
      in do {
        (res, w2) \<leftarrow> poll_status K env ls1 w1;
        (case res of
           Inl e \<Rightarrow> Some (Stop (Inl e), abandon K ls1 w2)
         | Inr ls2 \<Rightarrow>
             if is_done (lp_drain ls2)
             then do { (out, w3) \<leftarrow> finish K env ls2 w2; Some (Stop out, w3) }
             else pump K ls2 (epoll_timeout ls2 poll_timeout) w2)
      })"

section \<open>The loop\<close>

partial_function (option) wait_rounds ::
  "'k os \<Rightarrow> wait_env \<Rightarrow> loop_state \<Rightarrow> 'k world \<Rightarrow> ((sys_error + process_output) \<times> 'k world) option" where
  "wait_rounds K env ls w = do {
     (o_res, w1) \<leftarrow> wait_round K env ls w;
     (case o_res of
        Again ls1 \<Rightarrow> wait_rounds K env ls1 w1
      | Stop res \<Rightarrow> Some (res, w1))
   }"

definition wait_loop ::
  "'k os \<Rightarrow> int \<Rightarrow> unit drain_state \<Rightarrow> reactor \<Rightarrow> u32 option \<Rightarrow> u32 \<Rightarrow> cancel_policy \<Rightarrow> process_group
     \<Rightarrow> 'k world \<Rightarrow> ((sys_error + process_output) \<times> 'k world) option" where
  "wait_loop K n d R timeout_ms kill_grace_ms cancel pgroup w = do {
     (res, w1) \<leftarrow> wait_step K (Process n) w;
     (case res of
        Inl e \<Rightarrow> Some (Inl e, drop_drain K d (drop_reactor K R w1))
      | Inr status_raw \<Rightarrow>
          (let (r, w2) = sys K Clock w1
           in wait_rounds K
                \<lparr>we_process = Process n, we_start = out_num (r_out r),
                 we_deadline = map_option (\<lambda>t. unat t * NANOS_PER_MILLI) timeout_ms,
                 we_grace_ms = kill_grace_ms, we_cancel = cancel, we_pgroup = pgroup\<rparr>
                \<lparr>lp_drain = d, lp_reactor = R, lp_status = status_raw, lp_kill = Ks_none,
                 lp_timed_out = False\<rparr> w2))
   }"

section \<open>Spawning and waiting\<close>

definition after_start ::
  "'k os \<Rightarrow> spawn_options \<Rightarrow> running_process \<Rightarrow> reactor \<Rightarrow> 'k world
     \<Rightarrow> ((sys_error + process_output) \<times> 'k world) option" where
  "after_start K opts rp R w =
     (let n = pid (rp_process rp);
          ((r, d, R1), w1) = register_with_reactor K (rp_drain rp) R w
      in case r of
           Inl e \<Rightarrow> Some (Inl e, drop_reactor K R1 (drop_drain K d w1))
         | Inr _ \<Rightarrow>
             if \<not> so_wait opts
             then (let ((out, err), w2) = drain_into_parts K d w1
                   in Some (Inr \<lparr>out_pid = n, out_status = None, out_stdout = out,
                                 out_stderr = err, out_timed_out = False\<rparr>, drop_reactor K R1 w2))
             else wait_loop K n d R1 (so_timeout_ms opts) (so_kill_grace_ms opts)
                    (so_cancel opts) (so_pgroup opts) w1)"

definition spawn ::
  "'k os \<Rightarrow> bool \<Rightarrow> backend option \<Rightarrow> spawn_options \<Rightarrow> 'k world
     \<Rightarrow> (((sys_error + process_output) forked \<times> backend option) \<times> 'k world) option" where
  "spawn K android cell opts w =
     (let (r0, w0) = reactor_new K w
      in case r0 of
           Inl e \<Rightarrow> Some ((In_parent (Inl e), cell), w0)
         | Inr R \<Rightarrow> do {
             ((res, cell1), w1) \<leftarrow> spawn_start K android cell opts w0;
             (case res of
                In_child \<Rightarrow> Some ((In_child, cell1), w1)
              | In_parent (Inl e) \<Rightarrow> Some ((In_parent (Inl e), cell1), drop_reactor K R w1)
              | In_parent (Inr rp) \<Rightarrow> do {
                  (out, w2) \<leftarrow> after_start K opts rp R w1;
                  Some ((In_parent out, cell1), w2)
                })
           })"

definition run :: 
  "'k os \<Rightarrow> bool \<Rightarrow> backend option \<Rightarrow> spawn_options \<Rightarrow> 'k world
     \<Rightarrow> (((sys_error + process_output) forked \<times> backend option) \<times> 'k world) option" where
  "run K android cell opts w = spawn K android cell opts w"

end
