(* ===== verification/WaitFacts.thy ===== *)
theory WaitFacts
  imports WaitLoop
begin

text \<open>
  The structure of a run of \<open>wait_loop\<close>: what one event can do to the drain, the ways out of a round, an
  induction rule for the rounds, and who owns which descriptor on every path.
\<close>

section \<open>One event\<close>

inductive drain_act ::
  "'k os \<Rightarrow> reactor \<Rightarrow> 's drain_state \<Rightarrow> 'k world \<Rightarrow> 's drain_state \<Rightarrow> 'k world \<Rightarrow> bool" for K R where
  idle: "drain_act K R d w d w"
| read: "handle_output K is_stdout d R w = Some ((res, d'), w') \<Longrightarrow> drain_act K R d w d' w'"
| drop_out: "drain_act K R d w (without is_stdout d) (release_slot K (slot_of is_stdout d) R w)"
| sent: "handle_stdin_writable K d R w = Some ((res, d'), w') \<Longrightarrow> drain_act K R d w d' w'"
| drop_in: "drop_stdin K d R w = (d', w') \<Longrightarrow> drain_act K R d w d' w'"

lemma handle_event_act:
  assumes "handle_event K ev d R w = Some ((res, d'), w')"
  shows "drain_act K R d w d' w'"
proof -
  note h = drain_act.read [where K = K and R = R and d = d and w = w and d' = d' and w' = w']
  note o1 = drain_act.drop_out [of K R d w True] and o2 = drain_act.drop_out [of K R d w False]
  show ?thesis
    using assms h [of True res] h [of False res] o1 o2
      drain_act.sent [of K d R w res d' w'] drain_act.drop_in [of K d R w d' w'] drain_act.idle [of K R d w]
    by (simp add: handle_event_def handle_output_def without_def slot_of_def drop_stdout_def
        drop_stderr_def split: if_splits prod.splits)
qed

lemma handle_events_ind:
  assumes "handle_events K evs d R w = Some ((res, d'), w')" and "P d w"
    and step: "\<And>d w d' w'. P d w \<Longrightarrow> drain_act K R d w d' w' \<Longrightarrow> P d' w'"
  shows "P d' w'"
  using assms(1,2)
proof (induction evs arbitrary: d w)
  case Nil
  then show ?case by simp
next
  case (Cons ev evs)
  have "handle_event K ev d R w \<noteq> None" using Cons.prems(1) by (cases "handle_event K ev d R w") simp_all
  then obtain r d1 w1 where e: "handle_event K ev d R w = Some ((r, d1), w1)"
    by (metis option.exhaust prod.exhaust)
  note P1 = step [OF Cons.prems(2) handle_event_act [OF e]]
  show ?case
  proof (cases r)
    case (Inl x)
    with Cons.prems(1) e P1 show ?thesis by simp
  next
    case (Inr u)
    with Cons.prems(1) e have "handle_events K evs d1 R w1 = Some ((res, d'), w')" by simp
    from Cons.IH [OF this P1] show ?thesis .
  qed
qed

lemma release_owns:
  "moves w (release_slot K (slot_of b d) R w) (drain_owns d) (drain_owns (without b d))"
  using moves_frame [OF release_slot_moves [of w K "slot_of b d" R], of "drain_owns (without b d)"]
  by (cases b) (simp_all add: drain_owns_def slot_of_def without_def ac_simps)

lemma act_moves: "drain_act K R d w d' w' \<Longrightarrow> moves w w' (drain_owns d) (drain_owns d')"
proof (induction rule: drain_act.induct)
  case (drop_in d w d' w')
  have "moves w (release_slot K (stdin_slot d) R w) (drain_owns d) (drain_owns (d\<lparr>stdin_slot := None\<rparr>))"
    using moves_frame [OF release_slot_moves [of w K "stdin_slot d" R],
        of "drain_owns (d\<lparr>stdin_slot := None\<rparr>)"]
    by (simp add: drain_owns_def ac_simps)
  with drop_in show ?case by (auto simp: drop_stdin_def drain_owns_def)
qed (auto intro: handle_output_moves release_owns handle_stdin_moves)

lemma act_io: "drain_act K R d w d' w' \<Longrightarrow> io_only w w'"
  by (induction rule: drain_act.induct)
    (auto simp: drop_stdin_def intro: handle_output_io release_slot_io handle_stdin_io)

lemma handle_events_moves:
  assumes "handle_events K evs d R w = Some ((res, d'), w')"
  shows "moves w w' (drain_owns d) (drain_owns d')"
  by (rule handle_events_ind [OF assms, where P = "\<lambda>d1 w1. moves w w1 (drain_owns d) (drain_owns d1)"])
    (auto intro: moves_trans act_moves)

lemma handle_events_io: "handle_events K evs d R w = Some ((res, d'), w') \<Longrightarrow> io_only w w'"
  by (erule handle_events_ind [where P = "\<lambda>d1 w1. io_only w w1"]) (auto intro: makes_trans act_io)

section \<open>One round\<close>

lemma pump_cases:
  assumes "pump K ls timeout w = Some (o_res, w')"
  obtains (wait_failed) e R1 evs w1 where "wait K (lp_reactor ls) [] 64 timeout w = ((Inl e, R1, evs), w1)"
      "o_res = Stop (Inl e)" "w' = abandon K (ls\<lparr>lp_reactor := R1\<rparr>) w1"
  | (handled) n R1 evs w1 r d1 w2 where "wait K (lp_reactor ls) [] 64 timeout w = ((Inr n, R1, evs), w1)"
      "handle_events K (take n evs) (lp_drain ls) R1 w1 = Some ((r, d1), w2)"
      "case r of Inl e \<Rightarrow> o_res = Stop (Inl e) \<and> w' = abandon K (ls\<lparr>lp_reactor := R1, lp_drain := d1\<rparr>) w2
         | Inr _ \<Rightarrow> o_res = Again (ls\<lparr>lp_reactor := R1, lp_drain := d1\<rparr>) \<and> w' = w2"
proof -
  obtain res R1 evs w1 where s: "wait K (lp_reactor ls) [] 64 timeout w = ((res, R1, evs), w1)"
    by (metis prod.exhaust)
  show thesis
  proof (cases res)
    case (Inl e)
    with assms s have "o_res = Stop (Inl e) \<and> w' = abandon K (ls\<lparr>lp_reactor := R1\<rparr>) w1"
      by (simp add: pump_def)
    with s Inl show thesis by (intro wait_failed) auto
  next
    case (Inr n)
    have "handle_events K (take n evs) (lp_drain ls) R1 w1 \<noteq> None"
      using assms s Inr by (cases "handle_events K (take n evs) (lp_drain ls) R1 w1") (simp_all add: pump_def)
    then obtain r d1 w2 where h: "handle_events K (take n evs) (lp_drain ls) R1 w1 = Some ((r, d1), w2)"
      by (metis option.exhaust prod.exhaust)
    have "case r of Inl e \<Rightarrow> o_res = Stop (Inl e) \<and> w' = abandon K (ls\<lparr>lp_reactor := R1, lp_drain := d1\<rparr>) w2
         | Inr _ \<Rightarrow> o_res = Again (ls\<lparr>lp_reactor := R1, lp_drain := d1\<rparr>) \<and> w' = w2"
      using assms s Inr h by (cases r) (simp_all add: pump_def Let_def)
    with s Inr h show thesis by (intro handled) auto
  qed
qed

lemma poll_status_cases:
  assumes "poll_status K env ls w = Some (res, w')"
  obtains (known) "lp_status ls \<noteq> None" "res = Inr ls" "w' = w"
  | (failed) e where "lp_status ls = None" "wait_step K (we_process env) w = Some (Inl e, w')" "res = Inl e"
  | (asked) x where "lp_status ls = None" "wait_step K (we_process env) w = Some (Inr x, w')"
      "res = Inr (ls\<lparr>lp_status := x\<rparr>)"
proof (cases "lp_status ls = None")
  case False
  with assms known show thesis by (simp add: poll_status_def)
next
  case True
  have "wait_step K (we_process env) w \<noteq> None"
    using assms True by (cases "wait_step K (we_process env) w") (simp_all add: poll_status_def)
  then obtain x w1 where s: "wait_step K (we_process env) w = Some (x, w1)"
    by (metis option.exhaust prod.exhaust)
  show thesis
  proof (cases x rule: io_exhaust)
    case (err e)
    with assms True s show thesis by (intro failed [of e]) (auto simp: poll_status_def)
  next
    case block
    moreover have "ls\<lparr>lp_status := None\<rparr> = ls" using True by (cases ls) simp
    ultimately show thesis using assms True s by (intro asked [of None]) (auto simp: poll_status_def)
  next
    case (data st)
    with assms True s show thesis by (intro asked [of "Some st"]) (auto simp: poll_status_def)
  qed
qed

lemma wait_round_cases:
  assumes "wait_round K env ls w = Some (o_res, w')"
  obtains (status_failed) poll ls1 w1 e w2 where "check_deadline K env ls w = ((poll, ls1), w1)"
      "poll_status K env ls1 w1 = Some (Inl e, w2)" "o_res = Stop (Inl e)" "w' = abandon K ls1 w2"
  | (finished) poll ls1 w1 ls2 w2 res where "check_deadline K env ls w = ((poll, ls1), w1)"
      "poll_status K env ls1 w1 = Some (Inr ls2, w2)" "is_done (lp_drain ls2)"
      "finish K env ls2 w2 = Some (res, w')" "o_res = Stop res"
  | (pumped) poll ls1 w1 ls2 w2 where "check_deadline K env ls w = ((poll, ls1), w1)"
      "poll_status K env ls1 w1 = Some (Inr ls2, w2)" "\<not> is_done (lp_drain ls2)"
      "pump K ls2 (epoll_timeout ls2 poll) w2 = Some (o_res, w')"
proof -
  obtain poll ls1 w1 where c: "check_deadline K env ls w = ((poll, ls1), w1)" by (metis prod.exhaust)
  have "poll_status K env ls1 w1 \<noteq> None"
    using assms c by (cases "poll_status K env ls1 w1") (simp_all add: wait_round_def)
  then obtain r w2 where p: "poll_status K env ls1 w1 = Some (r, w2)" by (metis option.exhaust prod.exhaust)
  show thesis
  proof (cases r)
    case (Inl e)
    with assms c p show thesis by (intro status_failed [OF c]) (auto simp: wait_round_def)
  next
    case (Inr ls2)
    show thesis
    proof (cases "is_done (lp_drain ls2)")
      case True
      have "finish K env ls2 w2 \<noteq> None"
        using assms c p Inr True by (cases "finish K env ls2 w2") (simp_all add: wait_round_def)
      then obtain res w3 where "finish K env ls2 w2 = Some (res, w3)" by (metis option.exhaust prod.exhaust)
      with assms c p Inr True show thesis by (intro finished [OF c]) (auto simp: wait_round_def)
    next
      case False
      with assms c p Inr show thesis by (intro pumped [OF c]) (auto simp: wait_round_def)
    qed
  qed
qed

lemma finish_cases:
  assumes "finish K env ls w = Some (res, w')" and "is_done (lp_drain ls)"
  obtains (wait_failed) e w1 where "lp_status ls = None"
      "wait_blocking K (we_process env) w = Some (Inl e, w1)" "res = Inl e" "w' = abandon K ls w1"
  | (reported) s w1 where "lp_status ls = Some s \<and> w1 = w \<or>
         lp_status ls = None \<and> wait_blocking K (we_process env) w = Some (Inr s, w1)"
      "res = Inr \<lparr>out_pid = pid (we_process env), out_status = Some s,
         out_stdout = buf_stdout (drain_buffer (lp_drain ls)),
         out_stderr = buf_stderr (drain_buffer (lp_drain ls)), out_timed_out = lp_timed_out ls\<rparr>"
      "w' = drop_reactor K (lp_reactor ls) (drop_drain K (lp_drain ls) w1)"
proof -
  obtain d1 where t: "take_all_slots (lp_drain ls) = ([], d1)" and d1: "drain_buffer d1 = drain_buffer (lp_drain ls)"
    "\<And>w. drop_drain K d1 w = drop_drain K (lp_drain ls) w"
    using assms(2) by (simp add: take_all_slots_def is_done_def drop_drain_def)
  have report: "finish K env ls w = Some (Inr \<lparr>out_pid = pid (we_process env), out_status = Some s,
         out_stdout = buf_stdout (drain_buffer (lp_drain ls)),
         out_stderr = buf_stderr (drain_buffer (lp_drain ls)), out_timed_out = lp_timed_out ls\<rparr>,
       drop_reactor K (lp_reactor ls) (drop_drain K (lp_drain ls) w1))"
    if "lp_status ls = Some s \<and> w1 = w \<or> lp_status ls = None \<and> wait_blocking K (we_process env) w = Some (Inr s, w1)"
    for s w1
    using that t d1 by (auto simp: finish_def drain_into_parts_def buffer_into_parts_def)
  show thesis
  proof (cases "lp_status ls")
    case (Some s)
    with report [of s w] assms(1) show thesis by (intro reported [of s w]) simp_all
  next
    case None
    have "wait_blocking K (we_process env) w \<noteq> None"
      using assms None by (cases "wait_blocking K (we_process env) w") (simp_all add: finish_def)
    then obtain x w1 where b: "wait_blocking K (we_process env) w = Some (x, w1)"
      by (metis option.exhaust prod.exhaust)
    show thesis
    proof (cases x)
      case (Inl e)
      with assms None b show thesis by (intro wait_failed [OF None]) (auto simp: finish_def)
    next
      case (Inr s)
      with report [of s w1] assms(1) None b show thesis by (intro reported [of s w1]) simp_all
    qed
  qed
qed

text \<open>An invariant of the rounds holds when the last one starts.\<close>

lemma wait_rounds_ind:
  assumes "wait_rounds K env ls w = Some (res, w')" and "I ls w"
    and "\<And>ls w ls1 w1. I ls w \<Longrightarrow> wait_round K env ls w = Some (Again ls1, w1) \<Longrightarrow> I ls1 w1"
  shows "\<exists>ls1 w1. I ls1 w1 \<and> wait_round K env ls1 w1 = Some (Stop res, w')"
proof -
  define Q where "Q K' env' ls w y \<longleftrightarrow> (K' = K \<longrightarrow> env' = env \<longrightarrow> I ls w \<longrightarrow>
      (\<exists>ls1 w1. I ls1 w1 \<and> wait_round K env ls1 w1 = Some (Stop (fst y), snd y)))" for K' env' ls w y
  have "Q K env ls w (res, w')"
  proof (rule wait_rounds.raw_induct [OF _ assms(1), where P = Q], goal_cases)
    case (1 loop K' env' ls w y)
    note IH = 1(1) and eq = 1(2)
    have "wait_round K' env' ls w \<noteq> None" using eq by (cases "wait_round K' env' ls w") simp_all
    then obtain o_res w1 where r: "wait_round K' env' ls w = Some (o_res, w1)"
      by (metis option.exhaust prod.exhaust)
    show "Q K' env' ls w y"
    proof (cases o_res)
      case (Again ls1)
      with eq r have "Q K' env' ls1 w1 y" by (intro IH) simp
      with assms(3) r Again show ?thesis unfolding Q_def by blast
    next
      case (Stop res)
      with eq r have "wait_round K' env' ls w = Some (Stop (fst y), snd y)" by auto
      then show ?thesis unfolding Q_def by blast
    qed
  qed
  with assms(2) show ?thesis by (simp add: Q_def)
qed

section \<open>Signals\<close>

definition signal_target :: "wait_env \<Rightarrow> int" where
  "signal_target env = (if target_is_group (we_pgroup env) then - pid (we_process env) else pid (we_process env))"

lemma send_signal_runs:
  assumes "send_signal K env sig w = (res, w')"
  obtains r where "runs w w' [(Kill (signal_target env) sig, r)]"
    and "is_ok res \<longleftrightarrow> 0 \<le> r_ret r \<or> r_errno r = ESRCH"
proof (cases "target_is_group (we_pgroup env)")
  case True
  with assms have "kill_pgroup K (we_process env) sig w = (res, w')" by (simp add: send_signal_def)
  then obtain r where "runs w w' [(Kill (- pid (we_process env)) sig, r)]"
    "is_ok res \<longleftrightarrow> 0 \<le> r_ret r \<or> r_errno r = ESRCH" by (rule kill_pgroup_runs)
  with True show thesis by (intro that [of r]) (simp_all add: signal_target_def)
next
  case False
  with assms have "kill_process K (we_process env) sig w = (res, w')" by (simp add: send_signal_def)
  then obtain r where "runs w w' [(Kill (pid (we_process env)) sig, r)]"
    "is_ok res \<longleftrightarrow> 0 \<le> r_ret r \<or> r_errno r = ESRCH" by (rule kill_process_runs)
  with False show thesis by (intro that [of r]) (simp_all add: signal_target_def)
qed

text \<open>The four things a kill step does.\<close>

lemma kill_step_cases:
  assumes "kill_step K env over st w = (st', w')"
  obtains (nothing) "st' = st" "w' = w"
      "st = Ks_none \<and> we_cancel env = Cancel_none \<or> st = Ks_term_sent \<and> over \<le> unat (we_grace_ms env) \<or> st = Ks_kill_sent"
  | (asked) r where "st = Ks_none" "we_cancel env = Cancel_graceful"
      "runs w w' [(Kill (signal_target env) SIGTERM, r)]"
      "st' = (if 0 \<le> r_ret r \<or> r_errno r = ESRCH then Ks_term_sent else Ks_kill_sent)"
  | (killed) r where "st' = Ks_kill_sent" "runs w w' [(Kill (signal_target env) SIGKILL, r)]"
      "st = Ks_none \<and> we_cancel env = Cancel_kill \<or> st = Ks_term_sent \<and> unat (we_grace_ms env) < over"
proof -
  obtain rt wt where t: "send_signal K env SIGTERM w = (rt, wt)" by fastforce
  obtain rk wk where k: "send_signal K env SIGKILL w = (rk, wk)" by fastforce
  obtain r1 where r1: "runs w wt [(Kill (signal_target env) SIGTERM, r1)]"
    "is_ok rt \<longleftrightarrow> 0 \<le> r_ret r1 \<or> r_errno r1 = ESRCH"
    using send_signal_runs [OF t] by blast
  obtain r2 where r2: "runs w wk [(Kill (signal_target env) SIGKILL, r2)]"
    using send_signal_runs [OF k] by blast
  show thesis
  proof (cases st)
    case Ks_none
    show thesis
    proof (cases "we_cancel env")
      case Cancel_none
      with assms Ks_none have "st' = st" "w' = w" by (simp_all add: kill_step_def)
      then show thesis by (rule nothing) (simp add: Ks_none Cancel_none)
    next
      case Cancel_graceful
      with assms Ks_none t r1 show thesis by (intro asked [of r1]) (auto simp: kill_step_def)
    next
      case Cancel_kill
      with assms Ks_none k r2 show thesis by (intro killed [of r2]) (auto simp: kill_step_def)
    qed
  next
    case Ks_term_sent
    show thesis
    proof (cases "unat (we_grace_ms env) < over")
      case True
      with assms Ks_term_sent k r2 show thesis by (intro killed [of r2]) (auto simp: kill_step_def)
    next
      case False
      with assms Ks_term_sent have "st' = st" "w' = w" by (simp_all add: kill_step_def)
      then show thesis by (rule nothing) (use Ks_term_sent False in simp)
    qed
  next
    case Ks_kill_sent
    with assms have "st' = st" "w' = w" by (simp_all add: kill_step_def)
    then show thesis by (rule nothing) (simp add: Ks_kill_sent)
  qed
qed

lemma check_deadline_cases:
  assumes "check_deadline K env ls w = ((poll, ls'), w')"
  obtains (untimed) "we_deadline env = None" "poll = -1" "ls' = ls" "w' = w"
  | (early) dl r where "we_deadline env = Some dl" "sys K Clock w = (r, w')" "elapsed_since env r < dl"
      "poll = min (int ((dl - elapsed_since env r) div NANOS_PER_MILLI)) (2 ^ 31 - 1)" "ls' = ls"
  | (over) dl r w1 st where "we_deadline env = Some dl" "sys K Clock w = (r, w1)" "dl \<le> elapsed_since env r"
      "kill_step K env ((elapsed_since env r - dl) div NANOS_PER_MILLI) (lp_kill ls) w1 = (st, w')"
      "poll = 100" "ls' = ls\<lparr>lp_timed_out := True, lp_kill := st\<rparr>"
proof (cases "we_deadline env")
  case None
  with assms untimed show thesis by (simp add: check_deadline_def)
next
  case (Some dl)
  obtain r w1 where s: "sys K Clock w = (r, w1)" by fastforce
  show thesis
  proof (cases "dl \<le> elapsed_since env r")
    case True
    obtain st w2 where k: "kill_step K env ((elapsed_since env r - dl) div NANOS_PER_MILLI) (lp_kill ls) w1 = (st, w2)"
      by fastforce
    with assms Some s True show thesis by (intro over [OF Some s True]) (auto simp: check_deadline_def)
  next
    case False
    with assms Some s show thesis by (intro early [OF Some]) (auto simp: check_deadline_def)
  qed
qed

section \<open>Descriptors\<close>

definition loop_owns :: "loop_state \<Rightarrow> int multiset" where
  "loop_owns ls = drain_owns (lp_drain ls) + reactor_owns (lp_reactor ls)"

lemma loop_owns_update [simp]:
  "loop_owns (ls\<lparr>lp_status := x\<rparr>) = loop_owns ls"
  "loop_owns (ls\<lparr>lp_timed_out := b, lp_kill := k\<rparr>) = loop_owns ls"
  by (simp_all add: loop_owns_def)

lemma abandon_moves: "moves w (abandon K ls w) (loop_owns ls) {#}"
  unfolding abandon_def loop_owns_def
  using moves_drop_seq [OF drop_reactor_moves drop_drain_moves] by (metis add.commute)

lemma runs_kill_moves: "runs w w' [(Kill n sig, r)] \<Longrightarrow> moves w w' A A"
  unfolding moves_def by (intro exI [of _ "[(Kill n sig, r)]"]) simp

lemma check_deadline_moves:
  assumes "check_deadline K env ls w = ((poll, ls'), w')"
  shows "moves w w' A A" and "loop_owns ls' = loop_owns ls" and "lp_drain ls' = lp_drain ls"
    and "lp_reactor ls' = lp_reactor ls" and "lp_status ls' = lp_status ls"
proof -
  show "moves w w' A A"
    using assms
  proof (cases rule: check_deadline_cases)
    case (early dl r)
    from early(2) show ?thesis by (rule neutral_sys [rotated]) simp
  next
    case (over dl r w1 st)
    have 1: "moves w w1 A A" using over(2) by (rule neutral_sys [rotated]) simp
    from over(4) have "moves w1 w' A A"
      by (cases rule: kill_step_cases) (auto intro: runs_kill_moves)
    with 1 show ?thesis by (rule moves_trans)
  qed simp
  show "loop_owns ls' = loop_owns ls" "lp_drain ls' = lp_drain ls"
    "lp_reactor ls' = lp_reactor ls" "lp_status ls' = lp_status ls"
    using assms by (cases rule: check_deadline_cases; simp)+
qed

lemma poll_status_moves:
  assumes "poll_status K env ls w = Some (res, w')"
  shows "moves w w' A A"
  using assms by (cases rule: poll_status_cases) (auto intro: wait_step_moves)

lemma pump_moves:
  assumes "pump K ls timeout w = Some (o_res, w')"
  shows "moves w w' (loop_owns ls) (case o_res of Again ls' \<Rightarrow> loop_owns ls' | Stop _ \<Rightarrow> {#})"
  using assms
proof (cases rule: pump_cases)
  case (wait_failed e R1 evs w1)
  have "moves w w1 (loop_owns ls) (loop_owns ls)" by (rule wait_spec(1) [OF wait_failed(1)])
  moreover have "loop_owns (ls\<lparr>lp_reactor := R1\<rparr>) = loop_owns ls"
    using wait_spec(2,3) [OF wait_failed(1)] by (simp add: loop_owns_def reactor_owns_def)
  ultimately have "moves w w' (loop_owns ls) {#}"
    using abandon_moves [of w1 K "ls\<lparr>lp_reactor := R1\<rparr>"] wait_failed(3) by (metis moves_trans)
  with wait_failed(2) show ?thesis by simp
next
  case (handled n R1 evs w1 r d1 w2)
  let ?ls = "ls\<lparr>lp_reactor := R1, lp_drain := d1\<rparr>"
  have m1: "moves w w1 (loop_owns ls) (loop_owns ls)" by (rule wait_spec(1) [OF handled(1)])
  have R: "reactor_owns R1 = reactor_owns (lp_reactor ls)"
    using wait_spec(2,3) [OF handled(1)] by (simp add: reactor_owns_def)
  have "moves w1 w2 (loop_owns ls) (loop_owns ?ls)"
    using moves_frame [OF handle_events_moves [OF handled(2)], of "reactor_owns R1"] R
    by (simp add: loop_owns_def)
  with m1 have m2: "moves w w2 (loop_owns ls) (loop_owns ?ls)" by (rule moves_trans)
  with moves_trans [OF m2 abandon_moves] handled(3) show ?thesis by (cases r) auto
qed

lemma finish_moves:
  assumes "finish K env ls w = Some (res, w')" and "is_done (lp_drain ls)"
  shows "moves w w' (loop_owns ls) {#}"
  using assms
proof (cases rule: finish_cases)
  case (wait_failed e w1)
  from wait_blocking_moves [OF wait_failed(2)] abandon_moves [of w1 K ls] wait_failed(4)
  show ?thesis by (metis moves_trans)
next
  case (reported s w1)
  have 1: "moves w w1 (loop_owns ls) (loop_owns ls)"
    using reported(1) by (auto intro: wait_blocking_moves)
  have "moves w1 w' (loop_owns ls) {#}"
    unfolding reported(3) loop_owns_def by (rule moves_drop_seq [OF drop_drain_moves drop_reactor_moves])
  with 1 show ?thesis by (rule moves_trans)
qed

lemma wait_round_moves:
  assumes "wait_round K env ls w = Some (o_res, w')"
  shows "moves w w' (loop_owns ls) (case o_res of Again ls' \<Rightarrow> loop_owns ls' | Stop _ \<Rightarrow> {#})"
  using assms
proof (cases rule: wait_round_cases)
  case (status_failed poll ls1 w1 e w2)
  note c = check_deadline_moves [OF status_failed(1)]
  from moves_trans [OF moves_trans [OF c(1) poll_status_moves [OF status_failed(2)]]
      abandon_moves [of w2 K ls1]]
  show ?thesis using status_failed(3,4) c(2) by simp
next
  case (finished poll ls1 w1 ls2 w2 res)
  note c = check_deadline_moves [OF finished(1)]
  have "loop_owns ls2 = loop_owns ls"
    using finished(2) c(2) by (cases rule: poll_status_cases) simp_all
  with moves_trans [OF moves_trans [OF c(1) poll_status_moves [OF finished(2)]] finish_moves [OF finished(4,3)]]
  show ?thesis using finished(5) by simp
next
  case (pumped poll ls1 w1 ls2 w2)
  note c = check_deadline_moves [OF pumped(1)]
  have "loop_owns ls2 = loop_owns ls"
    using pumped(2) c(2) by (cases rule: poll_status_cases) simp_all
  with moves_trans [OF moves_trans [OF c(1) poll_status_moves [OF pumped(2)]] pump_moves [OF pumped(4)]]
  show ?thesis by simp
qed

lemma wait_rounds_moves:
  assumes "wait_rounds K env ls w = Some (res, w')"
  shows "moves w w' (loop_owns ls) {#}"
proof -
  have "\<exists>ls1 w1. moves w w1 (loop_owns ls) (loop_owns ls1) \<and> wait_round K env ls1 w1 = Some (Stop res, w')"
  proof (rule wait_rounds_ind [OF assms])
    show "moves w w (loop_owns ls) (loop_owns ls)" by simp
  next
    fix ls1 w1 ls2 w2
    assume m: "moves w w1 (loop_owns ls) (loop_owns ls1)" and r: "wait_round K env ls1 w1 = Some (Again ls2, w2)"
    from moves_trans [OF m wait_round_moves [OF r]] show "moves w w2 (loop_owns ls) (loop_owns ls2)" by simp
  qed
  then obtain ls1 w1 where m: "moves w w1 (loop_owns ls) (loop_owns ls1)"
    and r: "wait_round K env ls1 w1 = Some (Stop res, w')" by blast
  from moves_trans [OF m wait_round_moves [OF r]] show ?thesis by simp
qed

text \<open>How \<open>wait_loop\<close> begins.\<close>

definition loop_env :: "int \<Rightarrow> u32 option \<Rightarrow> u32 \<Rightarrow> cancel_policy \<Rightarrow> process_group \<Rightarrow> reply \<Rightarrow> wait_env" where
  "loop_env n timeout grace cancel pg r =
     \<lparr>we_process = Process n, we_start = out_num (r_out r),
      we_deadline = map_option (\<lambda>t. unat t * NANOS_PER_MILLI) timeout,
      we_grace_ms = grace, we_cancel = cancel, we_pgroup = pg\<rparr>"

definition loop_start :: "unit drain_state \<Rightarrow> reactor \<Rightarrow> exit_status option \<Rightarrow> loop_state" where
  "loop_start d R x =
     \<lparr>lp_drain = d, lp_reactor = R, lp_status = x, lp_kill = Ks_none, lp_timed_out = False\<rparr>"

lemma wait_loop_cases:
  assumes "wait_loop K n d R timeout grace cancel pg w = Some (res, w')"
  obtains (failed) e w1 where "wait_step K (Process n) w = Some (Inl e, w1)" "res = Inl e"
      "w' = drop_drain K d (drop_reactor K R w1)"
  | (looped) x w1 r w2 where "wait_step K (Process n) w = Some (Inr x, w1)" "sys K Clock w1 = (r, w2)"
      "wait_rounds K (loop_env n timeout grace cancel pg r) (loop_start d R x) w2 = Some (res, w')"
proof -
  have "wait_step K (Process n) w \<noteq> None"
    using assms by (cases "wait_step K (Process n) w") (simp_all add: wait_loop_def)
  then obtain y w1 where s: "wait_step K (Process n) w = Some (y, w1)" by (metis option.exhaust prod.exhaust)
  obtain r w2 where c: "sys K Clock w1 = (r, w2)" by fastforce
  show thesis
  proof (cases y)
    case (Inl e)
    with assms s show thesis by (intro failed) (auto simp: wait_loop_def)
  next
    case (Inr x)
    with assms s c show thesis
      by (intro looped [of x w1]) (auto simp: wait_loop_def loop_env_def loop_start_def)
  qed
qed

lemma wait_loop_moves:
  assumes "wait_loop K n d R timeout grace cancel pg w = Some (res, w')"
  shows "moves w w' (drain_owns d + reactor_owns R) {#}"
  using assms
proof (cases rule: wait_loop_cases)
  case (failed e w1)
  have 1: "moves w w1 A A" for A by (rule wait_step_moves [OF failed(1)])
  have "moves w1 w' (reactor_owns R + drain_owns d) {#}"
    unfolding failed(3) by (rule moves_drop_seq [OF drop_reactor_moves drop_drain_moves])
  with 1 show ?thesis by (metis moves_trans add.commute)
next
  case (looped x w1 r w2)
  have 1: "moves w w1 A A" for A by (rule wait_step_moves [OF looped(1)])
  have 2: "moves w1 w2 A A" for A using looped(2) by (rule neutral_sys [rotated]) simp
  from moves_trans [OF moves_trans [OF 1 2] wait_rounds_moves [OF looped(3)]] show ?thesis
    by (simp add: loop_owns_def loop_start_def)
qed

end
