(* ===== verification/WaitPolicy.thy ===== *)
theory WaitPolicy
  imports WaitFacts
begin

text \<open>
  The kill policy of \<open>wait_loop\<close> as an abstract machine, and the proof that every run of the loop
  refines it. The machine reads the trace: clock readings move its clock, and a signal is accepted
  only where the policy allows one.
\<close>

section \<open>The abstract policy\<close>

record policy =
  pol_state :: kill_state
  pol_elapsed :: nat

text \<open>\<open>next_state env el st sig r\<close>: the state after the signal \<open>sig\<close>, answered by \<open>r\<close>, at time \<open>el\<close>.\<close>

definition next_state :: "wait_env \<Rightarrow> nat \<Rightarrow> kill_state \<Rightarrow> int \<Rightarrow> reply \<Rightarrow> kill_state option" where
  "next_state env el st sig r =
     (case we_deadline env of
        None \<Rightarrow> None
      | Some dl \<Rightarrow>
          if el < dl then None
          else if sig = SIGTERM \<and> st = Ks_none \<and> we_cancel env = Cancel_graceful
          then Some (if 0 \<le> r_ret r \<or> r_errno r = ESRCH then Ks_term_sent else Ks_kill_sent)
          else if sig = SIGKILL \<and> (st = Ks_none \<and> we_cancel env = Cancel_kill \<or>
             st = Ks_term_sent \<and> unat (we_grace_ms env) < (el - dl) div NANOS_PER_MILLI)
          then Some Ks_kill_sent
          else None)"

definition policy_step :: "wait_env \<Rightarrow> call \<times> reply \<Rightarrow> policy \<Rightarrow> policy option" where
  "policy_step env e P =
     (case fst e of
        Clock \<Rightarrow> Some (P\<lparr>pol_elapsed := elapsed_since env (snd e)\<rparr>)
      | Kill n sig \<Rightarrow>
          (if n = signal_target env
           then map_option (\<lambda>st. P\<lparr>pol_state := st\<rparr>) (next_state env (pol_elapsed P) (pol_state P) sig (snd e))
           else None)
      | Waitpid n fl \<Rightarrow> (if n = pid (we_process env) \<and> fl \<in> {0, WNOHANG} then Some P else None)
      | c \<Rightarrow> (if io_call c then Some P else None))"

abbreviation follows :: "wait_env \<Rightarrow> 'k world \<Rightarrow> 'k world \<Rightarrow> policy \<Rightarrow> policy \<Rightarrow> bool" where
  "follows env \<equiv> tracks (policy_step env)"

section \<open>The loop refines the policy\<close>

text \<open>I/O and waits for the child leave the policy alone.\<close>

interpretation kill_policy: trace_machine "policy_step env"
  "\<lambda>_ c. io_call c \<or> (\<exists>fl \<in> {0, WNOHANG}. c = Waitpid (pid (we_process env)) fl)"
  by unfold_locales (auto simp: io_call_def policy_step_def split: call.splits)

lemma io_follows: "io_only w w' \<Longrightarrow> follows env w w' P P"
  by (erule kill_policy.idle_makes) simp

lemma waitpid_follows:
  "wait_step K (we_process env) w = Some (x, w') \<Longrightarrow> follows env w w' P P"
  "wait_blocking K (we_process env) w = Some (y, w') \<Longrightarrow> follows env w w' P P"
  by (rule kill_policy.idle_run; auto intro: wait_step_makes wait_blocking_makes)+

lemma runs_tracks: "runs w w' [e] \<Longrightarrow> f e s = Some s' \<Longrightarrow> tracks f w w' s s'"
  unfolding tracks_def by (intro exI [of _ "[e]"]) simp

lemma kill_step_follows:
  assumes "kill_step K env ((el - dl) div NANOS_PER_MILLI) st w = (st', w')"
    and "we_deadline env = Some dl" and "dl \<le> el"
  shows "follows env w w' \<lparr>pol_state = st, pol_elapsed = el\<rparr> \<lparr>pol_state = st', pol_elapsed = el\<rparr>"
  using assms(1)
proof (cases rule: kill_step_cases)
  case nothing
  then show ?thesis by simp
next
  case (asked r)
  from asked(3) show ?thesis
    by (rule runs_tracks) (use asked assms(2,3) in \<open>simp add: policy_step_def next_state_def\<close>)
next
  case (killed r)
  from killed(2) show ?thesis
    by (rule runs_tracks) (use killed assms(2,3) in \<open>auto simp: policy_step_def next_state_def\<close>)
qed

lemma check_deadline_follows:
  assumes "check_deadline K env ls w = ((poll, ls'), w')"
  shows "\<exists>el'. follows env w w' \<lparr>pol_state = lp_kill ls, pol_elapsed = el\<rparr> \<lparr>pol_state = lp_kill ls', pol_elapsed = el'\<rparr>"
  using assms
proof (cases rule: check_deadline_cases)
  case untimed
  then show ?thesis by auto
next
  case (early dl r)
  have "follows env w w' \<lparr>pol_state = lp_kill ls, pol_elapsed = el\<rparr>
      \<lparr>pol_state = lp_kill ls', pol_elapsed = elapsed_since env r\<rparr>"
    using early(2) by (rule tracks_sys) (simp add: policy_step_def early)
  then show ?thesis ..
next
  case (over dl r w1 st)
  have "follows env w w1 \<lparr>pol_state = lp_kill ls, pol_elapsed = el\<rparr>
      \<lparr>pol_state = lp_kill ls, pol_elapsed = elapsed_since env r\<rparr>"
    using over(2) by (rule tracks_sys) (simp add: policy_step_def)
  from tracks_trans [OF this kill_step_follows [OF over(4,1,3)]] show ?thesis using over(6) by auto
qed

lemma abandon_follows: "follows env w (abandon K ls w) P P"
  unfolding abandon_def by (rule io_follows) (rule makes_trans [OF drop_reactor_io drop_drain_io])

lemma poll_status_follows:
  assumes "poll_status K env ls w = Some (res, w')"
  shows "follows env w w' P P" and "res = Inr ls' \<Longrightarrow> lp_kill ls' = lp_kill ls"
  using assms by (cases rule: poll_status_cases; auto intro: waitpid_follows)+

lemma pump_follows:
  assumes "pump K ls timeout w = Some (o_res, w')"
  shows "follows env w w' P P" and "o_res = Again ls' \<Longrightarrow> lp_kill ls' = lp_kill ls"
proof -
  show "follows env w w' P P"
    using assms
  proof (cases rule: pump_cases)
    case (wait_failed e R1 evs w1)
    from tracks_trans [OF io_follows [OF wait_io [OF wait_failed(1)]] abandon_follows] show ?thesis
      unfolding wait_failed(3) .
  next
    case (handled n R1 evs w1 r d1 w2)
    have "io_only w w2"
      by (rule makes_trans [OF wait_io [OF handled(1)] handle_events_io [OF handled(2)]])
    then have "follows env w w2 P P" by (rule io_follows)
    with handled(3) tracks_trans [OF this abandon_follows] show ?thesis by (cases r) auto
  qed
  show "o_res = Again ls' \<Longrightarrow> lp_kill ls' = lp_kill ls"
    using assms by (cases rule: pump_cases) (auto split: sum.splits)
qed

lemma finish_follows:
  assumes "finish K env ls w = Some (res, w')" and "is_done (lp_drain ls)"
  shows "follows env w w' P P"
  using assms
proof (cases rule: finish_cases)
  case (wait_failed e w1)
  from tracks_trans [OF waitpid_follows(2) [OF wait_failed(2)] abandon_follows] show ?thesis
    unfolding wait_failed(4) .
next
  case (reported s w1)
  have 1: "follows env w w1 P P" using reported(1) by (auto intro: waitpid_follows)
  have "io_only w1 w'" unfolding reported(3) by (rule makes_trans [OF drop_drain_io drop_reactor_io])
  from tracks_trans [OF 1 io_follows [OF this]] show ?thesis .
qed

lemma wait_round_follows:
  assumes "wait_round K env ls w = Some (o_res, w')"
  shows "\<exists>P'. follows env w w' \<lparr>pol_state = lp_kill ls, pol_elapsed = el\<rparr> P' \<and>
    (\<forall>ls'. o_res = Again ls' \<longrightarrow> pol_state P' = lp_kill ls')"
  using assms
proof (cases rule: wait_round_cases)
  case (status_failed poll ls1 w1 e w2)
  from check_deadline_follows [OF status_failed(1)] obtain el' where
    1: "follows env w w1 \<lparr>pol_state = lp_kill ls, pol_elapsed = el\<rparr> \<lparr>pol_state = lp_kill ls1, pol_elapsed = el'\<rparr>" ..
  from tracks_trans [OF tracks_trans [OF 1 poll_status_follows(1) [OF status_failed(2)]] abandon_follows]
  show ?thesis using status_failed(3,4) by auto
next
  case (finished poll ls1 w1 ls2 w2 res)
  from check_deadline_follows [OF finished(1)] obtain el' where
    1: "follows env w w1 \<lparr>pol_state = lp_kill ls, pol_elapsed = el\<rparr> \<lparr>pol_state = lp_kill ls1, pol_elapsed = el'\<rparr>" ..
  from tracks_trans [OF tracks_trans [OF 1 poll_status_follows(1) [OF finished(2)]] finish_follows [OF finished(4,3)]]
  show ?thesis using finished(5) by auto
next
  case (pumped poll ls1 w1 ls2 w2)
  from check_deadline_follows [OF pumped(1)] obtain el' where
    1: "follows env w w1 \<lparr>pol_state = lp_kill ls, pol_elapsed = el\<rparr> \<lparr>pol_state = lp_kill ls1, pol_elapsed = el'\<rparr>" ..
  note f = tracks_trans [OF tracks_trans [OF 1 poll_status_follows(1) [OF pumped(2)]] pump_follows(1) [OF pumped(4)]]
  have "lp_kill ls' = lp_kill ls1" if "o_res = Again ls'" for ls'
    using pump_follows(2) [OF pumped(4) that] poll_status_follows(2) [OF pumped(2)] by simp
  with f show ?thesis by (intro exI conjI) auto
qed

lemma wait_rounds_follows:
  assumes "wait_rounds K env ls w = Some (res, w')"
  shows "\<exists>P'. follows env w w' \<lparr>pol_state = lp_kill ls, pol_elapsed = el\<rparr> P'"
proof -
  define I where "I ls1 w1 \<longleftrightarrow> (\<exists>el1. follows env w w1 \<lparr>pol_state = lp_kill ls, pol_elapsed = el\<rparr>
      \<lparr>pol_state = lp_kill ls1, pol_elapsed = el1\<rparr>)" for ls1 :: loop_state and w1
  have "\<exists>ls1 w1. I ls1 w1 \<and> wait_round K env ls1 w1 = Some (Stop res, w')"
  proof (rule wait_rounds_ind [OF assms])
    show "I ls w" unfolding I_def by auto
  next
    fix ls1 w1 ls2 w2
    assume "I ls1 w1" and r: "wait_round K env ls1 w1 = Some (Again ls2, w2)"
    then obtain el1 where f: "follows env w w1 \<lparr>pol_state = lp_kill ls, pol_elapsed = el\<rparr>
      \<lparr>pol_state = lp_kill ls1, pol_elapsed = el1\<rparr>" unfolding I_def by blast
    from wait_round_follows [OF r, of el1] obtain P' where
      p: "follows env w1 w2 \<lparr>pol_state = lp_kill ls1, pol_elapsed = el1\<rparr> P'" "pol_state P' = lp_kill ls2" by auto
    have "P' = \<lparr>pol_state = lp_kill ls2, pol_elapsed = pol_elapsed P'\<rparr>" using p(2) by (cases P') simp
    with tracks_trans [OF f p(1)] show "I ls2 w2" unfolding I_def by metis
  qed
  then obtain ls1 w1 el1 where f: "follows env w w1 \<lparr>pol_state = lp_kill ls, pol_elapsed = el\<rparr>
      \<lparr>pol_state = lp_kill ls1, pol_elapsed = el1\<rparr>" and r: "wait_round K env ls1 w1 = Some (Stop res, w')"
    unfolding I_def by blast
  from wait_round_follows [OF r, of el1] tracks_trans [OF f] show ?thesis by blast
qed

section \<open>What the policy allows\<close>

definition signals :: "event_log \<Rightarrow> (int \<times> int) list" where
  "signals t = concat (map (\<lambda>e. case fst e of Kill n sig \<Rightarrow> [(n, sig)] | _ \<Rightarrow> []) t)"

lemma signals_simps [simp]:
  "signals [] = []" "signals (s @ t) = signals s @ signals t"
  "signals ((c, r) # t) = (case c of Kill n sig \<Rightarrow> [(n, sig)] | _ \<Rightarrow> []) @ signals t"
  by (simp_all add: signals_def)

definition allowed :: "cancel_policy \<Rightarrow> int \<Rightarrow> kill_state \<Rightarrow> (int \<times> int) list set" where
  "allowed cancel n st =
     (case st of
        Ks_none \<Rightarrow> (case cancel of
            Cancel_none \<Rightarrow> {[]}
          | Cancel_graceful \<Rightarrow> {[], [(n, SIGTERM)], [(n, SIGTERM), (n, SIGKILL)]}
          | Cancel_kill \<Rightarrow> {[], [(n, SIGKILL)]})
      | Ks_term_sent \<Rightarrow> {[], [(n, SIGKILL)]}
      | Ks_kill_sent \<Rightarrow> {[]})"

lemma policy_step_cases:
  assumes "policy_step env (c, r) P = Some Q"
  shows "c = Clock \<and> Q = P\<lparr>pol_elapsed := elapsed_since env r\<rparr> \<or>
     (\<exists>sig st. c = Kill (signal_target env) sig \<and> next_state env (pol_elapsed P) (pol_state P) sig r = Some st \<and>
        Q = P\<lparr>pol_state := st\<rparr>) \<or>
     (io_call c \<or> (\<exists>fl. c = Waitpid (pid (we_process env)) fl)) \<and> Q = P"
  using assms by (cases c) (auto simp: policy_step_def split: if_splits)

text \<open>A list of calls the policy accepts.\<close>

lemma policy_calls:
  "track (policy_step env) t P = Some P' \<Longrightarrow>
     list_all (\<lambda>e. fst e = Clock \<or> (\<exists>n sig. fst e = Kill n sig) \<or> (\<exists>n fl. fst e = Waitpid n fl) \<or> io_call (fst e)) t"
proof (induction t arbitrary: P)
  case (Cons e t)
  from Cons.prems obtain Q where "policy_step env e P = Some Q" "track (policy_step env) t Q = Some P'"
    by (auto simp: bind_Some_conv)
  with Cons.IH policy_step_cases [of env "fst e" "snd e" P Q] show ?case by auto
qed simp

lemma policy_signals:
  "track (policy_step env) t P = Some P' \<Longrightarrow>
     signals t \<in> allowed (we_cancel env) (signal_target env) (pol_state P) \<and>
     (we_deadline env = None \<longrightarrow> signals t = [])"
proof (induction t arbitrary: P)
  case Nil
  then show ?case by (cases "pol_state P"; cases "we_cancel env") (auto simp: allowed_def)
next
  case (Cons e t)
  obtain c r where e: "e = (c, r)" by fastforce
  from Cons.prems obtain Q where q: "policy_step env e P = Some Q" "track (policy_step env) t Q = Some P'"
    by (auto simp: bind_Some_conv)
  note IH = Cons.IH [OF q(2)]
  show ?case
  proof (cases "\<exists>n sig. c = Kill n sig")
    case False
    have "pol_state Q = pol_state P" using policy_step_cases [OF q(1) [unfolded e]] False by auto
    moreover have "signals (e # t) = signals t" using False by (simp add: e split: call.splits)
    ultimately show ?thesis using IH by simp
  next
    case True
    then obtain n sig where c: "c = Kill n sig" by blast
    then obtain st where st: "next_state env (pol_elapsed P) (pol_state P) sig r = Some st"
      "n = signal_target env" "pol_state Q = st"
      using q(1) by (auto simp: e policy_step_def split: if_splits)
    then show ?thesis
      using IH by (auto simp: e c next_state_def allowed_def split: option.splits if_splits cancel_policy.splits)
  qed
qed

text \<open>A signal is sent after a clock reading past the deadline.\<close>

definition overdue_by :: "wait_env \<Rightarrow> nat \<Rightarrow> event_log \<Rightarrow> bool" where
  "overdue_by env x t \<longleftrightarrow> (\<exists>r dl. (Clock, r) \<in> set t \<and> we_deadline env = Some dl \<and>
     dl \<le> elapsed_since env r \<and> x \<le> elapsed_since env r - dl)"

definition clock_in :: "wait_env \<Rightarrow> policy \<Rightarrow> event_log \<Rightarrow> bool" where
  "clock_in env P t \<longleftrightarrow> (\<exists>r. (Clock, r) \<in> set t \<and> elapsed_since env r = pol_elapsed P)"

lemma policy_clock:
  "track (policy_step env) t P = Some P' \<Longrightarrow> clock_in env P t0 \<Longrightarrow> clock_in env P' (t0 @ t)"
proof (induction t arbitrary: P t0)
  case (Cons e t)
  obtain c r where e: "e = (c, r)" by fastforce
  from Cons.prems obtain Q where q: "policy_step env e P = Some Q" "track (policy_step env) t Q = Some P'"
    by (auto simp: bind_Some_conv)
  have "clock_in env Q (t0 @ [e])"
    using policy_step_cases [OF q(1) [unfolded e]] Cons.prems(2) by (fastforce simp: e clock_in_def)
  from Cons.IH [OF q(2) this] show ?case by simp
qed simp

lemma policy_timing:
  assumes "track (policy_step env) (t1 @ (Kill n sig, r) # t2) P = Some P'" and "clock_in env P t0"
  shows "overdue_by env 0 (t0 @ t1) \<and>
     (sig = SIGKILL \<and> we_cancel env = Cancel_graceful \<and> pol_state P = Ks_none \<longrightarrow>
        overdue_by env (Suc (unat (we_grace_ms env)) * NANOS_PER_MILLI) (t0 @ t1))"
proof -
  from assms(1) obtain Q Q' where q: "track (policy_step env) t1 P = Some Q"
    "policy_step env (Kill n sig, r) Q = Some Q'"
    by (auto simp: track_append bind_Some_conv)
  from policy_clock [OF q(1) assms(2)] obtain rc where rc: "(Clock, rc) \<in> set (t0 @ t1)"
    "elapsed_since env rc = pol_elapsed Q" unfolding clock_in_def by blast
  from q(2) obtain st where st: "next_state env (pol_elapsed Q) (pol_state Q) sig r = Some st"
    by (auto simp: policy_step_def split: if_splits)
  then obtain dl where dl: "we_deadline env = Some dl" "dl \<le> pol_elapsed Q"
    by (auto simp: next_state_def split: option.splits if_splits)
  then have "overdue_by env 0 (t0 @ t1)" using rc unfolding overdue_by_def by auto
  moreover have "overdue_by env (Suc (unat (we_grace_ms env)) * NANOS_PER_MILLI) (t0 @ t1)"
    if "sig = SIGKILL" "we_cancel env = Cancel_graceful"
  proof -
    have "unat (we_grace_ms env) < (pol_elapsed Q - dl) div NANOS_PER_MILLI"
      using st that dl by (auto simp: next_state_def split: if_splits)
    then have "Suc (unat (we_grace_ms env)) * NANOS_PER_MILLI
        \<le> (pol_elapsed Q - dl) div NANOS_PER_MILLI * NANOS_PER_MILLI"
      by (intro mult_le_mono1) simp
    also have "\<dots> \<le> pol_elapsed Q - dl" by simp
    finally have g: "Suc (unat (we_grace_ms env)) * NANOS_PER_MILLI \<le> pol_elapsed Q - dl" .
    show ?thesis
      unfolding overdue_by_def
      by (intro exI [of _ rc] exI [of _ dl] conjI) (use rc dl g in simp_all)
  qed
  ultimately show ?thesis by blast
qed

section \<open>The trace of a whole run\<close>

definition clock_readings :: "event_log \<Rightarrow> int list" where
  "clock_readings t = map (\<lambda>e. out_num (r_out (snd e))) (filter (\<lambda>e. fst e = Clock) t)"

lemma clock_readings_simps [simp]:
  "clock_readings [] = []" "clock_readings (s @ t) = clock_readings s @ clock_readings t"
  "clock_readings ((c, r) # t) = (if c = Clock then [out_num (r_out r)] else []) @ clock_readings t"
  by (simp_all add: clock_readings_def)

definition waits_only :: "int \<Rightarrow> event_log \<Rightarrow> bool" where
  "waits_only n t \<longleftrightarrow> list_all (\<lambda>e. \<exists>fl. fst e = Waitpid n fl) t"

lemma waits_only_quiet: "waits_only n t \<Longrightarrow> signals t = [] \<and> clock_readings t = [] \<and> Kill m sig \<notin> fst ` set t"
  by (induction t) (auto simp: waits_only_def signals_def clock_readings_def)

lemma wait_step_waits: "wait_step K (Process n) w = Some (x, w') \<Longrightarrow> \<exists>t. runs w w' t \<and> waits_only n t"
  using wait_step_makes [of K "Process n" w x w' "\<lambda>c. \<exists>fl. c = Waitpid n fl"]
  unfolding makes_def waits_only_def by simp

abbreviation policy_start :: policy where
  "policy_start \<equiv> \<lparr>pol_state = Ks_none, pol_elapsed = 0\<rparr>"

lemma wait_loop_trace:
  assumes "wait_loop K n d R timeout grace cancel pg w = Some (res, w')" and "runs w w' t"
  obtains (failed) e t0 t1 where "res = Inl e" "t = t0 @ t1" "waits_only n t0" "list_all (\<lambda>e. io_call (fst e)) t1"
  | (looped) t0 r0 t1 P where "t = t0 @ (Clock, r0) # t1" "waits_only n t0"
      "track (policy_step (loop_env n timeout grace cancel pg r0)) t1 policy_start = Some P"
  using assms(1)
proof (cases rule: wait_loop_cases)
  case (failed e w1)
  obtain t0 where t0: "runs w w1 t0" "waits_only n t0" using wait_step_waits [OF failed(1)] by blast
  have "io_only w1 w'" unfolding failed(3) by (rule makes_trans [OF drop_reactor_io drop_drain_io])
  then obtain t1 where t1: "runs w1 w' t1" "list_all (\<lambda>e. io_call (fst e)) t1" unfolding makes_def by blast
  have "t = t0 @ t1" using runs_unique [OF assms(2) runs_trans [OF t0(1) t1(1)]] .
  with failed(2) t0(2) t1(2) show thesis by (intro that(1))
next
  case (looped x w1 r w2)
  obtain t0 where t0: "runs w w1 t0" "waits_only n t0" using wait_step_waits [OF looped(1)] by blast
  obtain P where "follows (loop_env n timeout grace cancel pg r) w2 w'
      \<lparr>pol_state = lp_kill (loop_start d R x), pol_elapsed = 0\<rparr> P"
    using wait_rounds_follows [OF looped(3)] by blast
  then obtain t1 where t1: "runs w2 w' t1"
    "track (policy_step (loop_env n timeout grace cancel pg r)) t1 policy_start = Some P"
    unfolding tracks_def loop_start_def by auto
  have "t = t0 @ (Clock, r) # t1"
    using runs_unique [OF assms(2) runs_trans [OF runs_trans [OF t0(1) runs_sys [OF looped(2)]] t1(1)]] by simp
  with t0(2) t1(2) show thesis by (intro that(2))
qed

lemma io_quiet: "list_all (\<lambda>e. io_call (fst e)) t \<Longrightarrow> signals t = [] \<and> clock_readings t = [] \<and> Kill m sig \<notin> fst ` set t"
  by (induction t) (auto simp: io_call_def signals_def clock_readings_def split: call.splits)

lemma loop_env_simps [simp]:
  "signal_target (loop_env n timeout grace cancel pg r) = (if target_is_group pg then - n else n)"
  "we_cancel (loop_env n timeout grace cancel pg r) = cancel"
  "we_deadline (loop_env n timeout grace cancel pg r) = map_option (\<lambda>t. unat t * NANOS_PER_MILLI) timeout"
  "we_grace_ms (loop_env n timeout grace cancel pg r) = grace"
  "elapsed_since (loop_env n timeout grace cancel pg r) q = nat (out_num (r_out q) - out_num (r_out r))"
  by (simp_all add: loop_env_def signal_target_def elapsed_since_def)

section \<open>Properties\<close>

text \<open>A run for the witnesses: a child without pipes that is overdue at the first look and gets killed.\<close>

definition idle_drain :: "unit drain_state" where
  "idle_drain = \<lparr>stdout_slot = None, stderr_slot = None, stdin_slot = None,
     drain_buffer = buffer_new 2, drain_writer = writer_new None, drain_early_exit = None\<rparr>"

definition overdue_world :: "demo world" where
  "overdue_world = demo_world [] [] [ok_reply 0 NoOut, ok_reply 0 (OutNum 0), ok_reply 0 (OutNum 5000000),
     ok_reply 0 NoOut, ok_reply 0 NoOut, ok_reply 7 (OutNum 9)]"

definition overdue_log :: event_log where
  "overdue_log = [(Waitpid 7 1, ok_reply 0 NoOut), (Clock, ok_reply 0 (OutNum 0)),
     (Clock, ok_reply 0 (OutNum 5000000)), (Kill 7 9, ok_reply 0 NoOut),
     (Waitpid 7 1, ok_reply 0 NoOut), (Waitpid 7 0, ok_reply 7 (OutNum 9)), (Close 7, ok_reply 0 NoOut)]"

abbreviation overdue_run :: "((sys_error + process_output) \<times> demo world) option" where
  "overdue_run \<equiv> wait_loop demo_os 7 idle_drain demo_reactor (Some 1) 5 Cancel_kill
     \<lparr>pg_leader = None, pg_isolated = False\<rparr> overdue_world"

lemmas wait_run = wait_loop_def wait_step.simps wait_blocking.simps wait_rounds.simps wait_round_def
  check_deadline_def kill_step_def send_signal_def target_is_group_def kill_process_def elapsed_since_def
  poll_status_def finish_def take_all_slots_def is_done_def drain_into_parts_def buffer_into_parts_def
  drop_drain_def drop_slot_def drop_opt_fd_def drop_reactor_def drop_fd_def last_errno_def Let_def

lemma overdue_run_result:
  "\<exists>w'. overdue_run = Some (Inr \<lparr>out_pid = 7, out_status = Some (decode_status demo_os 9),
       out_stdout = [], out_stderr = [], out_timed_out = True\<rparr>, w') \<and> runs overdue_world w' overdue_log"
  by (simp add: wait_run overdue_world_def overdue_log_def idle_drain_def demo_reactor_def demo_run
      NANOS_PER_MILLI_def buffer_new_def runs_def cong: bind_eval_cong prod.case_cong_weak)

text \<open>The deadline is looked at before the status: a child that was already waited for, and whose number may
  belong to another process by now, is signalled all the same.\<close>

lemma reaped_child_signalled:
  "\<exists>w' t2. wait_loop demo_os 7 idle_drain demo_reactor (Some 1) 5 Cancel_kill \<lparr>pg_leader = None, pg_isolated = False\<rparr>
       (demo_world [] [] [ok_reply 7 (OutNum 0), ok_reply 0 (OutNum 0), ok_reply 0 (OutNum 5000000), ok_reply 0 NoOut])
     = Some (Inr \<lparr>out_pid = 7, out_status = Some (decode_status demo_os 0), out_stdout = [], out_stderr = [],
         out_timed_out = True\<rparr>, w') \<and>
     trace w' = (Waitpid 7 1, ok_reply 7 (OutNum 0)) # (Clock, ok_reply 0 (OutNum 0)) #
       (Clock, ok_reply 0 (OutNum 5000000)) # (Kill 7 9, ok_reply 0 NoOut) # t2"
  by (simp add: wait_run idle_drain_def demo_reactor_def demo_run NANOS_PER_MILLI_def buffer_new_def
      cong: bind_eval_cong prod.case_cong_weak)

text \<open>C2. The loop refines the kill policy. Every run of \<open>wait_loop\<close> first polls its child and reads the clock
  once; all later calls are accepted by the abstract policy machine that starts at that reading with no signal
  sent: it allows the signals of the policy at their times, waits for this child only, and I/O on open
  descriptors, and no other call; if the first poll fails, no signal is sent at all.\<close>

theorem kill_policy_refined:
  assumes "wait_loop K n d R timeout grace cancel pg w = Some (res, w')" and "runs w w' t"
  shows "(\<exists>t0 r0 t1 P. t = t0 @ (Clock, r0) # t1 \<and> waits_only n t0 \<and>
       track (policy_step (loop_env n timeout grace cancel pg r0)) t1 policy_start = Some P) \<or>
     (\<exists>e. res = Inl e \<and> signals t = [] \<and> clock_readings t = [])"
  using assms
proof (cases rule: wait_loop_trace)
  case (failed e t0 t1)
  with waits_only_quiet io_quiet show ?thesis by simp
next
  case (looped t0 r0 t1 P)
  then show ?thesis by blast
qed

theorem kill_policy_refined_witness:
  "\<exists>r0 t1 P. tl overdue_log = (Clock, r0) # t1 \<and>
     track (policy_step (loop_env 7 (Some 1) 5 Cancel_kill \<lparr>pg_leader = None, pg_isolated = False\<rparr> r0)) t1
       policy_start = Some P"
proof -
  obtain res w' where r: "overdue_run = Some (Inr res, w')" and t: "runs overdue_world w' overdue_log"
    using overdue_run_result by blast
  from kill_policy_refined [OF r t] obtain t0 r0 t1 P where
    x: "overdue_log = t0 @ (Clock, r0) # t1" "waits_only 7 t0"
    "track (policy_step (loop_env 7 (Some 1) 5 Cancel_kill \<lparr>pg_leader = None, pg_isolated = False\<rparr> r0)) t1
       policy_start = Some P" by auto
  have "length t0 = 1"
    using x(1,2)
    by (cases t0; cases "tl t0") (auto simp: overdue_log_def waits_only_def)
  then obtain e where "t0 = [e]" by (cases t0) auto
  with x(1) have "overdue_log = e # (Clock, r0) # t1" by simp
  from arg_cong [OF this, of tl] have "tl overdue_log = (Clock, r0) # t1" by simp
  with x(3) show ?thesis by blast
qed

text \<open>C3. Signals sent while waiting. Without a timeout, or with the policy to do nothing, none is sent;
  the policy Kill sends at most one SIGKILL and nothing else; the graceful policy sends nothing, one
  SIGTERM, or one SIGTERM and then one SIGKILL. All go to the child, or to the group of the child's
  number when a group or a session was asked for.\<close>

theorem kill_policy_signals:
  assumes "wait_loop K n d R timeout grace cancel pg w = Some (res, w')" and "runs w w' t"
  shows "let n' = (if target_is_group pg then - n else n)
     in signals t \<in> (if timeout = None then {[]} else case cancel of
          Cancel_none \<Rightarrow> {[]}
        | Cancel_graceful \<Rightarrow> {[], [(n', SIGTERM)], [(n', SIGTERM), (n', SIGKILL)]}
        | Cancel_kill \<Rightarrow> {[], [(n', SIGKILL)]})"
  using assms
proof (cases rule: wait_loop_trace)
  case (failed e t0 t1)
  have "signals t0 = []" "signals t1 = []"
    using waits_only_quiet [OF failed(3)] io_quiet [OF failed(4)] by blast+
  then have "signals t = []" by (simp add: failed(2))
  then show ?thesis by (cases cancel) simp_all
next
  case (looped t0 r0 t1 P)
  have "signals t0 = []" using waits_only_quiet [OF looped(2)] by blast
  then have "signals t = signals t1" by (simp add: looped(1))
  with policy_signals [OF looped(3)] show ?thesis
    by (cases timeout; cases cancel) (simp_all add: allowed_def)
qed

theorem kill_policy_signals_witness:
  "signals overdue_log \<in> {[], [(7, 9)]}"
proof -
  obtain res w' where r: "overdue_run = Some (Inr res, w')" and t: "runs overdue_world w' overdue_log"
    using overdue_run_result by blast
  from kill_policy_signals [OF r t] show ?thesis by (simp add: target_is_group_def)
qed

text \<open>An overdue deadline is a clock reading that far from the first one.\<close>

lemma overdue_reading:
  assumes "clock_readings pre = []" and "overdue_by (loop_env n timeout grace cancel pg r0) x ((Clock, r0) # u)"
    and "timeout = Some ms"
  shows "\<exists>c \<in> set (clock_readings (pre @ (Clock, r0) # u)).
     unat ms * NANOS_PER_MILLI + x \<le> nat (c - hd (clock_readings (pre @ (Clock, r0) # u)))"
proof -
  from assms(2,3) obtain q where q: "(Clock, q) \<in> set ((Clock, r0) # u)"
    "unat ms * NANOS_PER_MILLI \<le> nat (out_num (r_out q) - out_num (r_out r0))"
    "x \<le> nat (out_num (r_out q) - out_num (r_out r0)) - unat ms * NANOS_PER_MILLI"
    by (auto simp: overdue_by_def)
  have "out_num (r_out q) \<in> set (clock_readings (pre @ (Clock, r0) # u))"
    using q(1) by (force simp: clock_readings_def)
  moreover have "unat ms * NANOS_PER_MILLI + x \<le> nat (out_num (r_out q) - out_num (r_out r0))"
    using q(2,3) by linarith
  ultimately show ?thesis using assms(1) by auto
qed

text \<open>C7. No signal before its time. When a signal is sent, the clock was read before and showed at least
  the timeout after the first reading; the SIGKILL of the graceful policy is sent only when the clock
  showed more than the grace period on top of the timeout.\<close>

theorem kill_policy_timing:
  assumes "wait_loop K n d R timeout grace cancel pg w = Some (res, w')"
    and "runs w w' (t1 @ (Kill m sig, r) # t2)"
  shows "\<exists>ms. timeout = Some ms \<and>
     (\<exists>c \<in> set (clock_readings t1). unat ms * 1000000 \<le> nat (c - hd (clock_readings t1))) \<and>
     (sig = SIGKILL \<and> cancel = Cancel_graceful \<longrightarrow> (\<exists>c \<in> set (clock_readings t1).
        (unat ms + unat grace + 1) * 1000000 \<le> nat (c - hd (clock_readings t1))))"
  using assms
proof (cases rule: wait_loop_trace)
  case (failed e s0 s1)
  from waits_only_quiet [OF failed(3), of m sig] io_quiet [OF failed(4), of m sig]
  have "Kill m sig \<notin> fst ` set (s0 @ s1)" by auto
  moreover have "(Kill m sig, r) \<in> set (s0 @ s1)"
    unfolding failed(2) [symmetric] by simp
  then have "Kill m sig \<in> fst ` set (s0 @ s1)" by force
  ultimately show ?thesis by blast
next
  case (looped s0 r0 s1 P)
  let ?env = "loop_env n timeout grace cancel pg r0"
  have nk: "Kill m sig \<notin> fst ` set s0" and c0: "clock_readings s0 = []"
    using waits_only_quiet [OF looped(2), of m sig] by blast+
  obtain u where u: "t1 = s0 @ (Clock, r0) # u" "s1 = u @ (Kill m sig, r) # t2"
    by (rule later_element [OF looped(1)]) (use nk in force)+
  have ck: "clock_in ?env policy_start [(Clock, r0)]" by (simp add: clock_in_def)
  from policy_timing [OF looped(3) [unfolded u(2)] ck]
  have o1: "overdue_by ?env 0 ((Clock, r0) # u)"
    and o2: "sig = SIGKILL \<and> cancel = Cancel_graceful \<longrightarrow>
      overdue_by ?env (Suc (unat grace) * NANOS_PER_MILLI) ((Clock, r0) # u)" by simp_all
  have reading: "\<exists>c \<in> set (clock_readings t1). unat ms * NANOS_PER_MILLI + x \<le> nat (c - hd (clock_readings t1))"
    if "overdue_by ?env x ((Clock, r0) # u)" "timeout = Some ms" for x ms
    using overdue_reading [OF c0 that] unfolding u(1) .
  from o1 obtain ms where ms: "timeout = Some ms" by (auto simp: overdue_by_def)
  have "unat ms * NANOS_PER_MILLI + Suc (unat grace) * NANOS_PER_MILLI = (unat ms + unat grace + 1) * 1000000"
    by (simp add: NANOS_PER_MILLI_def)
  with reading [OF _ ms, where x = "Suc (unat grace) * NANOS_PER_MILLI"] o2
  have k: "sig = SIGKILL \<and> cancel = Cancel_graceful \<longrightarrow> (\<exists>c \<in> set (clock_readings t1).
        (unat ms + unat grace + 1) * 1000000 \<le> nat (c - hd (clock_readings t1)))" by metis
  from reading [OF o1 ms] have "\<exists>c \<in> set (clock_readings t1).
      unat ms * 1000000 \<le> nat (c - hd (clock_readings t1))" by (simp add: NANOS_PER_MILLI_def)
  with k ms show ?thesis by blast
qed

theorem kill_policy_timing_witness:
  "\<exists>c \<in> set (clock_readings (take 3 overdue_log)). 1000000 \<le> nat (c - hd (clock_readings (take 3 overdue_log)))"
proof -
  obtain res w' where r: "overdue_run = Some (Inr res, w')" and t: "runs overdue_world w' overdue_log"
    using overdue_run_result by blast
  have s: "overdue_log = take 3 overdue_log @ (Kill 7 9, ok_reply 0 NoOut) # drop 4 overdue_log"
    by (simp add: overdue_log_def)
  have "runs overdue_world w' (take 3 overdue_log @ (Kill 7 9, ok_reply 0 NoOut) # drop 4 overdue_log)"
    using t by (subst s [symmetric])
  from kill_policy_timing [OF r this] show ?thesis by simp
qed

text \<open>C8. The deadline is enforced. A look at the clock before the deadline makes no other call and changes
  nothing. A look at or past it marks the run as timed out, changes nothing else but the kill state, and sends
  exactly the signal the policy owes: SIGTERM as the first step of the graceful policy (a failure other than
  "no such process" is taken for the last step), SIGKILL as the first and only step of the policy Kill,
  SIGKILL after a SIGTERM once more than the grace period has passed since the deadline; no signal under
  the policy None, within the grace period, or after the last step. The signal goes to the group of the
  child when it has one of its own, and the kill state moves with the signal and not without it.\<close>

theorem deadline_enforced:
  assumes "check_deadline K env ls w = ((poll, ls'), w')" and "we_deadline env = Some dl"
    and "sys K Clock w = (r, w1)" and "runs w w' t"
  shows "if elapsed_since env r < dl then ls' = ls \<and> t = [(Clock, r)]
     else ls' = ls\<lparr>lp_timed_out := True, lp_kill := lp_kill ls'\<rparr> \<and> poll = 100 \<and>
       (let quiet = (t = [(Clock, r)] \<and> lp_kill ls' = lp_kill ls);
            killed = (\<exists>q. t = [(Clock, r), (Kill (signal_target env) SIGKILL, q)] \<and> lp_kill ls' = Ks_kill_sent);
            asked = (\<exists>q. t = [(Clock, r), (Kill (signal_target env) SIGTERM, q)] \<and>
              lp_kill ls' = (if 0 \<le> r_ret q \<or> r_errno q = ESRCH then Ks_term_sent else Ks_kill_sent))
        in case lp_kill ls of
             Ks_none \<Rightarrow> (case we_cancel env of
                 Cancel_none \<Rightarrow> quiet | Cancel_graceful \<Rightarrow> asked | Cancel_kill \<Rightarrow> killed)
           | Ks_term_sent \<Rightarrow>
               (if unat (we_grace_ms env) < (elapsed_since env r - dl) div 1000000 then killed else quiet)
           | Ks_kill_sent \<Rightarrow> quiet)"
  using assms(1)
proof (cases rule: check_deadline_cases)
  case untimed
  with assms(2) show ?thesis by simp
next
  case (early dl' r')
  with assms(2,3) have eq: "dl' = dl" "r' = r" by simp_all
  from runs_unique [OF assms(4) runs_sys [OF early(2)]] early(3,5) show ?thesis by (simp add: eq)
next
  case (over dl' r' w5 st)
  with assms(2,3) have eq: "dl' = dl" "r' = r" by simp_all
  have tr: "t = (Clock, r) # tk" if "runs w5 w' tk" for tk
    using runs_unique [OF assms(4) runs_trans [OF runs_sys [OF over(2)] that]] by (simp add: eq)
  note res = over(3,5,6) [unfolded eq]
  from over(4) [unfolded eq NANOS_PER_MILLI_def] show ?thesis
  proof (cases rule: kill_step_cases)
    case nothing
    with tr [of "[]"] res show ?thesis by auto
  next
    case (asked q)
    with tr [OF asked(3)] res show ?thesis by simp
  next
    case (killed q)
    with tr [OF killed(2)] res show ?thesis by auto
  qed
qed

text \<open>The child did not heed SIGTERM, and the grace period of five milliseconds is over: its group is killed.\<close>

theorem deadline_enforced_witness:
  "\<exists>poll ls w' t. check_deadline demo_os (loop_env 7 (Some 1) 5 Cancel_graceful \<lparr>pg_leader = None, pg_isolated = True\<rparr>
        (ok_reply 0 (OutNum 0)))
      (loop_start idle_drain demo_reactor None\<lparr>lp_kill := Ks_term_sent\<rparr>)
      (demo_world [] [] [ok_reply 0 (OutNum 7000000)]) = ((poll, ls), w') \<and>
     runs (demo_world [] [] [ok_reply 0 (OutNum 7000000)]) w' t \<and>
     map fst t = [Clock, Kill (- 7) 9] \<and> lp_timed_out ls \<and> lp_kill ls = Ks_kill_sent"
proof -
  let ?env = "loop_env 7 (Some 1) 5 Cancel_graceful \<lparr>pg_leader = None, pg_isolated = True\<rparr> (ok_reply 0 (OutNum 0))"
  let ?w = "demo_world [] [] [ok_reply 0 (OutNum 7000000)]"
  let ?ls = "loop_start idle_drain demo_reactor None\<lparr>lp_kill := Ks_term_sent\<rparr>"
  have dl: "we_deadline ?env = Some 1000000" by (simp add: NANOS_PER_MILLI_def)
  obtain w1 where f: "sys demo_os Clock ?w = (ok_reply 0 (OutNum 7000000), w1)" by (simp add: demo_run)
  have el: "elapsed_since ?env (ok_reply 0 (OutNum 7000000)) = 7000000" by (simp add: ok_reply_def)
  have tg: "signal_target ?env = - 7" by (simp add: signal_target_def target_is_group_def loop_env_def)
  obtain poll ls w' where c: "check_deadline demo_os ?env ?ls ?w = ((poll, ls), w')" by (metis prod.exhaust)
  obtain t where t: "runs ?w w' t" using check_deadline_moves(1) [OF c] unfolding moves_def by blast
  have g: "we_grace_ms ?env = 5" "lp_kill ?ls = Ks_term_sent" by (simp_all add: loop_env_def)
  from deadline_enforced [OF c dl f t]
  obtain q where q: "t = [(Clock, ok_reply 0 (OutNum 7000000)), (Kill (- 7) SIGKILL, q)]" "lp_kill ls = Ks_kill_sent"
    and ls: "ls = ?ls\<lparr>lp_timed_out := True, lp_kill := lp_kill ls\<rparr>"
    by (auto simp only: el tg g Let_def kill_state.simps unat_numeral split: if_splits) simp_all
  have "lp_timed_out ls" by (subst ls) simp
  with q c t show ?thesis by (intro exI conjI) auto
qed

text \<open>C20. The timeout handed to epoll. It is a valid \<open>epoll_wait\<close> timeout of 32 bits; it is "for ever"
  only when there is no deadline and the child's status is not known; once the status is known it is
  at most one millisecond; and before the deadline it never reaches past it.\<close>

theorem poll_timeout_bounds:
  assumes "check_deadline K env ls w = ((poll, ls'), w')" and "lp_drain ls2 = lp_drain ls'"
  shows "let tmo = epoll_timeout ls2 poll
     in -1 \<le> tmo \<and> tmo < 2 ^ 31 \<and> (tmo = -1 \<longleftrightarrow> we_deadline env = None \<and> lp_status ls2 = None) \<and>
       (lp_status ls2 \<noteq> None \<longrightarrow> tmo \<le> 1) \<and>
       (\<forall>dl. we_deadline env = Some dl \<longrightarrow> elapsed_since env (fst (sys K Clock w)) < dl \<longrightarrow>
          elapsed_since env (fst (sys K Clock w)) + nat tmo * NANOS_PER_MILLI \<le> dl)"
  using assms(1)
proof (cases rule: check_deadline_cases)
  case untimed
  then show ?thesis by (auto simp: epoll_timeout_def Let_def)
next
  case (early dl r)
  define el where "el = elapsed_since env r"
  define q where "q = (dl - el) div NANOS_PER_MILLI"
  have q: "q * NANOS_PER_MILLI \<le> dl - el" unfolding q_def by simp
  have p: "poll = min (int q) (2 ^ 31 - 1)" using early(4) by (simp add: q_def el_def)
  have t: "epoll_timeout ls2 poll \<le> int q" "0 \<le> epoll_timeout ls2 poll" "epoll_timeout ls2 poll < 2 ^ 31"
    "lp_status ls2 \<noteq> None \<longrightarrow> epoll_timeout ls2 poll \<le> 1"
    using p by (auto simp: epoll_timeout_def)
  have "nat (epoll_timeout ls2 poll) * NANOS_PER_MILLI \<le> q * NANOS_PER_MILLI"
    using t(1,2) by (intro mult_le_mono1) simp
  with q have "nat (epoll_timeout ls2 poll) * NANOS_PER_MILLI \<le> dl - el" by linarith
  then have "el + nat (epoll_timeout ls2 poll) * NANOS_PER_MILLI \<le> dl" using early(3) by (simp add: el_def)
  with t early(1,2) show ?thesis by (simp add: Let_def el_def)
next
  case (over dl r w1 st)
  then show ?thesis by (auto simp: epoll_timeout_def Let_def)
qed

theorem poll_timeout_bounds_witness:
  "epoll_timeout (loop_start idle_drain demo_reactor None) (fst (fst (check_deadline demo_os
     (loop_env 7 (Some 20) 5 Cancel_kill \<lparr>pg_leader = None, pg_isolated = False\<rparr> (ok_reply 0 (OutNum 0)))
     (loop_start idle_drain demo_reactor None) (demo_world [] [] [ok_reply 0 (OutNum 5000000)])))) < 2 ^ 31"
proof -
  let ?env = "loop_env 7 (Some 20) 5 Cancel_kill \<lparr>pg_leader = None, pg_isolated = False\<rparr> (ok_reply 0 (OutNum 0))"
  obtain poll ls w' where c: "check_deadline demo_os ?env (loop_start idle_drain demo_reactor None)
      (demo_world [] [] [ok_reply 0 (OutNum 5000000)]) = ((poll, ls), w')" by (metis prod.exhaust)
  have "lp_drain (loop_start idle_drain demo_reactor None) = lp_drain ls"
    using check_deadline_moves(3) [OF c] by simp
  from poll_timeout_bounds [OF c this] c show ?thesis by (simp add: Let_def)
qed

text \<open>The trace of a round that finds the drain done.\<close>

definition ending :: "int \<Rightarrow> event_log \<Rightarrow> bool" where
  "ending n t \<longleftrightarrow> list_all (\<lambda>e. (\<exists>fl. fst e = Waitpid n fl) \<or> (\<exists>q. fst e = Close q)) t"

lemma ending_quiet:
  "ending n t \<Longrightarrow> signals t = [] \<and> clock_readings t = [] \<and> (\<forall>e \<in> set t. \<forall>q m tmo. fst e \<noteq> EpollWait q m tmo)"
  by (induction t) (auto simp: ending_def signals_def clock_readings_def)

lemma drop_reactor_closes: "(\<And>q. P (Close q)) \<Longrightarrow> makes P w (drop_reactor K R w)"
  unfolding drop_reactor_def Let_def drop_opt_fd_def drop_fd_def
  by (cases "signalfd R") (auto intro!: makes_snd makes_trans [OF makes_snd makes_snd])

lemma drop_drain_done: "is_done d \<Longrightarrow> drop_drain K d w = w"
  by (simp add: is_done_def drop_drain_def drop_slot_def drop_opt_fd_def)

text \<open>With nothing left to drain, finishing only waits for the child and closes.\<close>

abbreviation ending_call :: "int \<Rightarrow> call \<Rightarrow> bool" where
  "ending_call n c \<equiv> (\<exists>fl. c = Waitpid n fl) \<or> (\<exists>q. c = Close q)"

lemma abandon_ends: "is_done (lp_drain ls) \<Longrightarrow> makes (ending_call n) w (abandon K ls w)"
  unfolding abandon_def by (subst drop_drain_done, assumption) (rule drop_reactor_closes, blast)

lemma finish_ends:
  assumes "finish K env ls w = Some (res, w')" and "is_done (lp_drain ls)"
  shows "makes (ending_call (pid (we_process env))) w w'"
  using assms
proof (cases rule: finish_cases)
  case (wait_failed e w1)
  have "makes (ending_call (pid (we_process env))) w w1" by (rule wait_blocking_makes [OF wait_failed(2)]) blast
  from makes_trans [OF this abandon_ends [OF assms(2)]] show ?thesis unfolding wait_failed(4) .
next
  case (reported s w1)
  have 1: "makes (ending_call (pid (we_process env))) w w1" using reported(1) by (auto intro: wait_blocking_makes)
  have "makes (ending_call (pid (we_process env))) w1 w'"
    unfolding reported(3) drop_drain_done [OF assms(2)] by (rule drop_reactor_closes) blast
  with 1 show ?thesis by (rule makes_trans)
qed

lemma done_round:
  assumes "wait_round K env ls w = Some (o_res, w')" and "is_done (lp_drain ls)"
  obtains res tc te poll ls1 w1 where "o_res = Stop res" "check_deadline K env ls w = ((poll, ls1), w1)"
    and "runs w w1 tc" and "runs w1 w' te" and "ending (pid (we_process env)) te"
proof -
  let ?P = "ending_call (pid (we_process env))"
  obtain poll ls1 w1 where c: "check_deadline K env ls w = ((poll, ls1), w1)" by (metis prod.exhaust)
  note cd = check_deadline_moves [OF c]
  have done1: "is_done (lp_drain ls1)" using assms(2) cd(3) by simp
  have ps: "makes ?P w1 w2 \<and> (\<forall>ls2. r = Inr ls2 \<longrightarrow> is_done (lp_drain ls2))"
    if "poll_status K env ls1 w1 = Some (r, w2)" for r w2
    using that done1 by (cases rule: poll_status_cases) (auto intro: wait_step_makes)
  have "(\<exists>res. o_res = Stop res) \<and> makes ?P w1 w'"
    using assms(1)
  proof (cases rule: wait_round_cases)
    case (status_failed poll' ls1' w1' e w2)
    then have s: "ls1' = ls1" "w1' = w1" using c by simp_all
    from ps [of "Inl e" w2] status_failed(2) have "makes ?P w1 w2" by (simp add: s)
    from makes_trans [OF this abandon_ends [OF done1]] status_failed(3,4) show ?thesis by (simp add: s)
  next
    case (finished poll' ls1' w1' ls2 w2 res)
    then have s: "ls1' = ls1" "w1' = w1" using c by simp_all
    from ps [of "Inr ls2" w2] finished(2) have "makes ?P w1 w2" by (simp add: s)
    from makes_trans [OF this finish_ends [OF finished(4,3)]] finished(5) show ?thesis by simp
  next
    case (pumped poll' ls1' w1' ls2 w2)
    then have s: "ls1' = ls1" "w1' = w1" using c by simp_all
    from ps [of "Inr ls2" w2] pumped(2,3) show ?thesis by (simp add: s)
  qed
  then obtain res te where "o_res = Stop res" "runs w1 w' te" "ending (pid (we_process env)) te"
    unfolding makes_def ending_def by auto
  moreover have "\<exists>tc. runs w w1 tc" using cd(1) unfolding moves_def by blast
  ultimately show thesis using that c by blast
qed

text \<open>The calls of a look at the deadline: none, or a reading of the clock and perhaps a signal after it.\<close>

abbreviation no_epoll :: "event_log \<Rightarrow> bool" where
  "no_epoll t \<equiv> \<forall>e \<in> set t. \<forall>q m tmo. fst e \<noteq> EpollWait q m tmo"

lemma kill_step_trace:
  assumes "kill_step K env over st w = (st', w')"
  obtains t where "runs w w' t" and "clock_readings t = []" and "no_epoll t"
  using assms
proof (cases rule: kill_step_cases)
  case nothing
  then show thesis by (intro that [of "[]"]) simp_all
next
  case (asked r)
  then show thesis by (intro that [OF asked(3)]) simp_all
next
  case (killed r)
  then show thesis by (intro that [OF killed(2)]) simp_all
qed

lemma check_deadline_trace:
  assumes "check_deadline K env ls w = ((poll, ls'), w')" and "runs w w' t"
  obtains (untimed) "we_deadline env = None" "t = []"
  | (timed) dl r tk where "we_deadline env = Some dl" "t = (Clock, r) # tk" "clock_readings tk = []" "no_epoll tk"
      "elapsed_since env r < dl \<longrightarrow> tk = []"
  using assms(1)
proof (cases rule: check_deadline_cases)
  case untimed
  with assms(2) show thesis by (intro that(1)) simp_all
next
  case (early dl r)
  have "t = [(Clock, r)]" using runs_unique [OF assms(2) runs_sys [OF early(2)]] .
  with early(1) show thesis by (intro that(2) [of dl r "[]"]) simp_all
next
  case (over dl r w5 st)
  obtain tk where tk: "runs w5 w' tk" "clock_readings tk = []" "no_epoll tk" by (rule kill_step_trace [OF over(4)])
  have "t = (Clock, r) # tk" using runs_unique [OF assms(2) runs_trans [OF runs_sys [OF over(2)] tk(1)]] by simp
  with over(1,3) tk(2,3) show thesis by (intro that(2) [of dl r tk]) simp_all
qed


text \<open>The child ends ten seconds after a deadline of ten milliseconds, and is never signalled.\<close>

definition patient_world :: "demo world" where
  "patient_world = demo_world [] [] [ok_reply 0 NoOut, ok_reply 0 (OutNum 0), ok_reply 0 (OutNum 5000000),
     ok_reply 0 NoOut, ok_reply 7 (OutNum 0)]"


end
