(* ===== verification/WaitResult.thy ===== *)
theory WaitResult
  imports WaitPolicy
begin

text \<open>
  What \<open>wait_loop\<close> and \<open>spawn\<close> return: the captured streams, the status and the timeout flag as
  functions of the trace, and the descriptors that are left.
\<close>

section \<open>Calls that move no data\<close>

definition data_free :: "call \<Rightarrow> bool" where
  "data_free c \<longleftrightarrow> (case c of Read _ _ \<Rightarrow> False | Write _ _ \<Rightarrow> False | _ \<Rightarrow> True)"

lemma data_free_simps [simp]:
  "data_free (Waitpid n fl)" "data_free (Kill n sig)" "data_free Clock" "data_free (Close n)"
  "data_free (EpollCtlDel n q)" "data_free (EpollWait n q tmo)"
  by (simp_all add: data_free_def)

lemma data_free_streams: "list_all (\<lambda>e. data_free (fst e)) t \<Longrightarrow> delivered n t = [] \<and> accepted n t = []"
  by (induction t)
    (auto simp: data_free_def delivered_def accepted_def read_bytes_def written_bytes_def split: call.splits)

lemma drain_inv_free:
  "drain_inv limit buf d0 d t \<Longrightarrow> list_all (\<lambda>e. data_free (fst e)) t' \<Longrightarrow> drain_inv limit buf d0 d (t @ t')"
  by (simp add: drain_inv_def data_free_streams cong: option.case_cong)

lemma upkeep_free: "upkeep_only w w' \<Longrightarrow> makes data_free w w'"
  by (erule makes_mono) (auto simp: upkeep_call_def data_free_def split: call.splits)

lemmas drop_drain_free = drop_drain_upkeep [THEN upkeep_free]
lemmas drop_reactor_free = drop_reactor_upkeep [THEN upkeep_free]
lemmas release_slot_free = release_slot_upkeep [THEN upkeep_free]
lemmas wait_free = wait_upkeep [THEN upkeep_free]

section \<open>The invariant of the loop\<close>

definition reported :: "'k os \<Rightarrow> wait_env \<Rightarrow> exit_status \<Rightarrow> event_log \<Rightarrow> bool" where
  "reported K env st t \<longleftrightarrow> (\<exists>fl r. (Waitpid (pid (we_process env)) fl, r) \<in> set t \<and> 0 \<le> r_ret r \<and>
     st = decode_status K (out_num (r_out r)))"

lemma reported_mono: "reported K env st t \<Longrightarrow> set t \<subseteq> set t' \<Longrightarrow> reported K env st t'"
  unfolding reported_def by blast

lemma reported_append: "reported K env st s \<Longrightarrow> reported K env st (s @ t)" "reported K env st t \<Longrightarrow> reported K env st (s @ t)"
  by (erule reported_mono, simp)+

text \<open>\<open>t0\<close> is the trace before the loop: the first poll of the child and the first look at the clock.\<close>

definition loop_inv ::
  "'k os \<Rightarrow> wait_env \<Rightarrow> nat \<Rightarrow> byte list \<Rightarrow> unit drain_state \<Rightarrow> event_log \<Rightarrow> loop_state \<Rightarrow> event_log \<Rightarrow> bool" where
  "loop_inv K env limit buf d0 t0 ls t \<longleftrightarrow>
     drain_inv limit buf d0 (lp_drain ls) t \<and>
     (\<forall>st. lp_status ls = Some st \<longrightarrow> reported K env st (t0 @ t)) \<and>
     (lp_timed_out ls \<longleftrightarrow> overdue_by env 0 t)"

lemma overdue_by_append: "overdue_by env x (s @ t) \<longleftrightarrow> overdue_by env x s \<or> overdue_by env x t"
  unfolding overdue_by_def by (auto; blast)

lemma overdue_by_none: "Clock \<notin> fst ` set t \<Longrightarrow> \<not> overdue_by env x t"
  unfolding overdue_by_def by force

lemma loop_inv_free:
  assumes "loop_inv K env limit buf d0 t0 ls t" and "list_all (\<lambda>e. data_free (fst e)) t'"
    and "Clock \<notin> fst ` set t'"
  shows "loop_inv K env limit buf d0 t0 ls (t @ t')"
proof -
  have "reported K env st (t0 @ t @ t')" if "lp_status ls = Some st" for st
  proof -
    have "reported K env st (t0 @ t)" using assms(1) that by (simp add: loop_inv_def)
    then show ?thesis by (rule reported_mono) auto
  qed
  with assms(1) drain_inv_free [OF _ assms(2)] overdue_by_none [OF assms(3)] show ?thesis
    by (auto simp: loop_inv_def overdue_by_append)
qed

lemma runs_kill: "runs w w' [(Kill n sig, r)] \<Longrightarrow> \<exists>t. runs w w' t \<and> list_all (\<lambda>e. data_free (fst e)) t \<and> Clock \<notin> fst ` set t"
  by (intro exI [of _ "[(Kill n sig, r)]"]) simp

lemma check_deadline_inv:
  assumes "check_deadline K env ls w = ((poll, ls'), w')" and inv: "loop_inv K env limit buf d0 t0 ls t"
  shows "\<exists>t'. runs w w' t' \<and> loop_inv K env limit buf d0 t0 ls' (t @ t')"
  using assms(1)
proof (cases rule: check_deadline_cases)
  case untimed
  with inv show ?thesis by (intro exI [of _ "[]"]) simp
next
  case (early dl r)
  have "drain_inv limit buf d0 (lp_drain ls) (t @ [(Clock, r)])"
    using inv by (intro drain_inv_free) (simp_all add: loop_inv_def)
  moreover have "\<not> overdue_by env 0 [(Clock, r)]" using early(1,3) by (simp add: overdue_by_def)
  moreover have "reported K env st (t0 @ t @ [(Clock, r)])" if "lp_status ls = Some st" for st
    using inv that reported_append(1) [of K env st "t0 @ t" "[(Clock, r)]"] by (simp add: loop_inv_def)
  ultimately have "loop_inv K env limit buf d0 t0 ls' (t @ [(Clock, r)])"
    using inv early(5) by (simp add: loop_inv_def overdue_by_append)
  with runs_sys [OF early(2)] show ?thesis by blast
next
  case (over dl r w1 st)
  have "\<exists>t. runs w1 w' t \<and> list_all (\<lambda>e. data_free (fst e)) t \<and> Clock \<notin> fst ` set t"
    using over(4)
  proof (cases rule: kill_step_cases)
    case nothing
    then show ?thesis by (intro exI [of _ "[]"]) simp
  qed (blast intro: runs_kill)+
  then obtain t1 where t1: "runs w1 w' t1" "list_all (\<lambda>e. data_free (fst e)) t1" "Clock \<notin> fst ` set t1"
    by blast
  let ?t = "(Clock, r) # t1"
  have "drain_inv limit buf d0 (lp_drain ls) (t @ ?t)"
    using inv t1(2) by (intro drain_inv_free) (simp_all add: loop_inv_def)
  moreover have "overdue_by env 0 ?t" using over(1,3) by (auto simp: overdue_by_def)
  moreover have "reported K env s (t0 @ t @ ?t)" if "lp_status ls = Some s" for s
    using inv that reported_append(1) [of K env s "t0 @ t" ?t] by (simp add: loop_inv_def)
  ultimately have "loop_inv K env limit buf d0 t0 ls' (t @ ?t)"
    using over(6) by (simp add: loop_inv_def overdue_by_append)
  moreover have "runs w w' ?t" using runs_trans [OF runs_sys [OF over(2)] t1(1)] by simp
  ultimately show ?thesis by blast
qed

text \<open>Polls of the child.\<close>

lemma wait_step_report:
  assumes "wait_step K (we_process env) w = Some (Inr x, w')"
  shows "\<exists>t. runs w w' t \<and> list_all (\<lambda>e. data_free (fst e)) t \<and> Clock \<notin> fst ` set t \<and>
    (\<forall>st. x = Some st \<longrightarrow> reported K env st t)"
proof -
  let ?c = "Waitpid (pid (we_process env)) WNOHANG"
  obtain r rs where r: "runs w w' (map (Pair ?c) rs @ [(?c, r)])" and a: "Inr x = step_answer K r w'"
    using step_retry.same_call [OF assms] by blast
  have "\<forall>st. x = Some st \<longrightarrow> 0 \<le> r_ret r \<and> st = decode_status K (out_num (r_out r))"
    using a by (auto simp: step_answer_def split: if_splits)
  then have "\<forall>st. x = Some st \<longrightarrow> reported K env st (map (Pair ?c) rs @ [(?c, r)])"
    unfolding reported_def by (intro allI impI exI [of _ WNOHANG] exI [of _ r]) simp
  with r show ?thesis
    by (intro exI [of _ "map (Pair ?c) rs @ [(?c, r)]"]) (simp add: list_all_iff image_iff)
qed

lemma wait_blocking_report:
  assumes "wait_blocking K (we_process env) w = Some (Inr st, w')"
  shows "\<exists>t. runs w w' t \<and> list_all (\<lambda>e. data_free (fst e)) t \<and> Clock \<notin> fst ` set t \<and> reported K env st t"
proof -
  let ?c = "Waitpid (pid (we_process env)) 0"
  obtain r rs where r: "runs w w' (map (Pair ?c) rs @ [(?c, r)])" and a: "Inr st = block_answer K r w'"
    using block_retry.same_call [OF assms] by blast
  have "0 \<le> r_ret r \<and> st = decode_status K (out_num (r_out r))"
    using a by (auto simp: block_answer_def split: if_splits)
  then have "reported K env st (map (Pair ?c) rs @ [(?c, r)])"
    unfolding reported_def by (intro exI [of _ 0] exI [of _ r]) simp
  with r show ?thesis
    by (intro exI [of _ "map (Pair ?c) rs @ [(?c, r)]"]) (simp add: list_all_iff image_iff)
qed

lemma poll_status_inv:
  assumes "poll_status K env ls w = Some (Inr ls', w')" and inv: "loop_inv K env limit buf d0 t0 ls t"
  shows "\<exists>t'. runs w w' t' \<and> loop_inv K env limit buf d0 t0 ls' (t @ t')"
  using assms(1)
proof (cases rule: poll_status_cases)
  case known
  with inv show ?thesis by (intro exI [of _ "[]"]) simp
next
  case (asked x)
  obtain t' where t': "runs w w' t'" "list_all (\<lambda>e. data_free (fst e)) t'" "Clock \<notin> fst ` set t'"
    "\<forall>st. x = Some st \<longrightarrow> reported K env st t'"
    using wait_step_report [OF asked(2)] by blast
  have "loop_inv K env limit buf d0 t0 ls (t @ t')" by (rule loop_inv_free [OF inv t'(2,3)])
  moreover have "reported K env st (t0 @ t @ t')" if "x = Some st" for st
    using t'(4) that reported_append(2) [of K env st t' "t0 @ t"] by simp
  ultimately have "loop_inv K env limit buf d0 t0 (ls\<lparr>lp_status := x\<rparr>) (t @ t')"
    by (simp add: loop_inv_def)
  with t'(1) asked(3) show ?thesis by auto
qed simp

text \<open>Events.\<close>

lemma without_simps [simp]:
  "slot_of o' (without b d) = (if o' = b then None else slot_of o' d)"
  "drain_buffer (without b d) = drain_buffer d" "drain_writer (without b d) = drain_writer d"
  "stdin_slot (without b d) = stdin_slot d"
  "slot_of o' (d\<lparr>stdin_slot := x, drain_writer := wr\<rparr>) = slot_of o' d"
  by (auto simp: without_def slot_of_def)

lemma drain_inv_shrink:
  assumes "drain_inv limit buf d0 d t"
  shows "drain_inv limit buf d0 (without b d) t"
    and "drain_inv limit buf d0 (d\<lparr>stdin_slot := None, drain_writer := (drain_writer d)\<lparr>wr_buf := None\<rparr>\<rparr>) t"
  using assms by (simp_all add: drain_inv_def)

lemma act_inv:
  assumes "drain_act K R d w d' w'" and inv: "drain_inv limit buf d0 d t" and io: "io_bounded K"
    and dist: "distinct (slot_fds d0)"
  shows "\<exists>t'. runs w w' t' \<and> drain_inv limit buf d0 d' (t @ t')"
  using assms(1,2)
proof (induction rule: drain_act.induct)
  case (idle d w)
  then show ?case by (intro exI [of _ "[]"]) simp
next
  case (read is_stdout d w res d' w')
  from drain_inv_output [OF read(2) io dist read(1)] show ?case .
next
  case (drop_out d w is_stdout)
  from release_slot_free obtain t' where t': "runs w (release_slot K (slot_of is_stdout d) R w) t'"
    "list_all (\<lambda>e. data_free (fst e)) t'" unfolding makes_def by blast
  from drain_inv_free [OF drain_inv_shrink(1) [OF drop_out] t'(2)] t'(1) show ?case by blast
next
  case (sent d w res d' w')
  from drain_inv_input [OF sent(2) io sent(1)] show ?case .
next
  case (drop_in d w d' w')
  from release_slot_free obtain t' where t': "runs w (release_slot K (stdin_slot d) R w) t'"
    "list_all (\<lambda>e. data_free (fst e)) t'" unfolding makes_def by blast
  from drain_inv_free [OF drain_inv_shrink(2) [OF drop_in(2)] t'(2)] t'(1) drop_in(1) show ?case
    by (auto simp: drop_stdin_def)
qed

lemma handle_events_inv:
  assumes h: "handle_events K evs d R w = Some ((res, d'), w')" and inv: "drain_inv limit buf d0 d t"
    and io: "io_bounded K" and dist: "distinct (slot_fds d0)"
  shows "\<exists>t'. runs w w' t' \<and> drain_inv limit buf d0 d' (t @ t')"
proof (rule handle_events_ind [OF h, where P = "\<lambda>d1 w1. \<exists>t'. runs w w1 t' \<and> drain_inv limit buf d0 d1 (t @ t')"])
  show "\<exists>t'. runs w w t' \<and> drain_inv limit buf d0 d (t @ t')" using inv by (intro exI [of _ "[]"]) simp
next
  fix d1 w1 d2 w2
  assume "\<exists>t'. runs w w1 t' \<and> drain_inv limit buf d0 d1 (t @ t')" and act: "drain_act K R d1 w1 d2 w2"
  then obtain t1 where t1: "runs w w1 t1" "drain_inv limit buf d0 d1 (t @ t1)" by blast
  from act_inv [OF act t1(2) io dist] obtain t2 where "runs w1 w2 t2" "drain_inv limit buf d0 d2 ((t @ t1) @ t2)"
    by blast
  with runs_trans [OF t1(1)] show "\<exists>t'. runs w w2 t' \<and> drain_inv limit buf d0 d2 (t @ t')"
    by (metis append_assoc)
qed

lemma io_no_clock: "io_only w w' \<Longrightarrow> runs w w' t \<Longrightarrow> Clock \<notin> fst ` set t"
  unfolding makes_def using runs_unique by (fastforce simp: list_all_iff io_call_def)

lemma pump_inv:
  assumes "pump K ls timeout w = Some (Again ls', w')" and inv: "loop_inv K env limit buf d0 t0 ls t"
    and io: "io_bounded K" and dist: "distinct (slot_fds d0)"
  shows "\<exists>t'. runs w w' t' \<and> loop_inv K env limit buf d0 t0 ls' (t @ t')"
  using assms(1)
proof (cases rule: pump_cases)
  case (handled n R1 evs w1 r d1 w2)
  then have ls': "ls' = ls\<lparr>lp_reactor := R1, lp_drain := d1\<rparr>" "w' = w2" by (auto split: sum.splits)
  from wait_free [OF handled(1)] obtain t1 where t1: "runs w w1 t1" "list_all (\<lambda>e. data_free (fst e)) t1"
    unfolding makes_def by blast
  have d: "drain_inv limit buf d0 (lp_drain ls) (t @ t1)"
    using inv t1(2) by (intro drain_inv_free) (simp_all add: loop_inv_def)
  from handle_events_inv [OF handled(2) d io dist] obtain t2 where t2: "runs w1 w2 t2"
    "drain_inv limit buf d0 d1 ((t @ t1) @ t2)" by blast
  note r = runs_trans [OF t1(1) t2(1)]
  have "Clock \<notin> fst ` set (t1 @ t2)"
    using io_no_clock [OF makes_trans [OF wait_io [OF handled(1)] handle_events_io [OF handled(2)]] r] .
  from overdue_by_none [OF this] have "\<not> overdue_by env 0 (t1 @ t2)" .
  moreover have "reported K env st (t0 @ t @ t1 @ t2)" if "lp_status ls = Some st" for st
    using inv that reported_append(1) [of K env st "t0 @ t" "t1 @ t2"] by (simp add: loop_inv_def)
  ultimately have "loop_inv K env limit buf d0 t0 ls' (t @ t1 @ t2)"
    using inv t2(2) by (auto simp: ls'(1) loop_inv_def overdue_by_append)
  with r show ?thesis unfolding ls'(2) by blast
qed simp

section \<open>Results\<close>

definition result_ok ::
  "'k os \<Rightarrow> wait_env \<Rightarrow> nat \<Rightarrow> byte list \<Rightarrow> unit drain_state \<Rightarrow> event_log \<Rightarrow> process_output \<Rightarrow> event_log \<Rightarrow> bool" where
  "result_ok K env limit buf d0 t0 out t \<longleftrightarrow>
     (\<exists>d st. drain_inv limit buf d0 d t \<and> out_stdout out = buf_stdout (drain_buffer d) \<and>
        out_stderr out = buf_stderr (drain_buffer d) \<and> out_status out = Some st \<and> reported K env st (t0 @ t)) \<and>
     out_pid out = pid (we_process env) \<and> (out_timed_out out \<longleftrightarrow> overdue_by env 0 t)"

lemma finish_result:
  assumes "finish K env ls w = Some (Inr out, w')" and "is_done (lp_drain ls)"
    and inv: "loop_inv K env limit buf d0 t0 ls t"
  shows "\<exists>t'. runs w w' t' \<and> result_ok K env limit buf d0 t0 out (t @ t')"
  using assms(1,2)
proof (cases rule: finish_cases)
  case (reported s w1)
  obtain t1 where t1: "runs w w1 t1" "list_all (\<lambda>e. data_free (fst e)) t1" "Clock \<notin> fst ` set t1"
    and st: "reported K env s (t0 @ t @ t1)"
  proof -
    from reported(1) consider "lp_status ls = Some s" "w1 = w"
      | "wait_blocking K (we_process env) w = Some (Inr s, w1)" by blast
    then show thesis
    proof cases
      case 1
      with inv show thesis by (intro that [of "[]"]) (simp_all add: loop_inv_def)
    next
      case 2
      from wait_blocking_report [OF this] obtain t1 where t1: "runs w w1 t1"
        "list_all (\<lambda>e. data_free (fst e)) t1" "Clock \<notin> fst ` set t1" "reported K env s t1" by blast
      have "reported K env s (t0 @ t @ t1)"
        using reported_append(2) [OF t1(4), of "t0 @ t"] by simp
      with t1(1-3) show thesis by (rule that)
    qed
  qed
  have f: "makes data_free w1 w'" and i: "io_only w1 w'"
    unfolding reported(3)
    by (rule makes_trans [OF drop_drain_free drop_reactor_free], rule makes_trans [OF drop_drain_io drop_reactor_io])
  from f obtain t2 where t2: "runs w1 w' t2" "list_all (\<lambda>e. data_free (fst e)) t2" unfolding makes_def by blast
  have fr: "list_all (\<lambda>e. data_free (fst e)) (t1 @ t2)" "Clock \<notin> fst ` set (t1 @ t2)"
    using t1(2,3) t2(2) io_no_clock [OF i t2(1)] by auto
  note li = loop_inv_free [OF inv fr]
  have "reported K env s (t0 @ t @ t1 @ t2)" using reported_append(1) [OF st, of t2] by simp
  with li have "result_ok K env limit buf d0 t0 out (t @ t1 @ t2)"
    using reported(2) by (auto simp: result_ok_def loop_inv_def)
  with runs_trans [OF t1(1) t2(1)] show ?thesis by blast
qed simp

lemma wait_rounds_result:
  assumes w: "wait_rounds K env ls w = Some (Inr out, w')" and inv: "loop_inv K env limit buf d0 t0 ls []"
    and io: "io_bounded K" and dist: "distinct (slot_fds d0)"
  shows "\<exists>t. runs w w' t \<and> result_ok K env limit buf d0 t0 out t"
proof -
  define I where "I ls1 w1 \<longleftrightarrow> (\<exists>t. runs w w1 t \<and> loop_inv K env limit buf d0 t0 ls1 t)" for ls1 w1
  have look: "\<exists>t. runs w w2 t \<and> loop_inv K env limit buf d0 t0 ls3 t"
    if "I ls1 w1" "check_deadline K env ls1 w1 = ((poll, ls2), w3)" "poll_status K env ls2 w3 = Some (Inr ls3, w2)"
    for ls1 w1 poll ls2 w3 ls3 w2
  proof -
    from that(1) obtain t1 where t1: "runs w w1 t1" "loop_inv K env limit buf d0 t0 ls1 t1" unfolding I_def by blast
    from check_deadline_inv [OF that(2) t1(2)] obtain t2 where t2: "runs w1 w3 t2"
      "loop_inv K env limit buf d0 t0 ls2 (t1 @ t2)" by blast
    from poll_status_inv [OF that(3) t2(2)] obtain t3 where t3: "runs w3 w2 t3"
      "loop_inv K env limit buf d0 t0 ls3 ((t1 @ t2) @ t3)" by blast
    from runs_trans [OF runs_trans [OF t1(1) t2(1)] t3(1)] t3(2) show ?thesis by blast
  qed
  have "\<exists>ls1 w1. I ls1 w1 \<and> wait_round K env ls1 w1 = Some (Stop (Inr out), w')"
  proof (rule wait_rounds_ind [OF w])
    show "I ls w" using inv unfolding I_def by (intro exI [of _ "[]"]) simp
  next
    fix ls1 w1 ls2 w2
    assume i: "I ls1 w1" and r: "wait_round K env ls1 w1 = Some (Again ls2, w2)"
    from r show "I ls2 w2"
    proof (cases rule: wait_round_cases)
      case (pumped poll ls3 w3 ls4 w4)
      from look [OF i pumped(1,2)] obtain t where t: "runs w w4 t" "loop_inv K env limit buf d0 t0 ls4 t" by blast
      from pump_inv [OF pumped(4) t(2) io dist] runs_trans [OF t(1)] show ?thesis unfolding I_def by blast
    qed simp_all
  qed
  then obtain ls1 w1 where i: "I ls1 w1" and r: "wait_round K env ls1 w1 = Some (Stop (Inr out), w')" by blast
  from r show ?thesis
  proof (cases rule: wait_round_cases)
    case (finished poll ls3 w3 ls4 w4 res)
    from look [OF i finished(1,2)] obtain t where t: "runs w w4 t" "loop_inv K env limit buf d0 t0 ls4 t" by blast
    have "finish K env ls4 w4 = Some (Inr out, w')" using finished(4,5) by simp
    from finish_result [OF this finished(3) t(2)] runs_trans [OF t(1)] show ?thesis by blast
  next
    case (pumped poll ls3 w3 ls4 w4)
    from pumped(4) show ?thesis by (cases rule: pump_cases) (auto split: sum.splits)
  qed simp
qed

section \<open>Descriptors of a whole run\<close>

lemma after_start_moves:
  assumes "after_start K opts rp R w = Some (res, w')"
  shows "moves w w' (drain_owns (rp_drain rp) + reactor_owns R) {#}"
proof -
  obtain r d R1 w1 where s: "register_with_reactor K (rp_drain rp) R w = ((r, d, R1), w1)" by (metis prod.exhaust)
  note rs = register_with_reactor_spec [OF s]
  have m1: "moves w w1 (drain_owns (rp_drain rp) + reactor_owns R) (drain_owns d + reactor_owns R1)"
    using moves_frame [OF rs(1), of "reactor_owns R"] rs(2) by simp
  have dr: "moves w1 (drop_reactor K R1 (drop_drain K d w1)) (drain_owns d + reactor_owns R1) {#}"
    by (rule moves_drop_seq [OF drop_drain_moves drop_reactor_moves])
  show ?thesis
  proof (cases r)
    case (Inl e)
    with assms s have "w' = drop_reactor K R1 (drop_drain K d w1)" by (simp add: after_start_def Let_def)
    with moves_trans [OF m1 dr] show ?thesis by simp
  next
    case (Inr u)
    show ?thesis
    proof (cases "so_wait opts")
      case False
      with assms s Inr have "w' = drop_reactor K R1 (drop_drain K d w1)"
        by (auto simp: after_start_def Let_def drain_into_parts_def split: prod.splits)
      with moves_trans [OF m1 dr] show ?thesis by simp
    next
      case True
      with assms s Inr have "wait_loop K (pid (rp_process rp)) d R1 (so_timeout_ms opts) (so_kill_grace_ms opts)
          (so_cancel opts) (so_pgroup opts) w1 = Some (res, w')"
        by (simp add: after_start_def Let_def)
      from moves_trans [OF m1 wait_loop_moves [OF this]] show ?thesis .
    qed
  qed
qed

lemma spawn_cases:
  assumes "spawn K android cell opts w = Some ((res, cell'), w')"
  obtains (no_reactor) e where "reactor_new K w = (Inl e, w')" "res = In_parent (Inl e)"
  | (child) R w0 where "reactor_new K w = (Inr R, w0)"
      "spawn_start K android cell opts w0 = Some ((In_child, cell'), w')" "res = In_child"
  | (not_started) R w0 e w1 where "reactor_new K w = (Inr R, w0)"
      "spawn_start K android cell opts w0 = Some ((In_parent (Inl e), cell'), w1)"
      "res = In_parent (Inl e)" "w' = drop_reactor K R w1"
  | (started) R w0 rp w1 out where "reactor_new K w = (Inr R, w0)"
      "spawn_start K android cell opts w0 = Some ((In_parent (Inr rp), cell'), w1)"
      "after_start K opts rp R w1 = Some (out, w')" "res = In_parent out"
proof -
  obtain r0 w0 where s0: "reactor_new K w = (r0, w0)" by fastforce
  show thesis
  proof (cases r0)
    case (Inl e)
    with assms s0 show thesis by (intro no_reactor) (auto simp: spawn_def)
  next
    case (Inr R)
    have "spawn_start K android cell opts w0 \<noteq> None"
      using assms s0 Inr by (cases "spawn_start K android cell opts w0") (simp_all add: spawn_def)
    then obtain x c1 w1 where s1: "spawn_start K android cell opts w0 = Some ((x, c1), w1)"
      by (metis option.exhaust prod.exhaust)
    show thesis
    proof (cases x)
      case In_child
      with assms s0 s1 Inr show thesis by (intro child) (auto simp: spawn_def)
    next
      case (In_parent y)
      show thesis
      proof (cases y)
        case (Inl e)
        with assms s0 s1 \<open>r0 = Inr R\<close> In_parent show thesis by (intro not_started) (auto simp: spawn_def)
      next
        case (Inr rp)
        have "after_start K opts rp R w1 \<noteq> None"
          using assms s0 s1 \<open>r0 = Inr R\<close> In_parent Inr
          by (cases "after_start K opts rp R w1") (simp_all add: spawn_def)
        then obtain out w2 where a: "after_start K opts rp R w1 = Some (out, w2)"
          by (metis option.exhaust prod.exhaust)
        with assms s0 s1 \<open>r0 = Inr R\<close> In_parent Inr show thesis by (intro started) (auto simp: spawn_def)
      qed
    qed
  qed
qed

text \<open>What waiting returns: the output names the child; its status is the decoded answer of a \<open>waitpid\<close> on it;
  each captured stream is what the kernel delivered on that pipe cut at the limit, whatever the order of
  events, signals and polls; what was sent on stdin is a prefix of the data; and it is marked timed out
  exactly when a look at the clock showed the timeout had passed.\<close>

lemma wait_loop_result:
  assumes "wait_loop K n d R timeout grace cancel pg w = Some (Inr out, w')" and "runs w w' t"
    and "io_bounded K" and "drain_made limit buf d" and "distinct (slot_fds d)"
  shows "out_pid out = n \<and>
     (\<exists>st fl r. out_status out = Some st \<and> (Waitpid n fl, r) \<in> set t \<and> 0 \<le> r_ret r \<and>
        st = decode_status K (out_num (r_out r))) \<and>
     out_stdout out = (case stdout_slot d of None \<Rightarrow> [] | Some s \<Rightarrow> take limit (delivered (raw (slot_fd s)) t)) \<and>
     out_stderr out = (case stderr_slot d of None \<Rightarrow> [] | Some s \<Rightarrow> take limit (delivered (raw (slot_fd s)) t)) \<and>
     (\<forall>s. stdin_slot d = Some s \<longrightarrow> (\<exists>k. accepted (raw (slot_fd s)) t = take k buf)) \<and>
     (out_timed_out out \<longleftrightarrow> (\<exists>ms. timeout = Some ms \<and>
        (\<exists>c \<in> set (tl (clock_readings t)). unat ms * 1000000 \<le> nat (c - hd (clock_readings t)))))"
  using assms(1)
proof (cases rule: wait_loop_cases)
  case (looped x w1 r0 w2)
  let ?env = "loop_env n timeout grace cancel pg r0"
  have p: "pid (we_process ?env) = n" by (simp add: loop_env_def)
  have "wait_step K (we_process ?env) w = Some (Inr x, w1)" using looped(1) by (simp add: loop_env_def)
  from wait_step_report [OF this] obtain t0 where t0: "runs w w1 t0" "list_all (\<lambda>e. data_free (fst e)) t0"
    "Clock \<notin> fst ` set t0" "\<forall>st. x = Some st \<longrightarrow> reported K ?env st t0" by blast
  have c0: "clock_readings t0 = []" using t0(3) by (force simp: clock_readings_def filter_empty_conv)
  let ?t0 = "t0 @ [(Clock, r0)]"
  have "loop_inv K ?env limit buf d ?t0 (loop_start d R x) []"
    using t0(4) reported_append(1) drain_inv_start [OF assms(4)]
    by (auto simp: loop_inv_def loop_start_def overdue_by_def)
  from wait_rounds_result [OF looped(3) this assms(3,5)] obtain t1 where t1: "runs w2 w' t1"
    and ok: "result_ok K ?env limit buf d ?t0 out t1" by blast
  have t: "t = ?t0 @ t1"
    using runs_unique [OF assms(2) runs_trans [OF runs_trans [OF t0(1) runs_sys [OF looped(2)]] t1]] .
  have str: "delivered m t = delivered m t1" "accepted m t = accepted m t1" for m
    using data_free_streams [of ?t0 m] t0(2) unfolding t by (simp_all del: append_assoc)
  have cr: "clock_readings t = out_num (r_out r0) # clock_readings t1" using c0 by (simp add: t)
  from ok obtain d' st where d': "drain_inv limit buf d d' t1"
    and out: "out_stdout out = buf_stdout (drain_buffer d')" "out_stderr out = buf_stderr (drain_buffer d')"
      "out_status out = Some st" and st: "reported K ?env st t"
    unfolding result_ok_def t by blast
  from ok have ids: "out_pid out = n" and late: "out_timed_out out \<longleftrightarrow> overdue_by ?env 0 t1"
    unfolding result_ok_def p by blast+
  from d' have str': "stream_of o' (drain_buffer d') = (case slot_of o' d of
         None \<Rightarrow> [] | Some s \<Rightarrow> take limit (delivered (raw (slot_fd s)) t))" for o'
    unfolding drain_inv_def str by blast
  have o: "overdue_by ?env 0 t1 \<longleftrightarrow> (\<exists>ms. timeout = Some ms \<and>
        (\<exists>c \<in> set (tl (clock_readings t)). unat ms * 1000000 \<le> nat (c - hd (clock_readings t))))"
    unfolding cr overdue_by_def by (force simp: clock_readings_def NANOS_PER_MILLI_def)
  have "\<exists>k. accepted (raw (slot_fd s)) t = take k buf" if "stdin_slot d = Some s" for s
    using d' that unfolding drain_inv_def str by blast
  with ids late o out str' [of True] str' [of False] st show ?thesis
    by (simp add: reported_def p stream_of_def slot_of_def)
qed simp

section \<open>Property\<close>

text \<open>C4. A whole run leaks no descriptor. When \<open>spawn\<close> returns in the parent, whether it succeeded or
  failed at any call, every descriptor opened on the way (epoll, pipes, the directory listing) has
  been closed exactly once and nothing else has been closed.\<close>

theorem spawn_leaks_nothing:
  assumes "spawn K android cell opts w = Some ((In_parent res, cell'), w')" and "pipe_ok K"
  shows "moves w w' {#} {#}"
  using assms(1)
proof (cases rule: spawn_cases)
  case (no_reactor e)
  from reactor_new_moves [OF no_reactor(1)] show ?thesis by simp
next
  case (not_started R w0 e w1)
  have m0: "moves w w0 {#} (reactor_owns R)" using reactor_new_moves [OF not_started(1)] by simp
  have "moves w0 w1 (reactor_owns R) (reactor_owns R)"
    using moves_frame [OF spawn_start_moves [OF not_started(2) assms(2)], of "reactor_owns R"]
    by (simp add: running_owns_def)
  from moves_trans [OF moves_trans [OF m0 this] drop_reactor_moves] show ?thesis unfolding not_started(4) .
next
  case (started R w0 rp w1 out)
  have m0: "moves w w0 {#} (reactor_owns R)" using reactor_new_moves [OF started(1)] by simp
  have "moves w0 w1 (reactor_owns R) (drain_owns (rp_drain rp) + reactor_owns R)"
    using moves_frame [OF spawn_start_moves [OF started(2) assms(2)], of "reactor_owns R"]
    by (simp add: running_owns_def)
  from moves_trans [OF moves_trans [OF m0 this] after_start_moves [OF started(3)]] show ?thesis .
qed simp

theorem spawn_leaks_nothing_witness:
  "\<exists>res cell' w'. spawn fork_os False None (demo_options\<lparr>so_wait := False, so_capture_stdout := False\<rparr>)
      \<lparr>kst = (), errno = 0, trace = []\<rparr> = Some ((In_parent (Inr res), cell'), w') \<and>
     moves \<lparr>kst = (), errno = 0, trace = []\<rparr> w' {#} {#}"
proof -
  let ?w = "\<lparr>kst = (), errno = 0, trace = []\<rparr>"
  let ?o = "demo_options\<lparr>so_wait := False, so_capture_stdout := False\<rparr>"
  obtain res cell' w' where r: "spawn fork_os False None ?o ?w = Some ((In_parent (Inr res), cell'), w')"
    by (simp add: demo_options_def fork_os_def spawn_run spawn_def reactor_new_def after_start_def
        register_with_reactor_def register_slot_def drain_into_parts_def buffer_into_parts_def)
  from spawn_leaks_nothing [OF r fork_os_pipe_ok] r show ?thesis by blast
qed

end
