(* ===== verification/WaitEnd.thy ===== *)
theory WaitEnd
  imports WaitResult
begin

text \<open>
  Whether \<open>wait_loop\<close> ends, given that every system call does. It does not exactly when it waits for epoll
  again and again while some pipe of the child stays open, or when one round of it does not end; and the
  ways in which a round does not end are listed.
\<close>

section \<open>One round that does not end\<close>

text \<open>The handler of the event does not return: its own pipe always has data, or its write is always interrupted.\<close>

inductive stuck :: "'k os \<Rightarrow> event \<Rightarrow> unit drain_state \<Rightarrow> reactor \<Rightarrow> 'k world \<Rightarrow> bool" for K ev d R w where
  reading: "handle_event K ev d R w = None \<Longrightarrow> slot_of is_stdout d = Some s \<Longrightarrow> slot_token s = Some (ev_token ev) \<Longrightarrow>
     ev_readable ev \<Longrightarrow> endless K (flows (raw (slot_fd s))) w \<Longrightarrow> stuck K ev d R w"
| writing: "handle_event K ev d R w = None \<Longrightarrow> stdin_slot d = Some s \<Longrightarrow> slot_token s = Some (ev_token ev) \<Longrightarrow>
     ev_writable ev \<Longrightarrow> execs K w t w' \<Longrightarrow> endless K (write_interrupted (raw (slot_fd s))) w' \<Longrightarrow> stuck K ev d R w"

text \<open>A round that does not end, and where: at the poll for the child's status, at the final wait for the child, or
  at one of the reported events.\<close>

inductive hung :: "'k os \<Rightarrow> wait_env \<Rightarrow> loop_state \<Rightarrow> 'k world \<Rightarrow> bool" for K env ls w where
  polling: "check_deadline K env ls w = ((poll, ls1), w1) \<Longrightarrow> lp_status ls = None \<Longrightarrow>
     endless K (interrupts (Waitpid (pid (we_process env)) WNOHANG)) w1 \<Longrightarrow> hung K env ls w"
| reaping: "check_deadline K env ls w = ((poll, ls1), w1) \<Longrightarrow> poll_status K env ls1 w1 = Some (Inr ls2, w2) \<Longrightarrow>
     is_done (lp_drain ls) \<Longrightarrow> lp_status ls2 = None \<Longrightarrow>
     endless K (interrupts (Waitpid (pid (we_process env)) 0)) w2 \<Longrightarrow> hung K env ls w"
| handling: "check_deadline K env ls w = ((poll, ls1), w1) \<Longrightarrow> poll_status K env ls1 w1 = Some (Inr ls2, w2) \<Longrightarrow>
     \<not> is_done (lp_drain ls) \<Longrightarrow>
     wait K (lp_reactor ls2) [] 64 (epoll_timeout ls2 poll) w2 = ((Inr nev, R1, events), w3) \<Longrightarrow>
     take nev events = evs @ ev # evs' \<Longrightarrow>
     handle_events K evs (lp_drain ls2) R1 w3 = Some ((Inr (), d1), w4) \<Longrightarrow> stuck K ev d1 R1 w4 \<Longrightarrow> hung K env ls w"

inductive_cases stuck_cases: "stuck K ev d R w"

inductive_cases hung_cases: "hung K env ls w"

lemma stuckD: "stuck K ev d R w \<Longrightarrow> handle_event K ev d R w = None"
  by (auto elim: stuck_cases)

lemma handle_event_hangs:
  assumes "handle_event K ev d R w = None"
  shows "stuck K ev d R w"
proof -
  have out: "stuck K ev d R w"
    if "slot_matches (slot_of b d) (ev_token ev)" "ev_readable ev" "handle_output K b d R w = None" for b
    using that(3)
  proof (rule handle_output_hangs)
    fix s assume "slot_of b d = Some s" "endless K (flows (raw (slot_fd s))) w"
    with assms that(1,2) show ?thesis by (intro stuck.reading [of _ _ _ _ _ b s]) (auto simp: slot_matches_def)
  qed
  have inp: "stuck K ev d R w"
    if "slot_matches (stdin_slot d) (ev_token ev)" "ev_writable ev" "handle_stdin_writable K d R w = None"
    using that(3)
  proof (rule handle_stdin_hangs)
    fix s t w' assume "stdin_slot d = Some s" "execs K w t w'" "endless K (write_interrupted (raw (slot_fd s))) w'"
    with assms that(1,2) show ?thesis by (intro stuck.writing [of _ _ _ _ _ s t w']) (auto simp: slot_matches_def)
  qed
  from assms out [of True] out [of False] inp show ?thesis
    by (auto simp: handle_event_def handle_output_def slot_of_def stdout_matches_def stderr_matches_def
        stdin_matches_def split: if_splits prod.splits)
qed

lemma handle_events_append:
  "handle_events K (evs @ evs') d R w = (case handle_events K evs d R w of
     None \<Rightarrow> None | Some ((Inl e, d1), w1) \<Rightarrow> Some ((Inl e, d1), w1) | Some ((Inr u, d1), w1) \<Rightarrow> handle_events K evs' d1 R w1)"
  by (induction evs arbitrary: d w) (auto split: option.splits sum.splits prod.splits bind_splits)

lemma handle_events_hangs:
  assumes "handle_events K es d R w = None"
  obtains evs ev evs' d1 w1 where "es = evs @ ev # evs'" and "handle_events K evs d R w = Some ((Inr (), d1), w1)"
    and "stuck K ev d1 R w1"
proof -
  have "\<exists>evs ev evs' d1 w1. es = evs @ ev # evs' \<and> handle_events K evs d R w = Some ((Inr (), d1), w1) \<and> stuck K ev d1 R w1"
    using assms
  proof (induction es arbitrary: d w)
    case (Cons e es)
    show ?case
    proof (cases "handle_event K e d R w")
      case None
      then have "stuck K e d R w" by (rule handle_event_hangs)
      then show ?thesis by (intro exI [of _ "[]"] exI [of _ e] exI [of _ es] exI [of _ d] exI [of _ w]) simp
    next
      case (Some y)
      with Cons.prems obtain d1 w1 where y: "y = ((Inr (), d1), w1)" "handle_events K es d1 R w1 = None"
        by (cases y) (auto split: sum.splits)
      from Cons.IH [OF this(2)] obtain evs ev evs' d2 w2 where "es = evs @ ev # evs'"
        "handle_events K evs d1 R w1 = Some ((Inr (), d2), w2)" "stuck K ev d2 R w2" by blast
      with Some y(1) show ?thesis
        by (intro exI [of _ "e # evs"] exI [of _ ev] exI [of _ evs'] exI [of _ d2] exI [of _ w2]) simp
    qed
  qed simp
  with that show thesis by blast
qed

lemma pump_hangs_iff:
  "pump K ls timeout w = None \<longleftrightarrow> (\<exists>n R1 events w1. wait K (lp_reactor ls) [] 64 timeout w = ((Inr n, R1, events), w1) \<and>
     handle_events K (take n events) (lp_drain ls) R1 w1 = None)"
proof -
  obtain res R1 events w1 where s: "wait K (lp_reactor ls) [] 64 timeout w = ((res, R1, events), w1)"
    by (metis prod.exhaust)
  show ?thesis
  proof (cases res)
    case (Inr n)
    show ?thesis
    proof (cases "handle_events K (take n events) (lp_drain ls) R1 w1")
      case (Some y)
      obtain r d1 w2 where "y = ((r, d1), w2)" by (metis prod.exhaust)
      with s Inr Some show ?thesis by (cases r) (simp_all add: pump_def Let_def)
    qed (use s Inr in \<open>simp add: pump_def\<close>)
  qed (use s in \<open>simp add: pump_def\<close>)
qed

lemma finish_hangs_iff:
  "finish K env ls w = None \<longleftrightarrow>
     lp_status ls = None \<and> endless K (interrupts (Waitpid (pid (we_process env)) 0)) w"
proof (cases "lp_status ls")
  case (Some s)
  then show ?thesis by (simp add: finish_def split: prod.split)
next
  case None
  show ?thesis
  proof (cases "wait_blocking K (we_process env) w")
    case (Some y)
    then have "\<not> endless K (interrupts (Waitpid (pid (we_process env)) 0)) w"
      unfolding block_retry.hangs_iff [symmetric] by simp
    moreover have "finish K env ls w \<noteq> None"
      using None Some by (cases y; cases "fst y") (simp_all add: finish_def split: prod.split)
    ultimately show ?thesis by simp
  qed (use None block_retry.hangs_iff [of K "we_process env" w] in \<open>simp add: finish_def\<close>)
qed

lemma poll_status_hangs_iff:
  "poll_status K env ls w = None \<longleftrightarrow>
     lp_status ls = None \<and> endless K (interrupts (Waitpid (pid (we_process env)) WNOHANG)) w"
proof (cases "lp_status ls")
  case None
  show ?thesis
  proof (cases "wait_step K (we_process env) w")
    case (Some y)
    then have "\<not> endless K (interrupts (Waitpid (pid (we_process env)) WNOHANG)) w"
      unfolding step_retry.hangs_iff [symmetric] by simp
    moreover obtain x w1 where "y = (x, w1)" by fastforce
    ultimately show ?thesis
      using None Some by (cases x rule: io_exhaust) (simp_all add: poll_status_def)
  qed (use None step_retry.hangs_iff [of K "we_process env" w] in \<open>simp add: poll_status_def\<close>)
qed (simp add: poll_status_def)

lemma wait_round_hangs_iff: "wait_round K env ls w = None \<longleftrightarrow> hung K env ls w"
proof -
  obtain poll ls1 w1 where c: "check_deadline K env ls w = ((poll, ls1), w1)" by (metis prod.exhaust)
  note cd = check_deadline_moves(3,5) [OF c]
  have dr: "lp_drain ls2 = lp_drain ls" if "poll_status K env ls1 w1 = Some (Inr ls2, w2)" for ls2 w2
    using that cd by (cases rule: poll_status_cases) simp_all
  show ?thesis
  proof
    assume none: "wait_round K env ls w = None"
    show "hung K env ls w"
    proof (cases "poll_status K env ls1 w1")
      case None
      then show ?thesis unfolding poll_status_hangs_iff cd by (blast intro: hung.polling [OF c])
    next
      case (Some y)
      with none c obtain ls2 w2 where p: "poll_status K env ls1 w1 = Some (Inr ls2, w2)"
        by (cases y; cases "fst y") (auto simp: wait_round_def)
      show ?thesis
      proof (cases "is_done (lp_drain ls)")
        case True
        with none c p dr [OF p] have "finish K env ls2 w2 = None"
          by (cases "finish K env ls2 w2") (auto simp: wait_round_def)
        then show ?thesis unfolding finish_hangs_iff by (blast intro: hung.reaping [OF c p True])
      next
        case False
        with none c p dr [OF p] have "pump K ls2 (epoll_timeout ls2 poll) w2 = None" by (simp add: wait_round_def)
        then obtain n R1 events w3 where e: "wait K (lp_reactor ls2) [] 64 (epoll_timeout ls2 poll) w2 = ((Inr n, R1, events), w3)"
          "handle_events K (take n events) (lp_drain ls2) R1 w3 = None" unfolding pump_hangs_iff by blast
        from e(2) show ?thesis by (rule handle_events_hangs) (rule hung.handling [OF c p False e(1)])
      qed
    qed
  next
    assume "hung K env ls w"
    then show "wait_round K env ls w = None"
    proof (cases rule: hung.cases)
      case (polling poll' ls1' w1')
      with c cd have "poll_status K env ls1 w1 = None" unfolding poll_status_hangs_iff by simp
      with c show ?thesis by (simp add: wait_round_def)
    next
      case (reaping poll' ls1' w1' ls2 w2)
      with c have p: "poll_status K env ls1 w1 = Some (Inr ls2, w2)" by simp
      from reaping have "finish K env ls2 w2 = None" unfolding finish_hangs_iff by simp
      with c p dr [OF p] reaping(3) show ?thesis by (simp add: wait_round_def)
    next
      case (handling poll' ls1' w1' ls2 w2 n R1 events w3 evs ev evs' d1 w4)
      with c have p: "poll_status K env ls1 w1 = Some (Inr ls2, w2)" and q: "poll' = poll" by simp_all
      have "handle_events K (take n events) (lp_drain ls2) R1 w3 = None"
        using handling(6) stuckD [OF handling(7)] unfolding handling(5) handle_events_append by simp
      with handling(4) have "pump K ls2 (epoll_timeout ls2 poll) w2 = None" unfolding pump_hangs_iff q by blast
      with c p dr [OF p] handling(3) show ?thesis by (simp add: wait_round_def)
    qed
  qed
qed

section \<open>Rounds\<close>

definition epoll_waits :: "event_log \<Rightarrow> nat" where
  "epoll_waits t = length (filter (\<lambda>e. case fst e of EpollWait _ _ _ \<Rightarrow> True | _ \<Rightarrow> False) t)"

lemma epoll_waits_append [simp]: "epoll_waits (s @ t) = epoll_waits s + epoll_waits t"
  by (simp add: epoll_waits_def)

lemma moves_runs: "moves w w' A B \<Longrightarrow> \<exists>t. runs w w' t"
  unfolding moves_def by blast

lemma wait_waits:
  assumes "wait K R buffer 64 timeout w = (x, w')"
  shows "\<exists>t. runs w w' t \<and> epoll_waits t = 1"
proof -
  let ?c = "EpollWait (epfd R) (as_i32 64) timeout"
  obtain r where s: "sys K ?c w = (r, w')"
    using assms by (auto simp: wait_def Let_def split: prod.splits if_splits)
  from runs_sys [OF s] show ?thesis
    by (intro exI [of _ "[(?c, r)]"]) (simp add: epoll_waits_def)
qed

lemma again_waits:
  assumes "wait_round K env ls w = Some (Again ls', w')"
  shows "\<exists>t. runs w w' t \<and> 0 < epoll_waits t"
  using assms
proof (cases rule: wait_round_cases)
  case (pumped poll ls1 w1 ls2 w2)
  obtain t1 t2 where t1: "runs w w1 t1" "runs w1 w2 t2"
    using moves_runs [OF check_deadline_moves(1) [OF pumped(1)]] moves_runs [OF poll_status_moves [OF pumped(2)]]
    by blast
  from pumped(4) show ?thesis
  proof (cases rule: pump_cases)
    case (handled n R1 evs w3 r d1 w4)
    then have w': "w' = w4" by (auto split: sum.splits)
    obtain t3 where t3: "runs w2 w3 t3" "epoll_waits t3 = 1" using wait_waits [OF handled(1)] by blast
    obtain t4 where t4: "runs w3 w4 t4" using moves_runs [OF handle_events_moves [OF handled(2)]] by blast
    from runs_trans [OF runs_trans [OF runs_trans [OF t1] t3(1)] t4] t3(2) show ?thesis
      unfolding w' by (intro exI conjI) auto
  qed simp
qed simp_all

text \<open>Finitely many rounds, and rounds without end: the drain is never done, and every one waits for epoll.\<close>

inductive rounds :: "'k os \<Rightarrow> wait_env \<Rightarrow> loop_state \<Rightarrow> 'k world \<Rightarrow> loop_state \<Rightarrow> 'k world \<Rightarrow> bool" for K env where
  none: "rounds K env ls w ls w"
| more: "wait_round K env ls w = Some (Again ls1, w1) \<Longrightarrow> rounds K env ls1 w1 ls' w' \<Longrightarrow> rounds K env ls w ls' w'"

coinductive rounds_forever :: "'k os \<Rightarrow> wait_env \<Rightarrow> loop_state \<Rightarrow> 'k world \<Rightarrow> bool" for K env where
  "wait_round K env ls w = Some (Again ls1, w1) \<Longrightarrow> \<not> is_done (lp_drain ls) \<Longrightarrow> runs w w1 t \<Longrightarrow> 0 < epoll_waits t \<Longrightarrow>
     rounds_forever K env ls1 w1 \<Longrightarrow> rounds_forever K env ls w"

lemma rounds_forever_or_end:
  "rounds_forever K env ls w \<or>
     (\<exists>ls' w'. rounds K env ls w ls' w' \<and> (\<nexists>ls1 w1. wait_round K env ls' w' = Some (Again ls1, w1)))"
proof (rule disjCI)
  assume "\<nexists>ls' w'. rounds K env ls w ls' w' \<and> (\<nexists>ls1 w1. wait_round K env ls' w' = Some (Again ls1, w1))"
  then show "rounds_forever K env ls w"
  proof (coinduction arbitrary: ls w)
    case (rounds_forever ls w)
    with rounds.none obtain ls1 w1 where r: "wait_round K env ls w = Some (Again ls1, w1)" by blast
    with rounds_forever have "\<nexists>ls' w'. rounds K env ls1 w1 ls' w' \<and> (\<nexists>ls2 w2. wait_round K env ls' w' = Some (Again ls2, w2))"
      by (blast intro: rounds.more)
    moreover have "\<not> is_done (lp_drain ls)" using r by (auto elim: done_round)
    moreover obtain t where "runs w w1 t" "0 < epoll_waits t" using again_waits [OF r] by blast
    ultimately show ?case using r by blast
  qed
qed

lemma wait_rounds_rounds: "rounds K env ls w ls' w' \<Longrightarrow> wait_rounds K env ls w = wait_rounds K env ls' w'"
  by (induction rule: rounds.induct) (simp_all add: wait_rounds.simps)

lemma wait_rounds_forever: "rounds_forever K env ls w \<Longrightarrow> wait_rounds K env ls w = None"
proof (rule ccontr)
  assume f: "rounds_forever K env ls w" and "wait_rounds K env ls w \<noteq> None"
  then obtain res w' where "wait_rounds K env ls w = Some (res, w')" by (metis option.exhaust prod.exhaust)
  moreover have "rounds_forever K env ls2 w2" if "rounds_forever K env ls1 w1" "wait_round K env ls1 w1 = Some (Again ls2, w2)"
    for ls1 w1 ls2 w2
    using that by (auto elim: rounds_forever.cases)
  ultimately obtain ls1 w1 where "rounds_forever K env ls1 w1" "wait_round K env ls1 w1 = Some (Stop res, w')"
    using wait_rounds_ind [of K env ls w res w' "rounds_forever K env"] f by blast
  then show False by (auto elim: rounds_forever.cases)
qed

lemma wait_rounds_hangs_iff:
  "wait_rounds K env ls w = None \<longleftrightarrow>
     rounds_forever K env ls w \<or> (\<exists>ls' w'. rounds K env ls w ls' w' \<and> hung K env ls' w')"
proof
  assume none: "wait_rounds K env ls w = None"
  from rounds_forever_or_end [of K env ls w]
  show "rounds_forever K env ls w \<or> (\<exists>ls' w'. rounds K env ls w ls' w' \<and> hung K env ls' w')"
  proof (elim disjE exE conjE)
    fix ls' w' assume r: "rounds K env ls w ls' w'" and e: "\<nexists>ls1 w1. wait_round K env ls' w' = Some (Again ls1, w1)"
    have "wait_round K env ls' w' = None"
    proof (cases "wait_round K env ls' w'")
      case (Some y)
      obtain o_res w1 where "y = (o_res, w1)" by fastforce
      with Some e obtain res where "wait_round K env ls' w' = Some (Stop res, w1)" by (cases o_res) auto
      with none wait_rounds_rounds [OF r] show ?thesis by (simp add: wait_rounds.simps)
    qed
    with r show ?thesis unfolding wait_round_hangs_iff by blast
  qed simp
next
  assume "rounds_forever K env ls w \<or> (\<exists>ls' w'. rounds K env ls w ls' w' \<and> hung K env ls' w')"
  then show "wait_rounds K env ls w = None"
  proof (elim disjE exE conjE)
    fix ls' w' assume "rounds K env ls w ls' w'" and "hung K env ls' w'"
    then show ?thesis
      unfolding wait_round_hangs_iff [symmetric] using wait_rounds_rounds [of K env ls w ls' w'] by (simp add: wait_rounds.simps)
  qed (rule wait_rounds_forever)
qed

section \<open>Properties\<close>

text \<open>C9. When the loop does not return. Given that every system call comes back (a call of the model always
  does), \<open>wait_loop\<close> fails to return in exactly these cases: a poll of the child's status is interrupted by
  signals for ever; it goes round for ever, every round with a pipe still open and with a wait for epoll; or
  after finitely many rounds it hangs in one, because the final wait for the child is interrupted for ever, or the
  handler of a reported event does not return: a readable pipe goes on delivering, or a write is always interrupted.
  In every other case it returns. In particular it never goes round for ever once the drain is done.\<close>

theorem wait_loop_progress:
  "wait_loop K n d R timeout grace cancel pg w = None \<longleftrightarrow>
     endless K (interrupts (Waitpid n WNOHANG)) w \<or>
     (\<exists>st w1 r w2. wait_step K (Process n) w = Some (Inr st, w1) \<and> sys K Clock w1 = (r, w2) \<and>
        (let env = loop_env n timeout grace cancel pg r; ls = loop_start d R st
         in rounds_forever K env ls w2 \<or> (\<exists>ls' w'. rounds K env ls w2 ls' w' \<and> hung K env ls' w')))"
proof (cases "wait_step K (Process n) w")
  case None
  with step_retry.hangs_iff [of K "Process n" w] show ?thesis by (simp add: wait_loop_def)
next
  case (Some y)
  then have no: "\<not> endless K (interrupts (Waitpid n WNOHANG)) w"
    using step_retry.hangs_iff [of K "Process n" w] by simp
  obtain x w1 where y: "y = (x, w1)" by fastforce
  obtain r w2 where c: "sys K Clock w1 = (r, w2)" by fastforce
  show ?thesis
  proof (cases x)
    case (Inl e)
    with Some y no show ?thesis by (simp add: wait_loop_def)
  next
    case (Inr st)
    have "wait_loop K n d R timeout grace cancel pg w
        = wait_rounds K (loop_env n timeout grace cancel pg r) (loop_start d R st) w2"
      using Some y c Inr by (simp add: wait_loop_def loop_env_def loop_start_def)
    then show ?thesis using Some y c Inr no by (simp add: wait_rounds_hangs_iff Let_def)
  qed
qed

end
