(* ===== verification/SpawnGuard.thy ===== *)
theory SpawnGuard
  imports SpawnOwn IoCalls
begin

text \<open>
  The protocol of the \<open>posix_spawn\<close> objects as a machine over the trace: file actions and attributes are
  used only while initialised, are destroyed exactly once on every path, and a child is made at most
  once, with both objects alive.
\<close>

section \<open>The parent's side only does I/O\<close>

lemma drop_fds_upkeep: "upkeep_only w (drop_opt_fd K a (drop_opt_fd K b w))"
  by (rule makes_trans [OF drop_opt_fd_upkeep drop_opt_fd_upkeep])

text \<open>Making the pipes is upkeep and \<open>pipe2\<close>.\<close>

definition pipe_call :: "call \<Rightarrow> bool" where
  "pipe_call c \<longleftrightarrow> upkeep_call c \<or> (\<exists>fl. c = Pipe2 fl)"

lemma upkeep_pipe: "upkeep_only w w' \<Longrightarrow> makes pipe_call w w'"
  by (erule makes_mono) (simp add: pipe_call_def)

lemma make_pipe_pipes:
  assumes "make_pipe K w = (res, w')"
  shows "makes pipe_call w w'"
proof -
  obtain r w1 where s: "sys K (Pipe2 (O_CLOEXEC OR O_NONBLOCK)) w = (r, w1)" by fastforce
  obtain a b where ab: "out_fds (r_out r) = (a, b)" by fastforce
  have i: "makes pipe_call w w1" using s by (rule makes_sys) (simp add: pipe_call_def)
  show ?thesis
    using assms s ab i makes_trans [OF i upkeep_pipe [OF drop_fd_upkeep]]
    by (auto simp: make_pipe_def split: sum.splits)
qed

lemma pipe_if_pipes: "pipe_if K wanted w = (res, w') \<Longrightarrow> makes pipe_call w w'"
  by (auto simp: pipe_if_def split: if_splits prod.splits sum.splits dest: make_pipe_pipes)

lemma pipes_new_pipes:
  assumes "pipes_new K in_buf out err w = (res, w')"
  shows "makes pipe_call w w'"
proof -
  obtain p1 w1 where s1: "pipe_if K (in_buf \<noteq> None) w = (p1, w1)" by fastforce
  obtain p2 w2 where s2: "pipe_if K out w1 = (p2, w2)" by fastforce
  obtain p3 w3 where s3: "pipe_if K err w2 = (p3, w3)" by fastforce
  note i1 = pipe_if_pipes [OF s1]
  note i2 = makes_trans [OF i1 pipe_if_pipes [OF s2]]
  note i3 = makes_trans [OF i2 pipe_if_pipes [OF s3]]
  have d2: "makes pipe_call w (drop_opt_fd K a (drop_opt_fd K b w2))" for a b
    by (rule makes_trans [OF i2 upkeep_pipe [OF drop_fds_upkeep]])
  have d3: "makes pipe_call w (drop_opt_fd K a (drop_opt_fd K b (drop_opt_fd K c (drop_opt_fd K d w3))))" for a b c d
    by (rule makes_trans [OF i3 upkeep_pipe [OF makes_trans [OF drop_fds_upkeep drop_fds_upkeep]]])
  show ?thesis
  proof (cases p1)
    case (Inl e)
    with assms s1 i1 show ?thesis by (auto simp: pipes_new_def)
  next
    case p1: (Inr x1)
    show ?thesis
    proof (cases p2)
      case (Inl e)
      with assms s1 s2 p1 d2 show ?thesis by (auto simp: pipes_new_def split: prod.splits)
    next
      case (Inr x2)
      with assms s1 s2 s3 p1 d3 i3 show ?thesis
        by (auto simp: pipes_new_def split: prod.splits sum.splits)
    qed
  qed
qed

lemma close_all_upkeep: "upkeep_only w (close_all K p w)"
  unfolding close_all_def
  by (rule makes_trans [OF makes_trans [OF drop_fds_upkeep drop_fds_upkeep] drop_fds_upkeep])

lemma drain_new_upkeep:
  assumes "drain_new K i buf o_fd e limit ee w = (res, w')"
  shows "upkeep_only w w'"
proof -
  define i0 where "i0 = (if i \<noteq> None \<and> buf \<noteq> None then i else None)"
  obtain r1 w1 where s1: "new_slot K i0 w = (r1, w1)" by fastforce
  obtain r2 w2 where s2: "new_slot K o_fd w1 = (r2, w2)" by fastforce
  obtain r3 w3 where s3: "new_slot K e w2 = (r3, w3)" by fastforce
  note i1 = new_slot_upkeep [OF s1]
  note i2 = makes_trans [OF i1 new_slot_upkeep [OF s2]]
  note i3 = makes_trans [OF i2 new_slot_upkeep [OF s3]]
  have d1: "upkeep_only w (drop_opt_fd K a (drop_opt_fd K b (drop_opt_fd K c w1)))" for a b c
    by (rule makes_trans [OF i1 makes_trans [OF drop_fds_upkeep drop_opt_fd_upkeep]])
  have d2: "upkeep_only w (drop_opt_fd K a (drop_opt_fd K b (drop_opt_fd K c (drop_slot K s w2))))" for a b c s
    by (rule makes_trans [OF i2 makes_trans [OF makes_trans [OF drop_slot_upkeep drop_fds_upkeep] drop_opt_fd_upkeep]])
  have d3: "upkeep_only w (drop_opt_fd K a (drop_opt_fd K b (drop_slot K s (drop_slot K t w3))))" for a b s t
    by (rule makes_trans [OF i3 makes_trans [OF makes_trans [OF drop_slot_upkeep drop_slot_upkeep] drop_fds_upkeep]])
  have d3': "upkeep_only w (drop_opt_fd K a w3)" for a
    by (rule makes_trans [OF i3 drop_opt_fd_upkeep])
  have eq: "new_slot K (if i \<noteq> None \<and> buf \<noteq> None then i else None) w = (r1, w1)" using s1 i0_def by simp
  show ?thesis
  proof (cases r1)
    case (Inl x)
    with assms eq d1 show ?thesis by (auto simp: drain_new_def Let_def)
  next
    case r1: (Inr x1)
    show ?thesis
    proof (cases r2)
      case (Inl x)
      with assms eq s2 r1 d2 show ?thesis by (auto simp: drain_new_def Let_def)
    next
      case r2: (Inr x2)
      with assms eq s2 s3 r1 d3 d3' show ?thesis
        by (cases r3) (auto simp: drain_new_def Let_def)
    qed
  qed
qed

lemma parent_drain_upkeep:
  assumes "parent_drain K opts p w = (res, w')"
  shows "upkeep_only w w'"
proof -
  let ?w3 = "drop_opt_fd K (stderr_w p) (drop_opt_fd K (stdout_w p) (drop_opt_fd K (stdin_r p) w))"
  have 3: "upkeep_only w ?w3" by (rule makes_trans [OF drop_fds_upkeep drop_opt_fd_upkeep])
  have 4: "upkeep_only w (drop_opt_fd K (stdin_w p) ?w3)" by (rule makes_trans [OF 3 drop_opt_fd_upkeep])
  show ?thesis
  proof (cases "so_stdin opts")
    case None
    with assms have "drain_new K None None (stdout_r p) (stderr_r p) (so_max_output opts)
      (map_option fn_closure (so_early_exit opts)) (drop_opt_fd K (stdin_w p) ?w3) = (res, w')"
      by (simp add: parent_drain_def Let_def)
    from makes_trans [OF 4 drain_new_upkeep [OF this]] show ?thesis .
  next
    case (Some buf)
    with assms have "drain_new K (stdin_w p) (Some buf) (stdout_r p) (stderr_r p) (so_max_output opts)
      (map_option fn_closure (so_early_exit opts)) ?w3 = (res, w')"
      by (simp add: parent_drain_def Let_def)
    from makes_trans [OF 3 drain_new_upkeep [OF this]] show ?thesis .
  qed
qed

lemmas close_all_io = close_all_upkeep [THEN upkeep_io]
lemmas drain_new_io = drain_new_upkeep [THEN upkeep_io]
lemmas parent_drain_io = parent_drain_upkeep [THEN upkeep_io]

section \<open>The machine\<close>

record guards =
  g_actions :: bool
  g_attr :: bool
  g_spawned :: bool

definition guard_step :: "call \<times> reply \<Rightarrow> guards \<Rightarrow> guards option" where
  "guard_step e G =
     (case fst e of
        FaInit \<Rightarrow> if g_actions G then None else Some (G\<lparr>g_actions := (r_ret (snd e) = 0)\<rparr>)
      | FaAddDup2 _ _ \<Rightarrow> if g_actions G then Some G else None
      | FaAddClose _ \<Rightarrow> if g_actions G then Some G else None
      | FaDestroy \<Rightarrow> if g_actions G then Some (G\<lparr>g_actions := False\<rparr>) else None
      | AttrInit \<Rightarrow> if g_attr G then None else Some (G\<lparr>g_attr := (r_ret (snd e) = 0)\<rparr>)
      | AttrSetpgroup _ \<Rightarrow> if g_attr G then Some G else None
      | AttrSetflags _ \<Rightarrow> if g_attr G then Some G else None
      | AttrSetsigmask _ \<Rightarrow> if g_attr G then Some G else None
      | AttrSetsigdefault _ \<Rightarrow> if g_attr G then Some G else None
      | AttrDestroy \<Rightarrow> if g_attr G then Some (G\<lparr>g_attr := False\<rparr>) else None
      | PosixSpawn _ _ _ \<Rightarrow>
          if g_actions G \<and> g_attr G \<and> \<not> g_spawned G then Some (G\<lparr>g_spawned := (r_ret (snd e) = 0)\<rparr>) else None
      | _ \<Rightarrow> Some G)"

abbreviation guarded :: "'k world \<Rightarrow> 'k world \<Rightarrow> guards \<Rightarrow> guards \<Rightarrow> bool" where
  "guarded \<equiv> tracks guard_step"

abbreviation guards_of :: "bool \<Rightarrow> bool \<Rightarrow> bool \<Rightarrow> guards" where
  "guards_of a b c \<equiv> \<lparr>g_actions = a, g_attr = b, g_spawned = c\<rparr>"

text \<open>Calls the machine allows in a state and that leave it there.\<close>

abbreviation keeps :: "guards \<Rightarrow> call \<Rightarrow> bool" where
  "keeps G c \<equiv> \<forall>r. guard_step (c, r) G = Some G"

interpretation object_guard: trace_machine guard_step keeps
  by unfold_locales blast

lemma io_guarded: "io_only w w' \<Longrightarrow> guarded w w' G G"
  by (erule object_guard.idle_makes) (auto simp: io_call_def guard_step_def split: call.splits)

lemma snd_tracks: "(\<And>r. f (c, r) s = Some s') \<Longrightarrow> tracks f w (snd (sys K c w)) s s'"
  by (metis tracks_sys prod.collapse)

text \<open>What the scan of inherited descriptors calls, for any class of calls.\<close>

lemma close_inherited_makes:
  assumes "close_inherited K h w = Some w'" and "P OpenFdDir" and "\<And>n. P (Fdopendir n)" and "\<And>n. P (Readdir n)"
    and "\<And>n. P (FaAddClose n)" and "\<And>n. P (Close n)" and "\<And>n. P (Closedir n)"
  shows "makes P w w'"
proof -
  obtain r w1 where s1: "sys K OpenFdDir w = (r, w1)" by fastforce
  have g1: "makes P w w1" using s1 assms(2) by (rule makes_sys)
  obtain d w2 where s2: "sys K (Fdopendir (r_ret r)) w1 = (d, w2)" by fastforce
  have g2: "makes P w w2" by (rule makes_trans [OF g1 makes_sys [OF s2]]) (rule assms(3))
  show ?thesis
  proof (cases "0 \<le> r_ret r")
    case False
    with assms(1) s1 g1 show ?thesis by (simp add: close_inherited_def)
  next
    case pos: True
    show ?thesis
    proof (cases "r_ret d = 0")
      case True
      with assms(1) s1 s2 pos have "w' = snd (sys K (Close (r_ret r)) w2)"
        by (simp add: close_inherited_def Let_def)
      with makes_trans [OF g2 makes_snd] assms(6) show ?thesis by metis
    next
      case False
      with assms(1) s1 s2 pos obtain w3 where sc: "scan_dir K (r_ret r) h w2 = Some w3"
        and w': "w' = snd (sys K (Closedir (r_ret r)) w3)"
        by (auto simp: close_inherited_def bind_Some_conv Let_def)
      have g3: "makes P w2 w3" using sc by (rule scan_dir_makes) (rule assms(4,5))+
      show ?thesis
        unfolding w' by (rule makes_trans [OF makes_trans [OF g2 g3] makes_snd]) (rule assms(7))
    qed
  qed
qed

lemma close_inherited_guarded: "close_inherited K h w = Some w' \<Longrightarrow> g_actions G \<Longrightarrow> guarded w w' G G"
  by (rule object_guard.idle_run, erule close_inherited_makes) (simp_all add: guard_step_def)

lemma actions_guarded:
  "g_actions G \<Longrightarrow> \<forall>x \<in> set (stdin_actions p @ stdout_actions p @ stderr_actions p). keeps G (fst x)"
  "g_attr G \<Longrightarrow> \<forall>x \<in> set (attr_actions pg). keeps G (fst x)"
  by (auto simp: stdin_actions_def stdout_actions_def stderr_actions_def attr_actions_def guard_step_def
      split: option.splits)

lemma destroy_guarded:
  "guarded w (attr_destroy K w) (guards_of True True b) (guards_of True False b)"
  "guarded w (fa_destroy K w) (guards_of True False b) (guards_of False False b)"
  unfolding attr_destroy_def fa_destroy_def by (rule snd_tracks, simp add: guard_step_def)+

lemma then_closed: "guarded w w1 G G' \<Longrightarrow> guarded w (close_all K p w1) G G'"
  by (erule tracks_trans) (rule io_guarded [OF close_all_io])

lemma posix_attrs_guarded:
  assumes "posix_attrs K opts p w = (res, w')"
  shows "\<exists>b. guarded w w' (guards_of True True False) (guards_of True False b) \<and> (is_ok res \<longrightarrow> b)"
proof -
  have set: "guarded w w1 (guards_of True True False) (guards_of True True False)"
    if "posix_calls K (attr_actions (so_pgroup opts)) w = (x, w1)" for x w1
    by (rule object_guard.idle_run [OF posix_calls_makes [OF that actions_guarded(2)]]) simp
  have made: "guarded w1 w2 (guards_of True True False) (guards_of True True (r_ret r = 0))"
    if "sys K (spawn_call opts) w1 = (r, w2)" for r w1 w2
    using that by (rule tracks_sys) (simp add: guard_step_def)
  show ?thesis
    using assms
  proof (cases rule: posix_attrs_cases)
    case (unset e w1)
    from tracks_trans [OF then_closed [OF set [OF unset(1)]] destroy_guarded(1)] show ?thesis
      unfolding unset(2,3) by (intro exI [of _ False]) simp
  next
    case (failed w1 r w2)
    from tracks_trans [OF set [OF failed(1)] made [OF failed(2)]] failed(3)
    have "guarded w w2 (guards_of True True False) (guards_of True True False)" by simp
    from tracks_trans [OF then_closed [OF this] destroy_guarded(1)] show ?thesis
      unfolding failed(4,5) by (intro exI [of _ False]) simp
  next
    case (spawned w1 r w2 dres w3)
    from tracks_trans [OF set [OF spawned(1)] made [OF spawned(2)]] spawned(3)
    have "guarded w w2 (guards_of True True False) (guards_of True True True)" by simp
    from tracks_trans [OF tracks_trans [OF this io_guarded [OF parent_drain_io [OF spawned(4)]]] destroy_guarded(1)]
    show ?thesis unfolding spawned(6) by (intro exI [of _ True]) simp
  qed
qed

text \<open>The way from the pipes to the attributes.\<close>

lemma pipes_guarded:
  assumes "pipes_new K in_buf out err w = (res, w')"
  shows "guarded w w' G G"
  by (rule object_guard.idle_makes [OF pipes_new_pipes [OF assms]])
    (auto simp: pipe_call_def upkeep_call_def guard_step_def split: call.splits)

lemma begin_guarded:
  assumes "pipes_new K in_buf out err w = (Inr p, w1)" and "sys K FaInit w1 = (r, w2)"
  shows "guarded w w2 (guards_of False False False) (guards_of (r_ret r = 0) False False)"
  by (rule tracks_trans [OF pipes_guarded [OF assms(1)]], rule tracks_sys [OF assms(2)]) (simp add: guard_step_def)

lemma add_guarded:
  assumes "posix_calls K (stdin_actions p @ stdout_actions p @ stderr_actions p) w = (x, w')"
  shows "guarded w w' (guards_of True False False) (guards_of True False False)"
  by (rule object_guard.idle_run [OF posix_calls_makes [OF assms actions_guarded(1)]]) simp

lemma scan_guarded:
  assumes "close_inherited K h w = Some w1" and "sys K AttrInit w1 = (a, w2)"
  shows "guarded w w2 (guards_of True False False) (guards_of True (r_ret a = 0) False)"
  by (rule tracks_trans [OF close_inherited_guarded [OF assms(1)]], simp, rule tracks_sys [OF assms(2)])
    (simp add: guard_step_def)

section \<open>Property\<close>

text \<open>C12. The \<open>posix_spawn\<close> objects. On every path through the backend the file actions and the attributes are
  used only between a successful initialisation and their single destruction, both are destroyed in the
  end, the child is made at most once and with both alive, and success means it was made.\<close>

theorem posix_objects_guarded:
  assumes "spawn_posix_internal K opts w = Some (res, w')"
  shows "\<exists>b. guarded w w' (guards_of False False False) (guards_of False False b) \<and> (is_ok res \<longrightarrow> b)"
  using assms
proof (cases rule: spawn_posix_cases)
  case (no_pipes e)
  from pipes_guarded [OF no_pipes(1)] no_pipes(2) show ?thesis by (intro exI [of _ False]) simp
next
  case (no_actions p w1 r w2)
  with then_closed [OF begin_guarded [OF no_actions(1,2)]] show ?thesis by (intro exI [of _ False]) simp
next
  case (not_added p w1 r w2 e w3)
  from begin_guarded [OF not_added(1,2)] not_added(3)
  have "guarded w w2 (guards_of False False False) (guards_of True False False)" by simp
  from tracks_trans [OF then_closed [OF tracks_trans [OF this add_guarded [OF not_added(4)]]] destroy_guarded(2)]
  show ?thesis unfolding not_added(5,6) by (intro exI [of _ False]) simp
next
  case (no_attrs p w1 r w2 w3 w4 a w5)
  from begin_guarded [OF no_attrs(1,2)] no_attrs(3)
  have "guarded w w2 (guards_of False False False) (guards_of True False False)" by simp
  from tracks_trans [OF tracks_trans [OF this add_guarded [OF no_attrs(4)]] scan_guarded [OF no_attrs(5,6)]] no_attrs(7)
  have "guarded w w5 (guards_of False False False) (guards_of True False False)" by simp
  from tracks_trans [OF then_closed [OF this] destroy_guarded(2)]
  show ?thesis unfolding no_attrs(8,9) by (intro exI [of _ False]) simp
next
  case (attrs p w1 r w2 w3 w4 a w5 w6)
  from begin_guarded [OF attrs(1,2)] attrs(3)
  have "guarded w w2 (guards_of False False False) (guards_of True False False)" by simp
  from tracks_trans [OF tracks_trans [OF this add_guarded [OF attrs(4)]] scan_guarded [OF attrs(5,6)]] attrs(7)
  have g: "guarded w w5 (guards_of False False False) (guards_of True True False)" by simp
  obtain b where b: "guarded w5 w6 (guards_of True True False) (guards_of True False b)" "is_ok res \<longrightarrow> b"
    using posix_attrs_guarded [OF attrs(8)] by blast
  from tracks_trans [OF tracks_trans [OF g b(1)] destroy_guarded(2)] b(2) show ?thesis
    unfolding attrs(9) by blast
qed

theorem posix_objects_guarded_witness:
  "\<exists>res w'. spawn_posix_internal fork_os (demo_options\<lparr>so_capture_stdout := False\<rparr>) \<lparr>kst = (), errno = 0, trace = []\<rparr>
       = Some (Inr res, w') \<and>
     guarded \<lparr>kst = (), errno = 0, trace = []\<rparr> w' (guards_of False False False) (guards_of False False True)"
proof -
  let ?w = "\<lparr>kst = (), errno = 0, trace = []\<rparr>"
  let ?o = "demo_options\<lparr>so_capture_stdout := False\<rparr>"
  obtain res w' where r: "spawn_posix_internal fork_os ?o ?w = Some (Inr res, w')"
    by (simp add: demo_options_def fork_os_def spawn_run spawn_posix_internal_def posix_attrs_def posix_ret_def
        stdin_actions_def stdout_actions_def stderr_actions_def close_inherited_def attr_actions_def
        handled_fds_def)
  from posix_objects_guarded [OF r] r show ?thesis by auto
qed

end
