(* ===== verification/SpawnChild.thy ===== *)
theory SpawnChild
  imports Spawn
begin

text \<open>
  What the started child sees. The calls of a run, as a list without replies, give the plan of the
  forked child and the file actions recorded for \<open>posix_spawn\<close>; both are executed on a table of open
  descriptors, so that the two backends can be compared.
\<close>

section \<open>The calls of a run\<close>

definition calls :: "'k world \<Rightarrow> 'k world \<Rightarrow> call list \<Rightarrow> bool" where
  "calls w w' cs \<longleftrightarrow> (\<exists>t. runs w w' t \<and> map fst t = cs)"

lemma calls_refl [simp]: "calls w w []"
  by (simp add: calls_def)

lemma calls_sys: "calls w (snd (sys K c w)) [c]"
proof -
  obtain r w1 where s: "sys K c w = (r, w1)" by fastforce
  show ?thesis unfolding s calls_def by (rule exI [of _ "[(c, r)]"]) (simp add: runs_sys [OF s])
qed

lemma calls_step: "sys K c w = (r, w1) \<Longrightarrow> calls w w1 [c]"
  by (metis calls_sys snd_conv)

lemma calls_trans: "calls w w1 cs \<Longrightarrow> calls w1 w2 ds \<Longrightarrow> calls w w2 (cs @ ds)"
  unfolding calls_def using runs_trans by fastforce

definition closes :: "fd option \<Rightarrow> call list" where
  "closes x = (case x of None \<Rightarrow> [] | Some f \<Rightarrow> if 0 \<le> raw f then [Close (raw f)] else [])"

lemma drop_opt_calls: "calls w (drop_opt_fd K x w) (closes x)"
  by (cases x) (simp_all add: drop_opt_fd_def drop_fd_def closes_def calls_sys)

section \<open>The plan of the forked child\<close>

definition dup_calls :: "fd option \<Rightarrow> fd option \<Rightarrow> int \<Rightarrow> call list" where
  "dup_calls used other target =
     (case (used, other) of (Some f, Some _) \<Rightarrow> [Dup2 (raw f) target] | _ \<Rightarrow> [])"

definition redirect_plan :: "pipes \<Rightarrow> call list" where
  "redirect_plan p =
     dup_calls (stdin_r p) (stdin_w p) 0 @ dup_calls (stdout_w p) (stdout_r p) 1 @
     dup_calls (stderr_w p) (stderr_r p) 2 @
     closes (stdin_r p) @ closes (stdin_w p) @ closes (stdout_r p) @ closes (stdout_w p) @
     closes (stderr_r p) @ closes (stderr_w p)"

definition exec_plan :: "spawn_options \<Rightarrow> call list" where
  "exec_plan opts =
     (case pg_leader (so_pgroup opts) of None \<Rightarrow> [] | Some pg \<Rightarrow> [Setpgid 0 pg]) @
     [Sigprocmask SIG_SETMASK {}, SignalDfl SIGPIPE,
      Execve (exe_of opts) (c_array (get_argv_ptrs (so_ctx opts)))
        (map_option c_array (get_envp_ptrs (so_ctx opts)))]"

definition setup_plan :: "spawn_options \<Rightarrow> call list" where
  "setup_plan opts =
     (if pg_isolated (so_pgroup opts) then [Setsid] else []) @
     (case ec_cwd (so_ctx opts) of None \<Rightarrow> [] | Some cwd \<Rightarrow> [Chdir cwd])"

lemma child_dup_calls: "calls w (child_dup K x y n w) (dup_calls x y n)"
  by (auto simp: child_dup_def dup_calls_def calls_sys split: option.split)

lemma close_all_calls:
  "calls w (close_all K p w) (closes (stdin_r p) @ closes (stdin_w p) @ closes (stdout_r p) @
     closes (stdout_w p) @ closes (stderr_r p) @ closes (stderr_w p))"
  unfolding close_all_def
  using calls_trans [OF calls_trans [OF calls_trans [OF calls_trans [OF calls_trans
    [OF drop_opt_calls drop_opt_calls] drop_opt_calls] drop_opt_calls] drop_opt_calls] drop_opt_calls]
  by (simp only: append_assoc)

lemma unblock_all_calls: "calls w (snd (unblock_all K w)) [Sigprocmask SIG_SETMASK {}]"
proof -
  have "snd (unblock_all K w) = snd (sys K (Sigprocmask SIG_SETMASK {}) w)"
    by (simp add: unblock_all_def empty_set_def split: prod.split)
  then show ?thesis by (simp add: calls_sys)
qed

text \<open>
  The end of the child with the replies that decide it: \<open>execve\<close> comes last if it does not return; if it
  returns, with an error, only \<open>_exit(127)\<close> follows. A failed \<open>chdir\<close> leads there directly.
\<close>

definition runs_program :: "spawn_options \<Rightarrow> event_log \<Rightarrow> bool" where
  "runs_program opts t \<longleftrightarrow>
     (\<exists>t0 r. map fst t0 = (case pg_leader (so_pgroup opts) of None \<Rightarrow> [] | Some pg \<Rightarrow> [Setpgid 0 pg]) @
          [Sigprocmask SIG_SETMASK {}, SignalDfl SIGPIPE] \<and>
        (let ex = (Execve (exe_of opts) (c_array (get_argv_ptrs (so_ctx opts)))
               (map_option c_array (get_envp_ptrs (so_ctx opts))), r)
         in if r_ret r < 0 then \<exists>q. t = t0 @ [ex, (ExitNow 127, q)] else t = t0 @ [ex]))"

definition enters_directory :: "spawn_options \<Rightarrow> event_log \<Rightarrow> bool" where
  "enters_directory opts t \<longleftrightarrow>
     (case ec_cwd (so_ctx opts) of
        None \<Rightarrow> runs_program opts t
      | Some cwd \<Rightarrow> \<exists>r t1. t = (Chdir cwd, r) # t1 \<and>
          (if r_ret r = 0 then runs_program opts t1 else map fst t1 = [ExitNow 127]))"

lemma runs_program_plan:
  "runs_program opts t \<Longrightarrow> map fst t = exec_plan opts \<or> map fst t = exec_plan opts @ [ExitNow 127]"
  by (auto simp: runs_program_def exec_plan_def Let_def split: if_splits)

lemma child_exec_program: "\<exists>t. runs w (child_exec K opts w) t \<and> runs_program opts t"
proof -
  let ?pg = "case pg_leader (so_pgroup opts) of None \<Rightarrow> [] | Some pg \<Rightarrow> [Setpgid 0 pg]"
  let ?w1 = "case pg_leader (so_pgroup opts) of None \<Rightarrow> w | Some pg \<Rightarrow> snd (sys K (Setpgid 0 pg) w)"
  let ?w3 = "reset_default K SIGPIPE (snd (unblock_all K ?w1))"
  let ?c = "Execve (exe_of opts) (c_array (get_argv_ptrs (so_ctx opts)))
      (map_option c_array (get_envp_ptrs (so_ctx opts)))"
  obtain r w4 where s: "sys K ?c ?w3 = (r, w4)" by fastforce
  obtain q w5 where x: "sys K (ExitNow 127) w4 = (q, w5)" by fastforce
  have m1: "calls w ?w1 ?pg" by (simp add: calls_sys split: option.split)
  have "calls w ?w3 (?pg @ [Sigprocmask SIG_SETMASK {}] @ [SignalDfl SIGPIPE])"
    unfolding reset_default_def
    using calls_trans [OF calls_trans [OF m1 unblock_all_calls] calls_sys] by (simp only: append_assoc)
  then obtain t0 where t0: "runs w ?w3 t0" "map fst t0 = ?pg @ [Sigprocmask SIG_SETMASK {}, SignalDfl SIGPIPE]"
    unfolding calls_def by auto
  note t4 = runs_trans [OF t0(1) runs_sys [OF s]]
  show ?thesis
  proof (cases "r_ret r < 0")
    case True
    with s x have "child_exec K opts w = w5" by (simp add: child_exec_def Let_def)
    moreover have "runs_program opts (t0 @ [(?c, r), (ExitNow 127, q)])"
      unfolding runs_program_def Let_def using t0(2) True by (intro exI [of _ t0] exI [of _ r]) simp
    ultimately show ?thesis using runs_trans [OF t4 runs_sys [OF x]] by auto
  next
    case False
    with s have "child_exec K opts w = w4" by (simp add: child_exec_def Let_def)
    moreover have "runs_program opts (t0 @ [(?c, r)])"
      unfolding runs_program_def Let_def using t0(2) False by (intro exI [of _ t0] exI [of _ r]) simp
    ultimately show ?thesis using t4 by blast
  qed
qed

text \<open>The part of the child before its own session and directory: redirection and the closing of the rest.\<close>

abbreviation child_redirected :: "'k os \<Rightarrow> pipes \<Rightarrow> 'k world \<Rightarrow> 'k world" where
  "child_redirected K p w \<equiv> close_range_fast K None (close_all K p
     (child_dup K (stderr_w p) (stderr_r p) 2 (child_dup K (stdout_w p) (stdout_r p) 1
       (child_dup K (stdin_r p) (stdin_w p) 0 w))))"

lemma child_redirected_calls:
  "calls w (child_redirected K p w) (redirect_plan p @ [CloseRange 3 (2 ^ 32 - 1) 0])"
proof -
  have "calls w (close_all K p (child_dup K (stderr_w p) (stderr_r p) 2 (child_dup K (stdout_w p) (stdout_r p) 1
      (child_dup K (stdin_r p) (stdin_w p) 0 w)))) (redirect_plan p)"
    using calls_trans [OF calls_trans [OF calls_trans [OF child_dup_calls child_dup_calls] child_dup_calls]
        close_all_calls]
    by (simp add: redirect_plan_def)
  moreover have "as_uint (-1) = 2 ^ 32 - 1" by (simp add: as_uint_def uint_word_ariths)
  ultimately show ?thesis
    unfolding close_range_fast_def option.case using calls_trans [OF _ calls_sys] by metis
qed

lemma child_run_events:
  "\<exists>t0 t1. runs w (child_run K opts p w) (t0 @ t1) \<and>
     map fst t0 = redirect_plan p @ [CloseRange 3 (2 ^ 32 - 1) 0] @ (if pg_isolated (so_pgroup opts) then [Setsid] else []) \<and>
     enters_directory opts t1"
proof -
  let ?session = "if pg_isolated (so_pgroup opts) then [Setsid] else []"
  let ?w5 = "child_redirected K p w"
  let ?w6 = "if pg_isolated (so_pgroup opts) then snd (sys K Setsid ?w5) else ?w5"
  note m5 = child_redirected_calls [of w K p]
  have "calls w ?w6 (redirect_plan p @ [CloseRange 3 (2 ^ 32 - 1) 0] @ ?session)"
    using calls_trans [OF m5 calls_sys [of ?w5 K Setsid]] m5 by simp
  then obtain t0 where t0: "runs w ?w6 t0" "map fst t0 = redirect_plan p @ [CloseRange 3 (2 ^ 32 - 1) 0] @ ?session"
    unfolding calls_def by blast
  have "\<exists>t1. runs ?w6 (child_run K opts p w) t1 \<and> enters_directory opts t1"
  proof (cases "ec_cwd (so_ctx opts)")
    case None
    then have "child_run K opts p w = child_exec K opts ?w6" by (simp add: child_run_def Let_def)
    with child_exec_program [of ?w6 K opts] None show ?thesis by (auto simp: enters_directory_def)
  next
    case (Some cwd)
    obtain r w7 where s: "sys K (Chdir cwd) ?w6 = (r, w7)" by fastforce
    note t7 = runs_sys [OF s]
    show ?thesis
    proof (cases "r_ret r = 0")
      case True
      with Some s have e: "child_run K opts p w = child_exec K opts w7" by (simp add: child_run_def Let_def)
      obtain t1 where "runs w7 (child_exec K opts w7) t1" "runs_program opts t1" using child_exec_program by blast
      with runs_trans [OF t7, of _ t1] Some True show ?thesis
        unfolding e by (intro exI [of _ "(Chdir cwd, r) # t1"]) (simp add: enters_directory_def)
    next
      case False
      obtain q w8 where x: "sys K (ExitNow 127) w7 = (q, w8)" by fastforce
      with Some s False have e: "child_run K opts p w = w8" by (simp add: child_run_def Let_def)
      from runs_trans [OF t7 runs_sys [OF x]] Some False show ?thesis
        unfolding e by (intro exI [of _ "[(Chdir cwd, r), (ExitNow 127, q)]"]) (simp add: enters_directory_def)
    qed
  qed
  with t0 show ?thesis using runs_trans by blast
qed

lemma enters_directory_plan:
  assumes "enters_directory opts t"
  shows "\<exists>cs. (if pg_isolated (so_pgroup opts) then [Setsid] else []) @ map fst t = setup_plan opts @ cs \<and>
     (cs = exec_plan opts \<or> cs = exec_plan opts @ [ExitNow 127] \<or>
      cs = [ExitNow 127] \<and> ec_cwd (so_ctx opts) \<noteq> None)"
proof (cases "ec_cwd (so_ctx opts)")
  case None
  with assms runs_program_plan [of opts t] show ?thesis by (auto simp: enters_directory_def setup_plan_def)
next
  case (Some cwd)
  with assms obtain r t1 where "t = (Chdir cwd, r) # t1"
    and "if r_ret r = 0 then runs_program opts t1 else map fst t1 = [ExitNow 127]"
    by (auto simp: enters_directory_def)
  with Some runs_program_plan [of opts t1] show ?thesis
    by (intro exI [of _ "map fst t1"]) (auto simp: setup_plan_def split: if_splits)
qed

lemma child_run_calls:
  "\<exists>cs. calls w (child_run K opts p w) (redirect_plan p @ [CloseRange 3 (2 ^ 32 - 1) 0] @ setup_plan opts @ cs) \<and>
     (cs = exec_plan opts \<or> cs = exec_plan opts @ [ExitNow 127] \<or>
      cs = [ExitNow 127] \<and> ec_cwd (so_ctx opts) \<noteq> None)"
proof -
  obtain t0 t1 where t: "runs w (child_run K opts p w) (t0 @ t1)"
    "map fst t0 = redirect_plan p @ [CloseRange 3 (2 ^ 32 - 1) 0] @ (if pg_isolated (so_pgroup opts) then [Setsid] else [])"
    "enters_directory opts t1"
    using child_run_events by blast
  with enters_directory_plan [OF t(3)] show ?thesis
    unfolding calls_def by (metis append_assoc map_append)
qed

section \<open>The file actions recorded for posix_spawn\<close>

definition is_action :: "call \<Rightarrow> bool" where
  "is_action c \<longleftrightarrow> (case c of FaAddDup2 _ _ \<Rightarrow> True | FaAddClose _ \<Rightarrow> True | _ \<Rightarrow> False)"

definition dir_names :: "event_log \<Rightarrow> byte list list" where
  "dir_names t = concat (map (\<lambda>(c, r). case c of
     Readdir _ \<Rightarrow> if r_ret r = 0 then [] else [out_bytes (r_out r)] | _ \<Rightarrow> []) t)"

definition close_plan :: "int \<Rightarrow> int list \<Rightarrow> byte list list \<Rightarrow> call list" where
  "close_plan dir_fd handled names = map FaAddClose (List.map_filter (inherited dir_fd handled) names)"

lemma close_plan_simps [simp]:
  "close_plan n h [] = []"
  "close_plan n h (x # xs) = (case inherited n h x of None \<Rightarrow> [] | Some m \<Rightarrow> [FaAddClose m]) @ close_plan n h xs"
  by (simp_all add: close_plan_def split: option.split)

definition scan_run :: "int \<Rightarrow> int list \<Rightarrow> 'k world \<Rightarrow> 'k world \<Rightarrow> bool" where
  "scan_run n h w w' \<longleftrightarrow>
     (\<exists>t. runs w w' t \<and> filter is_action (map fst t) = close_plan n h (dir_names t))"

lemma scan_dir_runs: "scan_dir K n h w = Some w' \<Longrightarrow> scan_run n h w w'"
proof (rule scan_dir.raw_induct [where P = "\<lambda>K. scan_run"], goal_cases)
  case (1 loop K n h w w')
  note IH = 1(2) and eq = 1(3)
  obtain r w1 where s: "sys K (Readdir n) w = (r, w1)" by fastforce
  note run1 = runs_sys [OF s]
  show "scan_run n h w w'"
  proof (cases "r_ret r = 0")
    case True
    with eq s run1 show ?thesis
      unfolding scan_run_def
      by (intro exI [of _ "[(Readdir n, r)]"]) (simp add: is_action_def dir_names_def)
  next
    case more: False
    show ?thesis
    proof (cases "inherited n h (out_bytes (r_out r))")
      case None
      with eq s more have "loop K n h w1 = Some w'" by simp
      from IH [OF this] obtain t where t: "runs w1 w' t"
        "filter is_action (map fst t) = close_plan n h (dir_names t)" unfolding scan_run_def by blast
      from runs_trans [OF run1 t(1)] t(2) None more show ?thesis
        unfolding scan_run_def
        by (intro exI [of _ "(Readdir n, r) # t"]) (simp add: is_action_def dir_names_def)
    next
      case (Some m)
      obtain q w2 where s2: "sys K (FaAddClose m) w1 = (q, w2)" by fastforce
      with eq s more Some have "loop K n h w2 = Some w'" by simp
      from IH [OF this] obtain t where t: "runs w2 w' t"
        "filter is_action (map fst t) = close_plan n h (dir_names t)" unfolding scan_run_def by blast
      from runs_trans [OF runs_trans [OF run1 runs_sys [OF s2]] t(1)] t(2) Some more show ?thesis
        unfolding scan_run_def
        by (intro exI [of _ "(Readdir n, r) # (FaAddClose m, q) # t"]) (simp add: is_action_def dir_names_def)
    qed
  qed
qed

section \<open>Tables of open descriptors\<close>

text \<open>The effect of a successful call, or of a file action, on the table.\<close>

fun fd_effect :: "call \<Rightarrow> (int \<Rightarrow> 'f option) \<Rightarrow> int \<Rightarrow> 'f option" where
  "fd_effect (Dup2 a b) T = T(b := T a)"
| "fd_effect (FaAddDup2 a b) T = T(b := T a)"
| "fd_effect (Close n) T = T(n := None)"
| "fd_effect (FaAddClose n) T = T(n := None)"
| "fd_effect (CloseRange lo hi fl) T = (\<lambda>n. if lo \<le> n \<and> n \<le> hi then None else T n)"
| "fd_effect _ T = T"

definition fd_table :: "call list \<Rightarrow> (int \<Rightarrow> 'f option) \<Rightarrow> int \<Rightarrow> 'f option" where
  "fd_table cs T = fold fd_effect cs T"

lemma fd_table_simps [simp]:
  "fd_table [] T = T" "fd_table (c # cs) T = fd_table cs (fd_effect c T)"
  "fd_table (cs @ ds) T = fd_table ds (fd_table cs T)"
  by (simp_all add: fd_table_def)

text \<open>What the caller asked for: the pipe ends in the places of the standard streams, nothing else
  of the pipes left.\<close>

definition redirected :: "pipes \<Rightarrow> (int \<Rightarrow> 'f option) \<Rightarrow> int \<Rightarrow> 'f option" where
  "redirected p T n =
     (if n = 0 then (case stdin_r p of None \<Rightarrow> T 0 | Some f \<Rightarrow> T (raw f))
      else if n = 1 then (case stdout_w p of None \<Rightarrow> T 1 | Some f \<Rightarrow> T (raw f))
      else if n = 2 then (case stderr_w p of None \<Rightarrow> T 2 | Some f \<Rightarrow> T (raw f))
      else if n \<in> set (handled_fds p) then None else T n)"

text \<open>Pipes as \<open>pipe2\<close> makes them while 0, 1 and 2 are in use.\<close>

definition pipes_fresh :: "pipes \<Rightarrow> bool" where
  "pipes_fresh p \<longleftrightarrow>
     (stdin_r p = None \<longleftrightarrow> stdin_w p = None) \<and> (stdout_r p = None \<longleftrightarrow> stdout_w p = None) \<and>
     (stderr_r p = None \<longleftrightarrow> stderr_w p = None) \<and>
     distinct (handled_fds p) \<and> (\<forall>n \<in> set (handled_fds p). 2 < n)"

text \<open>
  One stream: the end the child uses and the other one, and what either backend does to the table for
  it. \<open>posix_spawn\<close> closes a stream's ends at once, the forked child at the end.
\<close>

definition ends :: "(int \<times> int) option \<Rightarrow> int set" where
  "ends x = (case x of None \<Rightarrow> {} | Some (u, v) \<Rightarrow> {u, v})"

definition used :: "int \<Rightarrow> (int \<times> int) option \<Rightarrow> (int \<Rightarrow> 'f option) \<Rightarrow> 'f option" where
  "used tgt x T = (case x of None \<Rightarrow> T tgt | Some (u, v) \<Rightarrow> T u)"

definition stream_posix :: "int \<Rightarrow> (int \<times> int) option \<Rightarrow> (int \<Rightarrow> 'f option) \<Rightarrow> int \<Rightarrow> 'f option" where
  "stream_posix tgt x T = (case x of None \<Rightarrow> T | Some (u, v) \<Rightarrow> T(tgt := T u, u := None, v := None))"

definition stream_dup :: "int \<Rightarrow> (int \<times> int) option \<Rightarrow> (int \<Rightarrow> 'f option) \<Rightarrow> int \<Rightarrow> 'f option" where
  "stream_dup tgt x T = (case x of None \<Rightarrow> T | Some (u, v) \<Rightarrow> T(tgt := T u))"

definition stream_close :: "(int \<times> int) option \<Rightarrow> (int \<Rightarrow> 'f option) \<Rightarrow> int \<Rightarrow> 'f option" where
  "stream_close x T = (\<lambda>n. if n \<in> ends x then None else T n)"

lemma stream_posix_apply:
  "tgt \<notin> ends x \<Longrightarrow> stream_posix tgt x T n =
     (if n = tgt then used tgt x T else if n \<in> ends x then None else T n)"
  by (auto simp: stream_posix_def ends_def used_def split: option.splits)

lemma stream_dup_apply: "stream_dup tgt x T n = (if n = tgt then used tgt x T else T n)"
  by (auto simp: stream_dup_def used_def split: option.splits)

lemma used_cong: "\<forall>n \<in> insert tgt (ends x). T n = T' n \<Longrightarrow> used tgt x T = used tgt x T'"
  by (auto simp: used_def ends_def split: option.splits)

definition streams_fresh :: "(int \<times> int) option \<Rightarrow> (int \<times> int) option \<Rightarrow> (int \<times> int) option \<Rightarrow> bool" where
  "streams_fresh i out e \<longleftrightarrow>
     ends i \<inter> ends out = {} \<and> ends i \<inter> ends e = {} \<and> ends out \<inter> ends e = {} \<and>
     (\<forall>n \<in> ends i \<union> ends out \<union> ends e. 2 < n)"

definition wanted ::
  "(int \<times> int) option \<Rightarrow> (int \<times> int) option \<Rightarrow> (int \<times> int) option \<Rightarrow> (int \<Rightarrow> 'f option) \<Rightarrow> int \<Rightarrow> 'f option" where
  "wanted i out e T n =
     (if n = 0 then used 0 i T else if n = 1 then used 1 out T else if n = 2 then used 2 e T
      else if n \<in> ends i \<union> ends out \<union> ends e then None else T n)"

lemma stream_posix_wanted:
  assumes "streams_fresh i out e"
  shows "stream_posix 2 e (stream_posix 1 out (stream_posix 0 i T)) = wanted i out e T"
proof
  fix n
  have std: "k \<notin> ends i \<union> ends out \<union> ends e" if "k \<in> {0, 1, 2}" for k
  proof -
    have "2 < k" if "k \<in> ends i \<union> ends out \<union> ends e"
      using assms that unfolding streams_fresh_def by blast
    with that show ?thesis by auto
  qed
  then have t: "0 \<notin> ends i" "1 \<notin> ends out" "2 \<notin> ends e" by auto
  have o1: "used 1 out (stream_posix 0 i T) = used 1 out T"
    by (rule used_cong) (use assms std in \<open>auto simp: streams_fresh_def stream_posix_apply [OF t(1)]\<close>)
  have "used 2 e (stream_posix 1 out (stream_posix 0 i T)) = used 2 e T"
    by (rule used_cong)
      (use assms std in \<open>auto simp: streams_fresh_def stream_posix_apply [OF t(1)] stream_posix_apply [OF t(2)]\<close>)
  with o1 std show "stream_posix 2 e (stream_posix 1 out (stream_posix 0 i T)) n = wanted i out e T n"
    by (auto simp: wanted_def stream_posix_apply t)
qed

lemma stream_fork_wanted:
  assumes "streams_fresh i out e"
  shows "stream_close e (stream_close out (stream_close i
           (stream_dup 2 e (stream_dup 1 out (stream_dup 0 i T))))) = wanted i out e T"
proof
  fix n
  have std: "k \<notin> ends i \<union> ends out \<union> ends e" if "k \<in> {0, 1, 2}" for k
  proof -
    have "2 < k" if "k \<in> ends i \<union> ends out \<union> ends e"
      using assms that unfolding streams_fresh_def by blast
    with that show ?thesis by auto
  qed
  have o1: "used 1 out (stream_dup 0 i T) = used 1 out T"
    by (rule used_cong) (use std in \<open>auto simp: stream_dup_apply\<close>)
  have "used 2 e (stream_dup 1 out (stream_dup 0 i T)) = used 2 e T"
    by (rule used_cong) (use std in \<open>auto simp: stream_dup_apply\<close>)
  with o1 std show "stream_close e (stream_close out (stream_close i
           (stream_dup 2 e (stream_dup 1 out (stream_dup 0 i T))))) n = wanted i out e T n"
    by (auto simp: wanted_def stream_dup_apply stream_close_def)
qed

text \<open>The streams of a set of pipes: stdin is read by the child, the others are written.\<close>

definition stream_of_fds :: "fd option \<Rightarrow> fd option \<Rightarrow> (int \<times> int) option" where
  "stream_of_fds u v = (case (u, v) of (Some a, Some b) \<Rightarrow> Some (raw a, raw b) | _ \<Rightarrow> None)"

lemma fresh_streams:
  assumes "pipes_fresh p"
  shows "streams_fresh (stream_of_fds (stdin_r p) (stdin_w p)) (stream_of_fds (stdout_w p) (stdout_r p))
           (stream_of_fds (stderr_w p) (stderr_r p))"
    and "redirected p T = wanted (stream_of_fds (stdin_r p) (stdin_w p))
           (stream_of_fds (stdout_w p) (stdout_r p)) (stream_of_fds (stderr_w p) (stderr_r p)) T"
proof -
  have f: "stdin_r p = None \<longleftrightarrow> stdin_w p = None" "stdout_r p = None \<longleftrightarrow> stdout_w p = None"
    "stderr_r p = None \<longleftrightarrow> stderr_w p = None" "distinct (handled_fds p)" "\<forall>n \<in> set (handled_fds p). 2 < n"
    using assms unfolding pipes_fresh_def by blast+
  have u: "used k (stream_of_fds a b) T = (case a of None \<Rightarrow> T k | Some f \<Rightarrow> T (raw f))"
    if "a = None \<longleftrightarrow> b = None" for a b k and T :: "int \<Rightarrow> 'f option"
    using that by (auto simp: used_def stream_of_fds_def split: option.splits)
  have both: "a = None \<and> b = None \<or> (\<exists>x y. a = Some x \<and> b = Some y)"
    if "a = None \<longleftrightarrow> b = None" for a b :: "fd option"
    using that by auto
  have h: "set (handled_fds p) = ends (stream_of_fds (stdin_r p) (stdin_w p)) \<union>
      ends (stream_of_fds (stdout_w p) (stdout_r p)) \<union> ends (stream_of_fds (stderr_w p) (stderr_r p))"
    using both [OF f(1)] both [OF f(2)] both [OF f(3)]
    by (elim disjE exE conjE) (auto simp: ends_def stream_of_fds_def handled_fds_def)
  show "redirected p T = wanted (stream_of_fds (stdin_r p) (stdin_w p))
           (stream_of_fds (stdout_w p) (stdout_r p)) (stream_of_fds (stderr_w p) (stderr_r p)) T"
    using f(1-3) by (auto simp: fun_eq_iff redirected_def wanted_def h u)
  show "streams_fresh (stream_of_fds (stdin_r p) (stdin_w p)) (stream_of_fds (stdout_w p) (stdout_r p))
           (stream_of_fds (stderr_w p) (stderr_r p))"
    using both [OF f(1)] both [OF f(2)] both [OF f(3)] f(4,5)
    by (elim disjE exE conjE)
      (simp_all add: streams_fresh_def stream_of_fds_def ends_def handled_fds_def)
qed

lemma posix_redirects:
  fixes T :: "int \<Rightarrow> 'f option"
  assumes "pipes_fresh p"
  shows "fd_table (map fst (stdin_actions p @ stdout_actions p @ stderr_actions p)) T = redirected p T"
proof -
  have "fd_table (map fst (stdin_actions p)) T = stream_posix 0 (stream_of_fds (stdin_r p) (stdin_w p)) T"
    "fd_table (map fst (stdout_actions p)) T = stream_posix 1 (stream_of_fds (stdout_w p) (stdout_r p)) T"
    "fd_table (map fst (stderr_actions p)) T = stream_posix 2 (stream_of_fds (stderr_w p) (stderr_r p)) T"
    for T :: "int \<Rightarrow> 'f option"
    by (auto simp: stdin_actions_def stdout_actions_def stderr_actions_def stream_posix_def
        stream_of_fds_def split: option.split)
  then show ?thesis
    by (simp add: fresh_streams(2) [OF assms] stream_posix_wanted [OF fresh_streams(1) [OF assms]])
qed

lemma fork_redirects:
  fixes T :: "int \<Rightarrow> 'f option"
  assumes "pipes_fresh p"
  shows "fd_table (redirect_plan p) T = redirected p T"
proof -
  have d: "fd_table (dup_calls a b k) T = stream_dup k (stream_of_fds a b) T" for a b k and T :: "int \<Rightarrow> 'f option"
    by (auto simp: dup_calls_def stream_dup_def stream_of_fds_def split: option.split)
  have ge: "\<forall>n \<in> set (handled_fds p). 0 \<le> n"
    using assms unfolding pipes_fresh_def by force
  have pos: "\<forall>f \<in> set_option (stdin_r p). 0 \<le> raw f" "\<forall>f \<in> set_option (stdin_w p). 0 \<le> raw f"
    "\<forall>f \<in> set_option (stdout_r p). 0 \<le> raw f" "\<forall>f \<in> set_option (stdout_w p). 0 \<le> raw f"
    "\<forall>f \<in> set_option (stderr_r p). 0 \<le> raw f" "\<forall>f \<in> set_option (stderr_w p). 0 \<le> raw f"
    using ge by (auto simp: handled_fds_def)
  have c: "fd_table (closes a) (fd_table (closes b) T) = stream_close (stream_of_fds x y) T"
    if "a = None \<longleftrightarrow> b = None" "\<forall>f \<in> set_option a. 0 \<le> raw f" "\<forall>f \<in> set_option b. 0 \<le> raw f"
      "x = a \<and> y = b \<or> x = b \<and> y = a" for a b x y and T :: "int \<Rightarrow> 'f option"
    using that by (auto simp: closes_def stream_close_def stream_of_fds_def ends_def fun_eq_iff split: option.splits)
  have n: "stdin_r p = None \<longleftrightarrow> stdin_w p = None" "stdout_r p = None \<longleftrightarrow> stdout_w p = None"
    "stderr_r p = None \<longleftrightarrow> stderr_w p = None"
    using assms unfolding pipes_fresh_def by blast+
  have cs: "fd_table (closes (stdin_w p)) (fd_table (closes (stdin_r p)) T)
        = stream_close (stream_of_fds (stdin_r p) (stdin_w p)) T"
    "fd_table (closes (stdout_w p)) (fd_table (closes (stdout_r p)) T)
        = stream_close (stream_of_fds (stdout_w p) (stdout_r p)) T"
    "fd_table (closes (stderr_w p)) (fd_table (closes (stderr_r p)) T)
        = stream_close (stream_of_fds (stderr_w p) (stderr_r p)) T" for T :: "int \<Rightarrow> 'f option"
    by (rule c; simp add: n pos)+
  have "fd_table (redirect_plan p) T = stream_close (stream_of_fds (stderr_w p) (stderr_r p))
      (stream_close (stream_of_fds (stdout_w p) (stdout_r p))
        (stream_close (stream_of_fds (stdin_r p) (stdin_w p))
          (stream_dup 2 (stream_of_fds (stderr_w p) (stderr_r p))
            (stream_dup 1 (stream_of_fds (stdout_w p) (stdout_r p))
              (stream_dup 0 (stream_of_fds (stdin_r p) (stdin_w p)) T)))))"
    unfolding redirect_plan_def fd_table_simps d cs ..
  then show ?thesis
    by (simp add: fresh_streams(2) [OF assms] stream_fork_wanted [OF fresh_streams(1) [OF assms]])
qed

section \<open>The whole child\<close>

lemma calls_unique: "calls w w' cs \<Longrightarrow> calls w w' ds \<Longrightarrow> cs = ds"
  unfolding calls_def using runs_unique by blast

lemma setup_effect [simp]:
  "fd_table (setup_plan opts) T = T" "fd_table (exec_plan opts) T = T" "fd_table [ExitNow 127] T = T"
  by (simp_all add: setup_plan_def exec_plan_def split: option.split)

definition child_fds :: "pipes \<Rightarrow> (int \<Rightarrow> 'f option) \<Rightarrow> int \<Rightarrow> 'f option" where
  "child_fds p T n = (if 2 < n then None else redirected p T n)"

lemma redirected_high: "T n = None \<Longrightarrow> n \<notin> {0, 1, 2} \<Longrightarrow> redirected p T n = None"
  by (auto simp: redirected_def)

lemma fork_child_table:
  fixes T :: "int \<Rightarrow> 'f option"
  assumes "pipes_fresh p" and "calls w (child_run K opts p w) cs" and "\<forall>n. T n \<noteq> None \<longrightarrow> n < 2 ^ 31"
  shows "fd_table cs T = child_fds p T"
proof -
  obtain tl where "calls w (child_run K opts p w)
      (redirect_plan p @ [CloseRange 3 (2 ^ 32 - 1) 0] @ setup_plan opts @ tl)"
    and tl: "tl = exec_plan opts \<or> tl = exec_plan opts @ [ExitNow 127] \<or> tl = [ExitNow 127]"
    using child_run_calls [of w K opts p] by blast
  then have cs: "cs = redirect_plan p @ [CloseRange 3 (2 ^ 32 - 1) 0] @ setup_plan opts @ tl"
    using calls_unique assms(2) by blast
  have "fd_table cs T = fd_table [CloseRange 3 (2 ^ 32 - 1) 0] (redirected p T)"
    using tl by (auto simp: cs fork_redirects [OF assms(1)])
  also have "\<dots> = child_fds p T"
  proof
    fix n
    have "redirected p T n = None" if "2 ^ 32 - 1 < n"
    proof (rule redirected_high)
      show "T n = None" using assms(3) that by fastforce
    qed (use that in auto)
    then show "fd_table [CloseRange 3 (2 ^ 32 - 1) 0] (redirected p T) n = child_fds p T n"
      by (auto simp: child_fds_def)
  qed
  finally show ?thesis .
qed

lemma close_plan_table:
  "fd_table (close_plan d h names) T n = (if n \<in> set (List.map_filter (inherited d h) names) then None else T n)"
proof (induction names arbitrary: T)
  case Nil
  then show ?case by simp
next
  case (Cons x xs)
  then show ?case
    by (cases "inherited d h x") (auto simp: List.map_filter_simps)
qed

lemma inherited_show:
  assumes "2 < n" and "n < 2 ^ 31" and "n \<noteq> d" and "n \<notin> set h"
  shows "inherited d h (show_int n) = Some n"
proof -
  have s: "show_int n = show_nat (nat n)" using assms(1) by (simp add: show_int_def)
  have dig: "set (show_nat (nat n)) \<subseteq> {b. 48 \<le> b \<and> b \<le> 57}" "show_nat (nat n) \<noteq> []"
    using show_nat_digits by blast+
  have "valid_utf8 (show_int n)"
    unfolding s by (rule ascii_valid) (use dig(1) in \<open>fastforce simp: word_le_nat_alt word_less_nat_alt\<close>)
  moreover have "parse_i32 (show_int n) = Some n"
  proof -
    obtain b bs where b: "show_nat (nat n) = b # bs" using dig(2) by (cases "show_nat (nat n)") auto
    then have "48 \<le> b" using dig(1) by auto
    then have "b \<noteq> 43" "b \<noteq> 45" by auto
    moreover have "parse_digits (2 ^ 31 - 1) 0 (show_nat (nat n)) = Some n"
      using parse_show_nat [of "nat n" "2 ^ 31 - 1"] assms(1,2) by simp
    ultimately show ?thesis unfolding s b by (simp add: parse_i32_def)
  qed
  ultimately show ?thesis using assms by (simp add: inherited_def from_utf8_def)
qed

lemma inherited_high: "inherited d h x = Some n \<Longrightarrow> 2 < n"
  by (auto simp: inherited_def split: option.splits if_splits)

lemma close_inherited_plan:
  assumes "close_inherited K h w = Some w'" and "runs w w' t"
  shows "\<exists>r. (OpenFdDir, r) \<in> set t \<and> filter is_action (map fst t) = close_plan (r_ret r) h (dir_names t)"
proof -
  obtain r w1 where s1: "sys K OpenFdDir w = (r, w1)" by fastforce
  note e1 = runs_sys [OF s1]
  show ?thesis
  proof (cases "0 \<le> r_ret r")
    case False
    with assms(1) s1 have "w' = w1" by (simp add: close_inherited_def)
    with e1 assms(2) have "t = [(OpenFdDir, r)]" using runs_unique by blast
    then show ?thesis by (simp add: is_action_def dir_names_def)
  next
    case pos: True
    obtain d w2 where s2: "sys K (Fdopendir (r_ret r)) w1 = (d, w2)" by fastforce
    note e2 = runs_trans [OF e1 runs_sys [OF s2]]
    show ?thesis
    proof (cases "r_ret d = 0")
      case True
      obtain q w3 where s3: "sys K (Close (r_ret r)) w2 = (q, w3)" by fastforce
      with assms(1) s1 s2 pos True have "w' = w3" by (simp add: close_inherited_def)
      with runs_trans [OF e2 runs_sys [OF s3]] assms(2)
      have "t = [(OpenFdDir, r), (Fdopendir (r_ret r), d), (Close (r_ret r), q)]"
        using runs_unique by fastforce
      then show ?thesis by (simp add: is_action_def dir_names_def)
    next
      case False
      with assms(1) s1 s2 pos obtain w3 where sc: "scan_dir K (r_ret r) h w2 = Some w3"
        and w': "w' = snd (sys K (Closedir (r_ret r)) w3)"
        by (auto simp: close_inherited_def bind_Some_conv Let_def)
      obtain u where u: "runs w2 w3 u" "filter is_action (map fst u) = close_plan (r_ret r) h (dir_names u)"
        using scan_dir_runs [OF sc] unfolding scan_run_def by blast
      obtain q w4 where s4: "sys K (Closedir (r_ret r)) w3 = (q, w4)" by fastforce
      with w' have "w' = w4" by simp
      with runs_trans [OF runs_trans [OF e2 u(1)] runs_sys [OF s4]] assms(2)
      have "t = (OpenFdDir, r) # (Fdopendir (r_ret r), d) # u @ [(Closedir (r_ret r), q)]"
        using runs_unique by fastforce
      with u(2) show ?thesis by (intro exI [of _ r]) (simp add: is_action_def dir_names_def)
    qed
  qed
qed

section \<open>Properties\<close>

text \<open>C6. Both backends give the child the same descriptors. With pipes above the standard streams, the file
  actions recorded for \<open>posix_spawn\<close>, carried out in order, and the calls of the forked child leave the
  same table: 0, 1 and 2 are the requested pipe ends or what they were, and everything else is closed,
  provided the directory listing named every open descriptor.\<close>

theorem backends_agree:
  fixes T :: "int \<Rightarrow> 'f option"
  assumes "pipes_fresh p" and "close_inherited K (handled_fds p) w = Some w'" and "runs w w' t"
    and "\<forall>n. T n \<noteq> None \<longrightarrow> n < 2 ^ 31 \<and> (2 < n \<longrightarrow> n \<notin> set (handled_fds p) \<longrightarrow> show_int n \<in> set (dir_names t))"
    and "\<forall>r. (OpenFdDir, r) \<in> set t \<longrightarrow> T (r_ret r) = None"
    and "calls v (child_run K' opts p v) cs"
  shows "fd_table (map fst (stdin_actions p @ stdout_actions p @ stderr_actions p) @ filter is_action (map fst t)) T
      = child_fds p T \<and> fd_table cs T = child_fds p T"
proof
  show "fd_table cs T = child_fds p T"
    by (rule fork_child_table [OF assms(1,6)]) (use assms(4) in blast)
  obtain r where r: "(OpenFdDir, r) \<in> set t"
    and f: "filter is_action (map fst t) = close_plan (r_ret r) (handled_fds p) (dir_names t)"
    using close_inherited_plan [OF assms(2,3)] by blast
  let ?C = "set (List.map_filter (inherited (r_ret r) (handled_fds p)) (dir_names t))"
  have table: "fd_table (map fst (stdin_actions p @ stdout_actions p @ stderr_actions p) @ filter is_action (map fst t)) T n
      = (if n \<in> ?C then None else redirected p T n)" for n
    unfolding fd_table_simps posix_redirects [OF assms(1)] f by (rule close_plan_table)
  have high: "2 < n" if "n \<in> ?C" for n
    using that inherited_high by (auto simp: List.map_filter_def)
  have gone: "redirected p T n = None" if "2 < n" "n \<notin> ?C" for n
  proof (cases "n \<in> set (handled_fds p)")
    case True
    with that(1) show ?thesis by (simp add: redirected_def)
  next
    case False
    have "T n = None"
    proof (rule ccontr)
      assume "T n \<noteq> None"
      with assms(4) that(1) False have n: "n < 2 ^ 31" "show_int n \<in> set (dir_names t)" by auto
      have "n \<noteq> r_ret r" using assms(5) r \<open>T n \<noteq> None\<close> by auto
      from inherited_show [OF that(1) n(1) this False] n(2) have "n \<in> ?C"
        by (force simp: List.map_filter_def)
      with that(2) show False ..
    qed
    with that(1) show ?thesis by (intro redirected_high) auto
  qed
  show "fd_table (map fst (stdin_actions p @ stdout_actions p @ stderr_actions p) @ filter is_action (map fst t)) T
      = child_fds p T"
  proof
    fix n
    show "fd_table (map fst (stdin_actions p @ stdout_actions p @ stderr_actions p) @ filter is_action (map fst t)) T n
      = child_fds p T n"
      using high [of n] gone [of n] unfolding table child_fds_def by auto
  qed
qed

text \<open>A child with a pipe for stdout; descriptor 4 is open and listed, the listing itself is number 9.\<close>

definition demo_pipes :: pipes where
  "demo_pipes = \<lparr>stdin_r = None, stdin_w = None, stdout_r = Some (Fd 5), stdout_w = Some (Fd 6),
     stderr_r = None, stderr_w = None\<rparr>"

definition demo_dir_world :: "demo world" where
  "demo_dir_world = demo_world [] [] [ok_reply 9 NoOut, ok_reply 1 NoOut, ok_reply 1 (OutBytes [46]),
     ok_reply 1 (OutBytes (show_int 4)), ok_reply 0 NoOut, ok_reply 0 NoOut]"

definition demo_table :: "int \<Rightarrow> nat option" where
  "demo_table n = (if n \<in> {0, 1, 2, 4, 5, 6} then Some (nat n) else None)"

theorem backends_agree_witness:
  "\<exists>cs. calls \<lparr>kst = (), errno = 0, trace = []\<rparr> (child_run fork_os demo_options demo_pipes \<lparr>kst = (), errno = 0, trace = []\<rparr>) cs \<and>
     fd_table cs demo_table = child_fds demo_pipes demo_table"
proof -
  let ?w = "demo_dir_world"
  let ?v = "\<lparr>kst = (), errno = 0, trace = []\<rparr>"
  have fresh: "pipes_fresh demo_pipes" by (simp add: pipes_fresh_def demo_pipes_def handled_fds_def)
  have i4: "inherited 9 [5, 6] (show_int 4) = Some 4" by (rule inherited_show) simp_all
  have i46: "inherited 9 [5, 6] [46] = None"
    by (simp add: inherited_def from_utf8_def parse_i32_def digit_of_def split: option.split)
  have "\<exists>w'. close_inherited demo_os (handled_fds demo_pipes) ?w = Some w' \<and>
      runs ?w w' [(OpenFdDir, ok_reply 9 NoOut), (Fdopendir 9, ok_reply 1 NoOut),
        (Readdir 9, ok_reply 1 (OutBytes [46])), (Readdir 9, ok_reply 1 (OutBytes (show_int 4))),
        (FaAddClose 4, ok_reply 0 NoOut), (Readdir 9, ok_reply 0 NoOut), (Closedir 9, ok_reply 0 NoOut)]"
    by (simp add: close_inherited_def scan_dir.simps demo_dir_world_def demo_pipes_def handled_fds_def i4 i46
        demo_os_def demo_trap_def demo_world_def ok_reply_def sys_def runs_def Let_def
        cong: bind_eval_cong prod.case_cong_weak)
  then obtain w' t where c: "close_inherited demo_os (handled_fds demo_pipes) ?w = Some w'" and t: "runs ?w w' t"
    and dn: "show_int 4 \<in> set (dir_names t)" and od: "\<forall>r. (OpenFdDir, r) \<in> set t \<longrightarrow> r_ret r = 9"
    by (fastforce simp: dir_names_def ok_reply_def)
  have listed: "\<forall>n. demo_table n \<noteq> None \<longrightarrow> n < 2 ^ 31 \<and>
      (2 < n \<longrightarrow> n \<notin> set (handled_fds demo_pipes) \<longrightarrow> show_int n \<in> set (dir_names t))"
    using dn by (auto simp: demo_table_def handled_fds_def demo_pipes_def)
  have dir: "\<forall>r. (OpenFdDir, r) \<in> set t \<longrightarrow> demo_table (r_ret r) = None"
    using od by (simp add: demo_table_def)
  obtain cs where cs: "calls ?v (child_run fork_os demo_options demo_pipes ?v) cs"
    using child_run_calls [of ?v fork_os demo_options demo_pipes] by blast
  from backends_agree [OF fresh c t listed dir cs] cs show ?thesis by blast
qed

text \<open>C14. The forked child. It redirects its streams, closes the pipes and then every descriptor from 3 on, and
  starts a session if asked. If it is to change directory and cannot, its only further call is
  \<open>_exit(127)\<close>. Otherwise it joins its group, clears the signal mask and the disposition of SIGPIPE, and
  executes the program with the context's exact arguments and environment; that call is its last unless
  it fails, and then the last is \<open>_exit(127)\<close>.\<close>

theorem child_setup:
  "\<exists>t0 t1. runs w (child_run K opts p w) (t0 @ t1) \<and>
     map fst t0 = redirect_plan p @ [CloseRange 3 (2 ^ 32 - 1) 0] @ (if pg_isolated (so_pgroup opts) then [Setsid] else []) \<and>
     (case ec_cwd (so_ctx opts) of
        None \<Rightarrow> runs_program opts t1
      | Some cwd \<Rightarrow> \<exists>r t2. t1 = (Chdir cwd, r) # t2 \<and>
          (if r_ret r = 0 then runs_program opts t2 else map fst t2 = [ExitNow 127]))"
  using child_run_events [of w K opts p] by (simp only: enters_directory_def)

text \<open>Pipes in the place of a standard stream. When the caller runs with descriptor 0 closed, the
  read end of the stdin pipe can be descriptor 0 itself; it is then duplicated onto itself and closed,
  and the child starts without stdin, whichever backend is used.\<close>

theorem low_pipe_loses_stdin:
  assumes "stdin_r p = Some (Fd 0)" and "stdin_w p = Some (Fd n)" and "stdout_r p = None" and "stderr_r p = None"
    and "stdout_w p = None" and "stderr_w p = None"
  shows "fd_table (map fst (stdin_actions p @ stdout_actions p @ stderr_actions p)) T 0 = None \<and>
     fd_table (redirect_plan p) T 0 = None"
  using assms
  by (simp add: stdin_actions_def stdout_actions_def stderr_actions_def redirect_plan_def dup_calls_def closes_def)

theorem low_pipe_loses_stdin_witness:
  "fd_table (redirect_plan \<lparr>stdin_r = Some (Fd 0), stdin_w = Some (Fd 3), stdout_r = None, stdout_w = None,
     stderr_r = None, stderr_w = None\<rparr>) (\<lambda>n. Some n) 0 = None"
  using low_pipe_loses_stdin [of "\<lparr>stdin_r = Some (Fd 0), stdin_w = Some (Fd 3), stdout_r = None, stdout_w = None,
     stderr_r = None, stderr_w = None\<rparr>" 3 "\<lambda>n. Some n"] by simp

end
