(* ===== verification/SpawnRun.thy ===== *)
theory SpawnRun
  imports WaitEnd SpawnGuard SpawnChild
begin

text \<open>
  A whole run, from the pipes to the returned output: which pipe ends the parent's drain holds, which
  child the handle names, and what \<open>spawn\<close> returns in terms of the pipes and the child it made.
\<close>

section \<open>The pipes of a run\<close>

text \<open>The descriptor pairs \<open>pipe2\<close> returned, in order.\<close>

definition pipe_ends :: "event_log \<Rightarrow> (int \<times> int) list" where
  "pipe_ends t = concat (map (\<lambda>e. case fst e of Pipe2 _ \<Rightarrow> [out_fds (r_out (snd e))] | _ \<Rightarrow> []) t)"

lemma pipe_ends_simps [simp]:
  "pipe_ends [] = []" "pipe_ends (s @ t) = pipe_ends s @ pipe_ends t"
  "pipe_ends ((Pipe2 fl, r) # t) = out_fds (r_out r) # pipe_ends t"
  by (simp_all add: pipe_ends_def)

text \<open>Calls between the pipes and the wait: no pipe, no data, no signal, no wait.\<close>

definition starting_call :: "call \<Rightarrow> bool" where
  "starting_call c \<longleftrightarrow> (case c of Pipe2 _ \<Rightarrow> False | Read _ _ \<Rightarrow> False | Write _ _ \<Rightarrow> False
     | Waitpid _ _ \<Rightarrow> False | Kill _ _ \<Rightarrow> False | Clock \<Rightarrow> False | _ \<Rightarrow> True)"

lemma upkeep_starting: "upkeep_only w w' \<Longrightarrow> makes starting_call w w'"
  by (erule makes_mono) (auto simp: upkeep_call_def starting_call_def split: call.splits)

lemma starting_pipes: "list_all (\<lambda>e. starting_call (fst e)) t \<Longrightarrow> pipe_ends t = []"
  by (induction t) (auto simp: pipe_ends_def starting_call_def split: call.splits)

text \<open>One pair for each requested stream, in the order stdin, stdout, stderr.\<close>

definition opt_list :: "'a option \<Rightarrow> 'a list" where
  "opt_list x = (case x of None \<Rightarrow> [] | Some y \<Rightarrow> [y])"

lemma opt_list_simps [simp]: "opt_list None = []" "opt_list (Some y) = [y]"
  by (simp_all add: opt_list_def)

definition fds_of :: "(int \<times> int) option \<Rightarrow> (int \<times> int \<Rightarrow> int) \<Rightarrow> fd option" where
  "fds_of x f = map_option (\<lambda>q. Fd (f q)) x"

definition pipes_of :: "(int \<times> int) option \<Rightarrow> (int \<times> int) option \<Rightarrow> (int \<times> int) option \<Rightarrow> pipes" where
  "pipes_of i u v = \<lparr>stdin_r = fds_of i fst, stdin_w = fds_of i snd, stdout_r = fds_of u fst,
     stdout_w = fds_of u snd, stderr_r = fds_of v fst, stderr_w = fds_of v snd\<rparr>"

abbreviation pipe_calls :: "event_log \<Rightarrow> bool" where
  "pipe_calls \<equiv> list_all (\<lambda>e. \<exists>fl. fst e = Pipe2 fl)"

lemma pipe_if_log:
  assumes "pipe_if K need w = (Inr (a, b), w')"
  obtains t x where "runs w w' t" "pipe_calls t" "pipe_ends t = opt_list x" "x \<noteq> None \<longleftrightarrow> need"
    "a = fds_of x fst" "b = fds_of x snd"
proof (cases need)
  case False
  with assms show thesis by (intro that [of "[]" None]) (simp_all add: pipe_if_def fds_of_def)
next
  case True
  obtain r w1 where s: "sys K (Pipe2 (O_CLOEXEC OR O_NONBLOCK)) w = (r, w1)" by fastforce
  with assms True show thesis
    by (intro that [of "[(Pipe2 (O_CLOEXEC OR O_NONBLOCK), r)]" "Some (out_fds (r_out r))"])
      (auto simp: pipe_if_def make_pipe_def fds_of_def fd_new_def runs_sys
        split: prod.splits sum.splits if_splits)
qed

lemma pipes_new_log:
  assumes "pipes_new K in_buf out err w = (Inr p, w')"
  obtains t i u v where "runs w w' t" "pipe_calls t" "pipe_ends t = opt_list i @ opt_list u @ opt_list v"
    "i \<noteq> None \<longleftrightarrow> in_buf \<noteq> None" "u \<noteq> None \<longleftrightarrow> out" "v \<noteq> None \<longleftrightarrow> err" "p = pipes_of i u v"
proof -
  obtain p1 w1 where s1: "pipe_if K (in_buf \<noteq> None) w = (p1, w1)" by fastforce
  obtain p2 w2 where s2: "pipe_if K out w1 = (p2, w2)" by fastforce
  obtain p3 w3 where s3: "pipe_if K err w2 = (p3, w3)" by fastforce
  from assms s1 obtain a1 b1 where p1: "p1 = Inr (a1, b1)" by (cases p1) (auto simp: pipes_new_def)
  from assms s1 s2 p1 obtain a2 b2 where p2: "p2 = Inr (a2, b2)" by (cases p2) (auto simp: pipes_new_def)
  from assms s1 s2 s3 p1 p2 obtain a3 b3 where p3: "p3 = Inr (a3, b3)" by (cases p3) (auto simp: pipes_new_def)
  note s = s1 [unfolded p1] s2 [unfolded p2] s3 [unfolded p3]
  have q: "\<lparr>stdin_r = a1, stdin_w = b1, stdout_r = a2, stdout_w = b2, stderr_r = a3, stderr_w = b3\<rparr> = p \<and> w3 = w'"
    using assms unfolding pipes_new_def s Let_def prod.case sum.case by simp
  obtain t1 i where t1: "runs w w1 t1" "pipe_calls t1" "pipe_ends t1 = opt_list i" "i \<noteq> None \<longleftrightarrow> in_buf \<noteq> None"
    "a1 = fds_of i fst" "b1 = fds_of i snd" by (rule pipe_if_log [OF s(1)])
  obtain t2 u where t2: "runs w1 w2 t2" "pipe_calls t2" "pipe_ends t2 = opt_list u" "u \<noteq> None \<longleftrightarrow> out"
    "a2 = fds_of u fst" "b2 = fds_of u snd" by (rule pipe_if_log [OF s(2)])
  obtain t3 v where t3: "runs w2 w3 t3" "pipe_calls t3" "pipe_ends t3 = opt_list v" "v \<noteq> None \<longleftrightarrow> err"
    "a3 = fds_of v fst" "b3 = fds_of v snd" by (rule pipe_if_log [OF s(3)])
  have r: "runs w w' ((t1 @ t2) @ t3)"
    using runs_trans [OF runs_trans [OF t1(1) t2(1)] t3(1)] conjunct2 [OF q] by simp
  have e: "p = pipes_of i u v"
    using conjunct1 [OF q] by (simp add: pipes_of_def t1(5,6) t2(5,6) t3(5,6))
  show thesis
    by (rule that [OF r _ _ t1(4) t2(4) t3(4) e]) (simp_all add: t1(2,3) t2(2,3) t3(2,3))
qed

section \<open>The parent's drain\<close>

definition fresh_slot :: "fd option \<Rightarrow> fd_slot option" where
  "fresh_slot x = map_option (\<lambda>f. \<lparr>slot_token = None, slot_fd = f\<rparr>) x"

lemma new_slot_fresh: "new_slot K x w = (Inr s, w') \<Longrightarrow> s = fresh_slot x"
  by (auto simp: new_slot_def fresh_slot_def split: option.splits prod.splits sum.splits)

text \<open>\<open>drain_of opts i u v d\<close>: the drain holds the parent's ends of these pipes and nothing else.\<close>

definition input_data :: "spawn_options \<Rightarrow> byte list" where
  "input_data opts = (case so_stdin opts of None \<Rightarrow> [] | Some bs \<Rightarrow> bs)"

definition drain_of ::
  "spawn_options \<Rightarrow> (int \<times> int) option \<Rightarrow> (int \<times> int) option \<Rightarrow> (int \<times> int) option \<Rightarrow> unit drain_state \<Rightarrow> bool" where
  "drain_of opts i u v d \<longleftrightarrow> drain_made (so_max_output opts) (input_data opts) d \<and>
     map_option slot_fd (stdin_slot d) = fds_of i snd \<and> map_option slot_fd (stdout_slot d) = fds_of u fst \<and>
     map_option slot_fd (stderr_slot d) = fds_of v fst"

lemma drain_new_fields:
  assumes "drain_new K i buf u v limit ee w = (Inr d, w')"
  shows "stdin_slot d = (if buf = None then None else fresh_slot i) \<and> stdout_slot d = fresh_slot u \<and>
     stderr_slot d = fresh_slot v \<and> drain_buffer d = buffer_new limit \<and> drain_writer d = writer_new buf"
  using assms by (auto simp: drain_new_def Let_def fresh_slot_def split: prod.splits sum.splits if_splits
      dest!: new_slot_fresh)

lemma parent_drain_of:
  assumes "parent_drain K opts (pipes_of i u v) w = (Inr d, w')" and "i \<noteq> None \<longleftrightarrow> so_stdin opts \<noteq> None"
  shows "drain_of opts i u v d"
proof -
  have "\<exists>x w1. drain_new K x (so_stdin opts) (fds_of u fst) (fds_of v fst) (so_max_output opts)
      (map_option fn_closure (so_early_exit opts)) w1 = (Inr d, w') \<and> (so_stdin opts \<noteq> None \<longrightarrow> x = fds_of i snd)"
    using assms(1) by (cases "so_stdin opts") (auto simp: parent_drain_def Let_def pipes_of_def)
  then obtain x w1 where n: "drain_new K x (so_stdin opts) (fds_of u fst) (fds_of v fst) (so_max_output opts)
      (map_option fn_closure (so_early_exit opts)) w1 = (Inr d, w')" and x: "so_stdin opts \<noteq> None \<longrightarrow> x = fds_of i snd"
    by blast
  have s: "map_option slot_fd (fresh_slot y) = y" for y
    by (cases y) (simp_all add: fresh_slot_def)
  from drain_new_fields [OF n] x assms(2) show ?thesis
    by (cases "so_stdin opts"; cases i)
      (auto simp: drain_of_def drain_made_def input_data_def s fds_of_def)
qed

section \<open>The child\<close>

text \<open>\<open>child_made t n\<close>: some fork or \<open>posix_spawn\<close> of the trace succeeded with child \<open>n\<close>.\<close>

definition child_made :: "event_log \<Rightarrow> int \<Rightarrow> bool" where
  "child_made t n \<longleftrightarrow> (\<exists>r. (Fork, r) \<in> set t \<and> 0 < r_ret r \<and> n = r_ret r) \<or>
     (\<exists>f a e r. (PosixSpawn f a e, r) \<in> set t \<and> r_ret r = 0 \<and> n = out_num (r_out r))"

lemma child_made_mono: "child_made t n \<Longrightarrow> set t \<subseteq> set t' \<Longrightarrow> child_made t' n"
  unfolding child_made_def by blast

text \<open>A successful start: the pipes, then the child, then the parent's drain.\<close>

definition started_log ::
  "spawn_options \<Rightarrow> 'k world \<Rightarrow> 'k world \<Rightarrow> int \<Rightarrow> unit drain_state \<Rightarrow> bool" where
  "started_log opts w w' n d \<longleftrightarrow> (\<exists>t i u v. runs w w' t \<and> pipe_ends t = opt_list i @ opt_list u @ opt_list v \<and>
     list_all (\<lambda>e. starting_call (fst e) \<or> (\<exists>fl. fst e = Pipe2 fl)) t \<and> child_made t n \<and>
     (i \<noteq> None \<longleftrightarrow> so_stdin opts \<noteq> None) \<and> (u \<noteq> None \<longleftrightarrow> so_capture_stdout opts) \<and>
     (v \<noteq> None \<longleftrightarrow> so_capture_stderr opts) \<and> drain_of opts i u v d)"

lemma started_log_intro:
  assumes "pipes_new K (so_stdin opts) (so_capture_stdout opts) (so_capture_stderr opts) w = (Inr p, w1)"
    and "makes starting_call w1 w2" and "sys K c w2 = (r, w3)" and "starting_call c" and "child_made [(c, r)] n"
    and "parent_drain K opts p w3 = (Inr d, w4)" and "makes starting_call w4 w5"
  shows "started_log opts w w5 n d"
proof -
  obtain t i u v where t: "runs w w1 t" "pipe_calls t"
    "pipe_ends t = opt_list i @ opt_list u @ opt_list v" and q: "i \<noteq> None \<longleftrightarrow> so_stdin opts \<noteq> None"
    "u \<noteq> None \<longleftrightarrow> so_capture_stdout opts" "v \<noteq> None \<longleftrightarrow> so_capture_stderr opts" "p = pipes_of i u v"
    by (rule pipes_new_log [OF assms(1)])
  have d: "drain_of opts i u v d" using assms(6) unfolding q(4) by (rule parent_drain_of) (rule q(1))
  from assms(2) obtain t1 where t1: "runs w1 w2 t1" "list_all (\<lambda>e. starting_call (fst e)) t1"
    unfolding makes_def by blast
  have "makes starting_call w3 w5"
    by (rule makes_trans [OF upkeep_starting [OF parent_drain_upkeep [OF assms(6)]] assms(7)])
  then obtain t2 where t2: "runs w3 w5 t2" "list_all (\<lambda>e. starting_call (fst e)) t2"
    unfolding makes_def by blast
  let ?t = "t @ t1 @ [(c, r)] @ t2"
  have r: "runs w w5 ?t"
    by (rule runs_trans [OF t(1) runs_trans [OF t1(1) runs_trans [OF runs_sys [OF assms(3)] t2(1)]]])
  have c: "pipe_ends [(c, r)] = []" using assms(4) by (intro starting_pipes) simp
  have e: "pipe_ends ?t = opt_list i @ opt_list u @ opt_list v"
    using starting_pipes [OF t1(2)] starting_pipes [OF t2(2)] c t(3) by (simp only: pipe_ends_simps append_Nil2)
  have l: "list_all (\<lambda>e. starting_call (fst e) \<or> (\<exists>fl. fst e = Pipe2 fl)) ?t"
    using t(2) t1(2) t2(2) assms(4) by (auto simp: list_all_iff)
  have m: "child_made ?t n" by (rule child_made_mono [OF assms(5)]) simp
  from r e l m q(1-3) d show ?thesis unfolding started_log_def by blast
qed

lemma fork_started:
  assumes "spawn_fork_internal K opts w = (In_parent (Inr (n, d)), w')"
  shows "started_log opts w w' n d"
proof -
  obtain pr w1 where s1: "pipes_new K (so_stdin opts) (so_capture_stdout opts) (so_capture_stderr opts) w = (pr, w1)"
    by fastforce
  from assms s1 obtain p where p: "pr = Inr p" by (cases pr) (simp_all add: spawn_fork_internal_def)
  obtain r w2 where s2: "sys K Fork w1 = (r, w2)" by fastforce
  obtain dr w3 where s3: "parent_drain K opts p w2 = (dr, w3)" by fastforce
  have r: "0 < r_ret r" "dr = Inr d" "n = r_ret r" "w3 = w'"
    using assms s1 p s2 s3
    by (auto simp: spawn_fork_internal_def Let_def split: if_splits sum.splits)
  show ?thesis
    by (rule started_log_intro [OF s1 [unfolded p] makes_refl s2 _ _ s3 [unfolded r] makes_refl])
      (simp_all add: starting_call_def child_made_def r)
qed

lemma actions_starting:
  "\<forall>x \<in> set (stdin_actions p @ stdout_actions p @ stderr_actions p). starting_call (fst x)"
  "\<forall>x \<in> set (attr_actions pg). starting_call (fst x)"
  by (auto simp: stdin_actions_def stdout_actions_def stderr_actions_def attr_actions_def starting_call_def
      split: option.splits)

lemma posix_attrs_started:
  assumes "posix_attrs K opts p w = (Inr (n, d), w')"
  obtains c w1 r w2 w3 where "makes starting_call w w1" "sys K c w1 = (r, w2)" "starting_call c"
    "child_made [(c, r)] n" "parent_drain K opts p w2 = (Inr d, w3)" "makes starting_call w3 w'"
  using assms
proof (cases rule: posix_attrs_cases)
  case (spawned w1 r w2 dres w3)
  then have d: "dres = Inr d" "n = out_num (r_out r)" by (cases dres; simp)+
  show thesis
  proof (rule that [OF _ spawned(2)])
    show "makes starting_call w w1" by (rule posix_calls_makes [OF spawned(1) actions_starting(2)])
    show "starting_call (spawn_call opts)" by (simp add: starting_call_def)
    show "child_made [(spawn_call opts, r)] n" using spawned(3) d by (auto simp: child_made_def)
    show "parent_drain K opts p w2 = (Inr d, w3)" using spawned(4) d by simp
    show "makes starting_call w3 w'"
      unfolding spawned(6) attr_destroy_def by (rule makes_snd) (simp add: starting_call_def)
  qed
qed simp_all

lemma posix_started:
  assumes "spawn_posix_internal K opts w = Some (Inr (n, d), w')"
  shows "started_log opts w w' n d"
  using assms
proof (cases rule: spawn_posix_cases)
  case (attrs p w1 r w2 w3 w4 a w5 w6)
  have "makes starting_call w1 w2" using attrs(2) by (rule makes_sys) (simp add: starting_call_def)
  moreover have "makes starting_call w2 w3" by (rule posix_calls_makes [OF attrs(4) actions_starting(1)])
  moreover have "makes starting_call w3 w4"
    using attrs(5) by (rule close_inherited_makes) (simp_all add: starting_call_def)
  moreover have "makes starting_call w4 w5" using attrs(6) by (rule makes_sys) (simp add: starting_call_def)
  ultimately have m: "makes starting_call w1 w5" by (blast intro: makes_trans)
  obtain c v1 q v2 v3 where m1: "makes starting_call w5 v1" "sys K c v1 = (q, v2)" "starting_call c"
    "child_made [(c, q)] n" "parent_drain K opts p v2 = (Inr d, v3)" "makes starting_call v3 w6"
    by (rule posix_attrs_started [OF attrs(8)])
  have f: "makes starting_call w6 w'"
    unfolding attrs(9) fa_destroy_def by (rule makes_snd) (simp add: starting_call_def)
  show ?thesis
    by (rule started_log_intro [OF attrs(1) makes_trans [OF m m1(1)] m1(2-5) makes_trans [OF m1(6) f]])
qed simp_all

lemma resolve_backend_makes:
  assumes "resolve_backend K android cell opts w = (x, w')"
  shows "makes starting_call w w'"
  using assms
  by (auto simp: resolve_backend_def select_backend_def probe_backend_def Let_def starting_call_def
      split: if_splits spawn_backend.splits option.splits prod.splits dest!: makes_sys [where P = starting_call])

text \<open>Calls before the pipes do not matter.\<close>

lemma started_log_after:
  assumes "makes starting_call w w1" and "started_log opts w1 w2 n d"
  shows "started_log opts w w2 n d"
proof -
  from assms(1) obtain t0 where t0: "runs w w1 t0" "list_all (\<lambda>e. starting_call (fst e)) t0"
    unfolding makes_def by blast
  from assms(2) obtain t i u v where t: "runs w1 w2 t" "pipe_ends t = opt_list i @ opt_list u @ opt_list v"
     "list_all (\<lambda>e. starting_call (fst e) \<or> (\<exists>fl. fst e = Pipe2 fl)) t" "child_made t n"
     "i \<noteq> None \<longleftrightarrow> so_stdin opts \<noteq> None" "u \<noteq> None \<longleftrightarrow> so_capture_stdout opts"
     "v \<noteq> None \<longleftrightarrow> so_capture_stderr opts" "drain_of opts i u v d"
    unfolding started_log_def by blast
  have "child_made (t0 @ t) n" by (rule child_made_mono [OF t(4)]) simp
  moreover have "list_all (\<lambda>e. starting_call (fst e) \<or> (\<exists>fl. fst e = Pipe2 fl)) (t0 @ t)"
    using t0(2) t(3) by (auto simp: list_all_iff)
  moreover have "pipe_ends (t0 @ t) = opt_list i @ opt_list u @ opt_list v"
    by (simp add: starting_pipes [OF t0(2)] t(2))
  ultimately show ?thesis
    using runs_trans [OF t0(1) t(1)] t(5-8) unfolding started_log_def by blast
qed

lemma spawn_start_started:
  assumes "spawn_start K android cell opts w = Some ((In_parent (Inr rp), cell'), w')"
  shows "started_log opts w w' (pid (rp_process rp)) (rp_drain rp)"
proof -
  obtain b c1 w1 where s1: "resolve_backend K android cell opts w = ((b, c1), w1)" by (metis prod.exhaust)
  have "run_backend K b opts w1 \<noteq> None"
    using assms s1 by (cases "run_backend K b opts w1") (simp_all add: spawn_start_def split: if_splits)
  then obtain x w2 where s2: "run_backend K b opts w1 = Some (x, w2)" by (metis option.exhaust prod.exhaust)
  have x: "as_running x = In_parent (Inr rp)" "w2 = w'"
    using assms s1 s2 by (auto simp: spawn_start_def split: if_splits)
  then obtain n d where nd: "x = In_parent (Inr (n, d))" "pid (rp_process rp) = n" "rp_drain rp = d"
    by (auto simp: as_running_def split: forked.splits sum.splits prod.splits)
  have "started_log opts w1 w' n d"
  proof (cases b)
    case Backend_PosixSpawn
    with s2 x nd have "spawn_posix_internal K opts w1 = Some (Inr (n, d), w')"
      by (auto simp: run_backend_def bind_Some_conv)
    then show ?thesis by (rule posix_started)
  next
    case Backend_Fork
    with s2 x nd have "spawn_fork_internal K opts w1 = (In_parent (Inr (n, d)), w')"
      by (simp add: run_backend_def)
    then show ?thesis by (rule fork_started)
  qed
  from started_log_after [OF resolve_backend_makes [OF s1] this] show ?thesis by (simp add: nd)
qed

section \<open>From the start to the result\<close>

text \<open>Registration only puts tokens into the slots.\<close>

lemma registered_drain:
  assumes "register_with_reactor K d R w = ((Inr (), d', R'), w')" and "drain_of opts i u v d"
  shows "drain_of opts i u v d'"
proof -
  obtain t1 t2 t3 where d': "d' = d\<lparr>stdin_slot := map_option (with_token t1) (stdin_slot d),
     stdout_slot := map_option (with_token t2) (stdout_slot d),
     stderr_slot := map_option (with_token t3) (stderr_slot d)\<rparr>"
    using register_with_reactor_spec(4) [OF assms(1)] by blast
  have f: "map_option slot_fd (map_option (with_token t) x) = map_option slot_fd x" for t x
    by (cases x) (simp_all add: with_token_def)
  from assms(2) show ?thesis by (simp add: d' drain_of_def drain_made_def f)
qed

lemma drain_of_fds:
  assumes "drain_of opts i u v d"
  shows "slot_fds d = map snd (opt_list i) @ map fst (opt_list u) @ map fst (opt_list v)"
    and "(case stdout_slot d of None \<Rightarrow> y | Some s \<Rightarrow> f (raw (slot_fd s))) = (case u of None \<Rightarrow> y | Some q \<Rightarrow> f (fst q))"
    and "(case stderr_slot d of None \<Rightarrow> y | Some s \<Rightarrow> f (raw (slot_fd s))) = (case v of None \<Rightarrow> y | Some q \<Rightarrow> f (fst q))"
    and "(\<forall>s. stdin_slot d = Some s \<longrightarrow> Q (raw (slot_fd s))) = (\<forall>q. i = Some q \<longrightarrow> Q (snd q))"
proof -
  have "map_option slot_fd (stdin_slot d) = fds_of i snd" "map_option slot_fd (stdout_slot d) = fds_of u fst"
    "map_option slot_fd (stderr_slot d) = fds_of v fst"
    using assms by (simp_all add: drain_of_def)
  then show "slot_fds d = map snd (opt_list i) @ map fst (opt_list u) @ map fst (opt_list v)"
    "(case stdout_slot d of None \<Rightarrow> y | Some s \<Rightarrow> f (raw (slot_fd s))) = (case u of None \<Rightarrow> y | Some q \<Rightarrow> f (fst q))"
    "(case stderr_slot d of None \<Rightarrow> y | Some s \<Rightarrow> f (raw (slot_fd s))) = (case v of None \<Rightarrow> y | Some q \<Rightarrow> f (fst q))"
    "(\<forall>s. stdin_slot d = Some s \<longrightarrow> Q (raw (slot_fd s))) = (\<forall>q. i = Some q \<longrightarrow> Q (snd q))"
    unfolding fds_of_def
    by (cases i; cases u; cases v; force simp: slot_fds_def)+
qed

text \<open>The wait makes no pipes.\<close>

lemma wait_loop_pipes:
  assumes "wait_loop K n d R timeout grace cancel pg w = Some (Inr out, w')" and "runs w w' t"
  shows "pipe_ends t = []"
  using assms
proof (cases rule: wait_loop_trace)
  case (looped t0 r0 t1 P)
  have "pipe_ends t1 = []"
    using policy_calls [OF looped(3)]
    by (induction t1) (auto simp: pipe_ends_def io_call_def split: call.splits)
  moreover have "pipe_ends t0 = []"
    using looped(2) by (induction t0) (auto simp: waits_only_def pipe_ends_def split: call.splits)
  moreover have "pipe_ends [(Clock, r0)] = []" by (simp add: pipe_ends_def)
  ultimately show ?thesis
    unfolding looped(1) using pipe_ends_simps(2) [of "[(Clock, r0)]" t1] by simp
qed simp

lemma starting_quiet:
  assumes "list_all (\<lambda>e. starting_call (fst e) \<or> (\<exists>fl. fst e = Pipe2 fl)) t"
  shows "delivered m t = []" and "accepted m t = []" and "clock_readings t = []"
proof -
  have "list_all (\<lambda>e. data_free (fst e)) t"
    using assms by (rule list.pred_mono_strong) (auto simp: starting_call_def data_free_def split: call.splits)
  from data_free_streams [OF this] show "delivered m t = []" "accepted m t = []" by blast+
  show "clock_readings t = []"
    using assms by (induction t) (auto simp: clock_readings_def starting_call_def split: call.splits)
qed

lemma after_start_waits:
  assumes "after_start K opts rp R w = Some (Inr out, w')" and "so_wait opts"
  obtains d R1 w1 where "register_with_reactor K (rp_drain rp) R w = ((Inr (), d, R1), w1)"
    "wait_loop K (pid (rp_process rp)) d R1 (so_timeout_ms opts) (so_kill_grace_ms opts) (so_cancel opts)
       (so_pgroup opts) w1 = Some (Inr out, w')"
proof -
  obtain r d R1 w1 where s: "register_with_reactor K (rp_drain rp) R w = ((r, d, R1), w1)" by (metis prod.exhaust)
  show thesis
    by (rule that [of d R1 w1]; use assms s in \<open>cases r; simp add: after_start_def Let_def\<close>)
qed

text \<open>The two phases of a run that waits: the start, without data, signals or waits, and the loop.\<close>

abbreviation start_phase :: "event_log \<Rightarrow> bool" where
  "start_phase \<equiv> list_all (\<lambda>e. starting_call (fst e) \<or> (\<exists>fl. fst e = Pipe2 fl))"

lemma spawn_phases:
  assumes "spawn K android cell opts w = Some ((In_parent (Inr out), cell'), w')" and "runs w w' t" and "so_wait opts"
  obtains t0 t1 w1 n d R i u v where "t = t0 @ t1" "start_phase t0" "child_made t0 n" "drain_of opts i u v d"
    "i \<noteq> None \<longleftrightarrow> so_stdin opts \<noteq> None" "u \<noteq> None \<longleftrightarrow> so_capture_stdout opts" "v \<noteq> None \<longleftrightarrow> so_capture_stderr opts"
    "pipe_ends t = opt_list i @ opt_list u @ opt_list v" "runs w1 w' t1"
    "wait_loop K n d R (so_timeout_ms opts) (so_kill_grace_ms opts) (so_cancel opts) (so_pgroup opts) w1
       = Some (Inr out, w')"
  using assms(1)
proof (cases rule: spawn_cases)
  case (started R w0 rp w1 y)
  then have a: "after_start K opts rp R w1 = Some (Inr out, w')" by simp
  obtain d R1 w2 where reg: "register_with_reactor K (rp_drain rp) R w1 = ((Inr (), d, R1), w2)"
    and wl: "wait_loop K (pid (rp_process rp)) d R1 (so_timeout_ms opts) (so_kill_grace_ms opts) (so_cancel opts)
       (so_pgroup opts) w2 = Some (Inr out, w')"
    by (rule after_start_waits [OF a assms(3)])
  have "started_log opts w w1 (pid (rp_process rp)) (rp_drain rp)"
    by (rule started_log_after [OF upkeep_starting [OF reactor_new_upkeep [OF started(1)]]
        spawn_start_started [OF started(2)]])
  then obtain t1 i u v where t1: "runs w w1 t1" "pipe_ends t1 = opt_list i @ opt_list u @ opt_list v"
     "start_phase t1" "child_made t1 (pid (rp_process rp))"
     and wants: "i \<noteq> None \<longleftrightarrow> so_stdin opts \<noteq> None" "u \<noteq> None \<longleftrightarrow> so_capture_stdout opts"
     "v \<noteq> None \<longleftrightarrow> so_capture_stderr opts" and d0: "drain_of opts i u v (rp_drain rp)"
    unfolding started_log_def by blast
  obtain t2 where t2: "runs w1 w2 t2" "list_all (\<lambda>e. starting_call (fst e)) t2"
    using upkeep_starting [OF register_with_reactor_upkeep [OF reg]] unfolding makes_def by blast
  obtain t3 where t3: "runs w2 w' t3" using wait_loop_moves [OF wl] unfolding moves_def by blast
  have t: "t = (t1 @ t2) @ t3" by (rule runs_unique [OF assms(2) runs_trans [OF runs_trans [OF t1(1) t2(1)] t3]])
  have e: "pipe_ends t = opt_list i @ opt_list u @ opt_list v"
    unfolding t by (simp add: t1(2) starting_pipes [OF t2(2)] wait_loop_pipes [OF wl t3])
  have s: "start_phase (t1 @ t2)" using t1(3) t2(2) by (auto simp: list_all_iff)
  have c: "child_made (t1 @ t2) (pid (rp_process rp))" by (rule child_made_mono [OF t1(4)]) simp
  show thesis by (rule that [OF t s c registered_drain [OF reg d0] wants e t3 wl])
qed simp_all

section \<open>Properties\<close>

text \<open>C1. What a run returns. After a successful \<open>spawn\<close> that waits, the output names the child that was made,
  by either backend; its status is the decoded answer of a \<open>waitpid\<close> on that child; one pipe was made for
  each requested stream, and each captured stream is what the kernel delivered on the read end of its pipe,
  cut at the limit; what was written to the child's stdin is a prefix of the given data; and the run counts
  as timed out exactly when a look at the clock showed the timeout had passed.\<close>

theorem spawn_output:
  assumes "spawn K android cell opts w = Some ((In_parent (Inr out), cell'), w')" and "runs w w' t"
    and "so_wait opts" and "io_bounded K" and "distinct (concat (map (\<lambda>(a, b). [a, b]) (pipe_ends t)))"
  shows "child_made t (out_pid out) \<and>
     (\<exists>st fl r. out_status out = Some st \<and> (Waitpid (out_pid out) fl, r) \<in> set t \<and> 0 \<le> r_ret r \<and>
        st = decode_status K (out_num (r_out r))) \<and>
     (\<exists>i u v. pipe_ends t = opt_list i @ opt_list u @ opt_list v \<and> (i \<noteq> None \<longleftrightarrow> so_stdin opts \<noteq> None) \<and>
        (u \<noteq> None \<longleftrightarrow> so_capture_stdout opts) \<and> (v \<noteq> None \<longleftrightarrow> so_capture_stderr opts) \<and>
        out_stdout out = (case u of None \<Rightarrow> [] | Some q \<Rightarrow> take (so_max_output opts) (delivered (fst q) t)) \<and>
        out_stderr out = (case v of None \<Rightarrow> [] | Some q \<Rightarrow> take (so_max_output opts) (delivered (fst q) t)) \<and>
        (\<forall>q. i = Some q \<longrightarrow> (\<exists>k. accepted (snd q) t = take k (input_data opts)))) \<and>
     (out_timed_out out \<longleftrightarrow> (\<exists>ms. so_timeout_ms opts = Some ms \<and>
        (\<exists>c \<in> set (tl (clock_readings t)). unat ms * 1000000 \<le> nat (c - hd (clock_readings t)))))"
proof -
  obtain t0 t1 w1 n d R i u v where t: "t = t0 @ t1" and s: "start_phase t0" and c: "child_made t0 n"
    and d: "drain_of opts i u v d" and wants: "i \<noteq> None \<longleftrightarrow> so_stdin opts \<noteq> None"
      "u \<noteq> None \<longleftrightarrow> so_capture_stdout opts" "v \<noteq> None \<longleftrightarrow> so_capture_stderr opts"
    and e: "pipe_ends t = opt_list i @ opt_list u @ opt_list v" and t1: "runs w1 w' t1"
    and wl: "wait_loop K n d R (so_timeout_ms opts) (so_kill_grace_ms opts) (so_cancel opts) (so_pgroup opts) w1
       = Some (Inr out, w')"
    by (rule spawn_phases [OF assms(1-3)])
  have dist: "distinct (slot_fds d)"
    using assms(5) unfolding drain_of_fds(1) [OF d] e by (cases i; cases u; cases v; simp add: case_prod_unfold)
  have m: "drain_made (so_max_output opts) (input_data opts) d" using d by (simp add: drain_of_def)
  have same: "delivered k t = delivered k t1" "accepted k t = accepted k t1" "clock_readings t = clock_readings t1" for k
    by (simp_all add: t starting_quiet [OF s])
  have c: "child_made t n" by (rule child_made_mono [OF c]) (simp add: t)
  have "set t1 \<subseteq> set t" by (simp add: t)
  let ?f = "\<lambda>n. take (so_max_output opts) (delivered n t)"
  note fds = drain_of_fds(2,3) [OF d, where y = "[]" and f = ?f]
    drain_of_fds(4) [OF d, where Q = "\<lambda>n. \<exists>k. accepted n t = take k (input_data opts)"]
  from wait_loop_result [OF wl t1 assms(4) m dist] c e wants \<open>set t1 \<subseteq> set t\<close> show ?thesis
    unfolding same [symmetric] fds by blast
qed

text \<open>A kernel for the witness: pipes are 5 and 6, a fork gives child 42, which writes the chunks of the
  kernel state to its stdout, reported ready by every epoll wait, and has exited when it is waited for.\<close>

definition pipe_os :: "byte list list os" where
  "pipe_os = \<lparr>trap = (\<lambda>c k. case c of
       Read n m \<Rightarrow> (case k of
           [] \<Rightarrow> (\<lparr>r_ret = 0, r_errno = 0, r_out = OutBytes []\<rparr>, [])
         | bs # k' \<Rightarrow> (\<lparr>r_ret = int (length (take m bs)), r_errno = 0, r_out = OutBytes (take m bs)\<rparr>, k'))
     | EpollWait q m tmo \<Rightarrow> (\<lparr>r_ret = 1, r_errno = 0, r_out = OutEvents [(1, 1)]\<rparr>, k)
     | Waitpid n fl \<Rightarrow> (\<lparr>r_ret = (if fl = 0 then n else 0), r_errno = 0, r_out = OutNum 7\<rparr>, k)
     | Fork \<Rightarrow> (\<lparr>r_ret = 42, r_errno = 0, r_out = NoOut\<rparr>, k)
     | Pipe2 fl \<Rightarrow> (\<lparr>r_ret = 0, r_errno = 0, r_out = OutFds 5 6\<rparr>, k)
     | _ \<Rightarrow> (\<lparr>r_ret = 0, r_errno = 0, r_out = NoOut\<rparr>, k)),
     os_WIFEXITED = (\<lambda>_. True), os_WEXITSTATUS = (\<lambda>n. n), os_WIFSIGNALED = (\<lambda>_. False),
     os_WTERMSIG = (\<lambda>_. 0)\<rparr>"

lemma pipe_os_io_bounded: "io_bounded pipe_os"
  unfolding io_bounded_def by (auto simp: pipe_os_def split: list.splits)

lemma pipe_os_trap [simp]:
  "trap pipe_os (Read n m) [] = (ok_reply 0 (OutBytes []), [])"
  "trap pipe_os (Read n m) (bs # k) = (ok_reply (int (length (take m bs))) (OutBytes (take m bs)), k)"
  "trap pipe_os (EpollWait q x y) k = (ok_reply 1 (OutEvents [(1, 1)]), k)"
  "trap pipe_os (Waitpid n fl) k = (ok_reply (if fl = 0 then n else 0) (OutNum 7), k)"
  "trap pipe_os Fork k = (ok_reply 42 NoOut, k)"
  "trap pipe_os (Pipe2 fl) k = (ok_reply 0 (OutFds 5 6), k)"
  "c \<in> {Close n, FcntlGetfl n, FcntlSetfl n z, EpollCreate1 z, EpollCtlAdd q n ev tok, EpollCtlDel q n, Clock} \<Longrightarrow>
     trap pipe_os c k = (ok_reply 0 NoOut, k)"
  by (auto simp: pipe_os_def ok_reply_def)

lemmas spawn_eval = spawn_def reactor_new_def after_start_def register_with_reactor_def register_slot_def
  add_def add_with_token_def drain_into_parts_def buffer_into_parts_def pump_def epoll_timeout_def wait_def
  convert_event_def handle_event_def stdout_matches_def slot_matches_def EPOLLIN_def EPOLLERR_def EPOLLHUP_def
  EPOLLOUT_def

lemma pipe_os_run:
  "\<exists>w'. spawn pipe_os False None demo_options \<lparr>kst = [[104, 105]], errno = 0, trace = []\<rparr> =
     Some ((In_parent (Inr \<lparr>out_pid = 42, out_status = Some (decode_status pipe_os 7), out_stdout = [104, 105],
        out_stderr = [], out_timed_out = False\<rparr>), None), w') \<and> pipe_ends (trace w') = [(5, 6)]"
  by (simp add: demo_options_def spawn_run spawn_eval wait_run drain_run pipe_ends_def
      cong: bind_eval_cong prod.case_cong_weak)

theorem spawn_output_witness:
  "\<exists>out cell' w'. spawn pipe_os False None demo_options \<lparr>kst = [[104, 105]], errno = 0, trace = []\<rparr> =
     Some ((In_parent (Inr out), cell'), w') \<and> child_made (trace w') 42 \<and> out_stdout out = [104, 105] \<and>
     out_stdout out = take 10 (delivered 5 (trace w'))"
proof -
  let ?w = "\<lparr>kst = [[104, 105]], errno = 0, trace = []\<rparr> :: byte list list world"
  obtain w' where s: "spawn pipe_os False None demo_options ?w =
     Some ((In_parent (Inr \<lparr>out_pid = 42, out_status = Some (decode_status pipe_os 7), out_stdout = [104, 105],
        out_stderr = [], out_timed_out = False\<rparr>), None), w')" and e: "pipe_ends (trace w') = [(5, 6)]"
    using pipe_os_run by blast
  have r: "runs ?w w' (trace w')" by (simp add: runs_def)
  have d: "distinct (concat (map (\<lambda>(a, b). [a, b]) (pipe_ends (trace w'))))" by (simp add: e)
  have o: "so_wait demo_options" "so_capture_stdout demo_options" "so_max_output demo_options = 10"
    "so_stdin demo_options = None" "\<not> so_capture_stderr demo_options" by (simp_all add: demo_options_def)
  from spawn_output [OF s r o(1) pipe_os_io_bounded d] obtain a b where
    "child_made (trace w') 42" "pipe_ends (trace w') = [(a, b)]" "[104, 105] = take 10 (delivered a (trace w'))"
    by (auto simp: o simp del: not_None_eq)
  with s e show ?thesis by auto
qed

text \<open>C22. A child that cannot be registered is abandoned. When the child was started but its pipes cannot be
  added to the reactor, \<open>spawn\<close> returns the error without having signalled or waited for the child, although
  its handle is lost; the child goes on running, and stays a zombie when it ends.\<close>

theorem failed_registration_abandons_child:
  assumes "reactor_new K w = (Inr R, w0)"
    and "spawn_start K android cell opts w0 = Some ((In_parent (Inr rp), cell'), w1)"
    and "register_with_reactor K (rp_drain rp) R w1 = ((Inl e, d, R'), w2)"
  shows "\<exists>w' t. spawn K android cell opts w = Some ((In_parent (Inl e), cell'), w') \<and> runs w w' t \<and>
     child_made t (pid (rp_process rp)) \<and> (\<forall>x \<in> set t. \<forall>n m. fst x \<noteq> Kill n m \<and> fst x \<noteq> Waitpid n m)"
proof -
  let ?w' = "drop_reactor K R' (drop_drain K d w2)"
  have s: "spawn K android cell opts w = Some ((In_parent (Inl e), cell'), ?w')"
    using assms by (simp add: spawn_def after_start_def)
  have "started_log opts w w1 (pid (rp_process rp)) (rp_drain rp)"
    by (rule started_log_after [OF upkeep_starting [OF reactor_new_upkeep [OF assms(1)]]
        spawn_start_started [OF assms(2)]])
  then obtain t1 where t1: "runs w w1 t1" "start_phase t1" "child_made t1 (pid (rp_process rp))"
    unfolding started_log_def by blast
  have "upkeep_only w1 ?w'"
    by (rule makes_trans [OF register_with_reactor_upkeep [OF assms(3)] makes_trans [OF drop_drain_upkeep drop_reactor_upkeep]])
  then obtain t2 where t2: "runs w1 ?w' t2" "list_all (\<lambda>e. upkeep_call (fst e)) t2" unfolding makes_def by blast
  have "fst x \<noteq> Kill n m \<and> fst x \<noteq> Waitpid n m" if "x \<in> set (t1 @ t2)" for x n m
    using that t1(2) t2(2) by (auto simp: list_all_iff starting_call_def upkeep_call_def)
  moreover have "child_made (t1 @ t2) (pid (rp_process rp))" by (rule child_made_mono [OF t1(3)]) simp
  ultimately show ?thesis using s runs_trans [OF t1(1) t2(1)] by blast
qed

text \<open>A kernel whose \<open>epoll_ctl\<close> fails.\<close>

definition full_os :: "unit os" where
  "full_os = fork_os\<lparr>trap := (\<lambda>c k. case c of
     EpollCtlAdd q n ev tok \<Rightarrow> (\<lparr>r_ret = -1, r_errno = 28, r_out = NoOut\<rparr>, k) | _ \<Rightarrow> trap fork_os c k)\<rparr>"

theorem failed_registration_abandons_child_witness:
  "\<exists>w' t. spawn full_os False None demo_options \<lparr>kst = (), errno = 0, trace = []\<rparr> =
     Some ((In_parent (Inl (sys_err 28 ''epoll_ctl_add'')), None), w') \<and>
     runs \<lparr>kst = (), errno = 0, trace = []\<rparr> w' t \<and> child_made t 42"
proof -
  let ?w = "\<lparr>kst = (), errno = 0, trace = []\<rparr> :: unit world"
  obtain R w0 rp w1 d R' w2 where "reactor_new full_os ?w = (Inr R, w0)"
    "spawn_start full_os False None demo_options w0 = Some ((In_parent (Inr rp), None), w1)"
    "register_with_reactor full_os (rp_drain rp) R w1 = ((Inl (sys_err 28 ''epoll_ctl_add''), d, R'), w2)"
    "pid (rp_process rp) = 42"
    by (simp add: demo_options_def full_os_def fork_os_def spawn_run spawn_eval)
  from failed_registration_abandons_child [OF this(1-3)] this(4) show ?thesis by auto
qed

end
