(* ===== verification/Inotify.thy ===== *)
theory Inotify
  imports FdIo RustStd Demo
begin

text \<open>
  The inotify helpers of \<^verbatim>\<open>src/src/inotify.rs\<close>: adding a watch, draining the descriptor, and decoding the
  packed stream of events. An event is a header of 16 bytes (descriptor, mask, cookie, length of the
  name; 32 bits each, little-endian) and its name, padded with zero bytes.
\<close>

section \<open>Events and masks\<close>

record inotify_event =
  ie_wd :: int
  ie_mask :: u32
  ie_name :: "str option"

definition IN_MODIFY :: u32 where "IN_MODIFY = 0x2"
definition IN_DELETE_SELF :: u32 where "IN_DELETE_SELF = 0x400"
definition IN_MOVE_SELF :: u32 where "IN_MOVE_SELF = 0x800"
definition IN_UNMOUNT :: u32 where "IN_UNMOUNT = 0x2000"
definition IN_Q_OVERFLOW :: u32 where "IN_Q_OVERFLOW = 0x4000"
definition IN_IGNORED :: u32 where "IN_IGNORED = 0x8000"

definition MODIFY_MASK :: u32 where "MODIFY_MASK = IN_MODIFY"
definition PACKAGE_FILE_MASK :: u32 where
  "PACKAGE_FILE_MASK = IN_MODIFY OR IN_DELETE_SELF OR IN_MOVE_SELF"
definition QUEUE_OVERFLOW_MASK :: u32 where "QUEUE_OVERFLOW_MASK = IN_Q_OVERFLOW"
definition IGNORED_MASK :: u32 where "IGNORED_MASK = IN_IGNORED"
definition UNMOUNT_MASK :: u32 where "UNMOUNT_MASK = IN_UNMOUNT"
definition DELETE_SELF_MASK :: u32 where "DELETE_SELF_MASK = IN_DELETE_SELF"
definition MOVE_SELF_MASK :: u32 where "MOVE_SELF_MASK = IN_MOVE_SELF"

section \<open>Adding a watch\<close>

definition add_watch :: "'k os \<Rightarrow> fd \<Rightarrow> str \<Rightarrow> u32 \<Rightarrow> 'k world \<Rightarrow> (sys_error + int) \<times> 'k world" where
  "add_watch K f path event_mask w =
     (case cstring_new path of
        None \<Rightarrow> (Inl (sys_err EINVAL ''inotify path contains nul''), w)
      | Some c \<Rightarrow>
          (let (wd, w1) = sys K (InotifyAddWatch (raw f) c event_mask) w
           in if r_ret wd < 0 then (Inl (sys_err (last_errno w1) ''inotify_add_watch''), w1)
              else (Inr (r_ret wd), w1)))"

section \<open>Decoding\<close>

definition BASE :: nat where "BASE = 16"

text \<open>\<open>read_unaligned\<close> of a little-endian 32-bit field.\<close>

definition le_u32 :: "byte list \<Rightarrow> u32" where
  "le_u32 bs = ucast (bs ! 0) OR push_bit 8 (ucast (bs ! 1)) OR push_bit 16 (ucast (bs ! 2))
     OR push_bit 24 (ucast (bs ! 3))"

record raw_header =
  rh_wd :: u32
  rh_mask :: u32
  rh_cookie :: u32
  rh_len :: u32

definition read_header :: "byte list \<Rightarrow> nat \<Rightarrow> raw_header" where
  "read_header buf offset =
     (let h = drop offset buf
      in \<lparr>rh_wd = le_u32 (take 4 h), rh_mask = le_u32 (take 4 (drop 4 h)),
          rh_cookie = le_u32 (take 4 (drop 8 h)), rh_len = le_u32 (take 4 (drop 12 h))\<rparr>)"

definition event_name :: "byte list \<Rightarrow> nat \<Rightarrow> u32 \<Rightarrow> str option" where
  "event_name buf offset len =
     (if 0 < len
      then (let name_buf = take (unat len) (drop (offset + BASE) buf)
            in Some (from_utf8_lossy (takeWhile (\<lambda>b. b \<noteq> 0) name_buf)))
      else None)"

function decode_loop :: "byte list \<Rightarrow> nat \<Rightarrow> inotify_event list \<Rightarrow> inotify_event list" where
  "decode_loop buf offset events =
     (if offset + BASE \<le> length buf
      then (let event = read_header buf offset;
                size = BASE + unat (rh_len event)
            in if length buf < offset + size then events
               else decode_loop buf (offset + size)
                      (events @ [\<lparr>ie_wd = sint (rh_wd event), ie_mask = rh_mask event,
                                  ie_name = event_name buf offset (rh_len event)\<rparr>]))
      else events)"
  by pat_completeness auto
termination
  by (relation "measure (\<lambda>(buf, offset, events). length buf - offset)") (auto simp: BASE_def)

declare decode_loop.simps [simp del]

definition decode_events :: "byte list \<Rightarrow> inotify_event list" where
  "decode_events buf = decode_loop buf 0 []"

section \<open>Draining the descriptor\<close>

partial_function (option) read_events_loop ::
  "'k os \<Rightarrow> fd \<Rightarrow> byte list \<Rightarrow> inotify_event list \<Rightarrow> 'k world
     \<Rightarrow> ((sys_error + inotify_event list) \<times> 'k world) option" where
  "read_events_loop K f buf all_events w = do {
     ((res, buf1), w1) \<leftarrow> read_slice K f buf w;
     (case res of
        Inr (Some n) \<Rightarrow>
          if n = 0 then Some (Inr all_events, w1)
          else read_events_loop K f buf1 (all_events @ decode_events (take n buf1)) w1
      | Inr None \<Rightarrow> Some (Inr all_events, w1)
      | Inl e \<Rightarrow> Some (Inl e, w1))
   }"

definition read_events ::
  "'k os \<Rightarrow> fd \<Rightarrow> 'k world \<Rightarrow> ((sys_error + inotify_event list) \<times> 'k world) option" where
  "read_events K f w = read_events_loop K f (replicate 4096 0) [] w"

section \<open>The stream of events as a sequence of records\<close>

text \<open>The reference decoder works on the rest of the stream instead of an offset.\<close>

definition name_of :: "byte list \<Rightarrow> str option" where
  "name_of bs = (if bs = [] then None else Some (from_utf8_lossy (takeWhile (\<lambda>b. b \<noteq> 0) bs)))"

function decode_rest :: "byte list \<Rightarrow> inotify_event list" where
  "decode_rest bs =
     (let h = read_header bs 0; n = unat (rh_len h)
      in if length bs < BASE \<or> length bs < BASE + n then []
         else \<lparr>ie_wd = sint (rh_wd h), ie_mask = rh_mask h, ie_name = name_of (take n (drop BASE bs))\<rparr>
                # decode_rest (drop (BASE + n) bs))"
  by pat_completeness auto
termination
  by (relation "measure length") (auto simp: BASE_def)

declare decode_rest.simps [simp del]

lemma read_header_drop: "read_header buf offset = read_header (drop offset buf) 0"
  by (simp add: read_header_def)

lemma event_name_rest:
  assumes "offset + (BASE + unat len) \<le> length buf"
  shows "event_name buf offset len = name_of (take (unat len) (drop BASE (drop offset buf)))"
proof (cases "len = 0")
  case True
  then show ?thesis by (simp add: event_name_def name_of_def)
next
  case False
  then have "0 < unat len" by (simp add: unat_gt_0)
  with assms False show ?thesis
    by (simp add: event_name_def name_of_def word_gt_0 add.commute BASE_def)
qed

lemma decode_loop_rest: "offset \<le> length buf \<Longrightarrow> decode_loop buf offset events = events @ decode_rest (drop offset buf)"
proof (induction buf offset events rule: decode_loop.induct)
  case (1 buf offset events)
  let ?h = "read_header buf offset"
  let ?n = "unat (rh_len ?h)"
  have h: "read_header (drop offset buf) 0 = ?h" using read_header_drop by metis
  show ?case
  proof (cases "offset + (BASE + ?n) \<le> length buf")
    case False
    then have "decode_rest (drop offset buf) = []"
      by (subst decode_rest.simps) (use h 1(2) False in \<open>auto simp: Let_def BASE_def\<close>)
    with False show ?thesis
      by (subst decode_loop.simps) (auto simp: Let_def)
  next
    case True
    let ?e = "\<lparr>ie_wd = sint (rh_wd ?h), ie_mask = rh_mask ?h, ie_name = event_name buf offset (rh_len ?h)\<rparr>"
    have "decode_loop buf offset events = decode_loop buf (offset + (BASE + ?n)) (events @ [?e])"
      using True by (subst decode_loop.simps) (simp add: Let_def)
    moreover have "decode_loop buf (offset + (BASE + ?n)) (events @ [?e])
        = (events @ [?e]) @ decode_rest (drop (offset + (BASE + ?n)) buf)"
      by (rule 1(1) [OF _ refl refl]) (use True in simp_all)
    moreover have "decode_rest (drop offset buf) = ?e # decode_rest (drop (offset + (BASE + ?n)) buf)"
    proof -
      have "\<not> length buf - offset < BASE" "\<not> length buf - offset < BASE + ?n" using True by linarith+
      then show ?thesis
        using event_name_rest [OF True]
        by (subst decode_rest.simps) (simp add: h Let_def add.commute)
    qed
    ultimately show ?thesis by simp
  qed
qed

lemma decode_events_rest: "decode_events buf = decode_rest buf"
  using decode_loop_rest [of 0 buf "[]"] by (simp add: decode_events_def)

text \<open>A record of the stream and its encoding.\<close>

record raw_event =
  re_wd :: u32
  re_mask :: u32
  re_cookie :: u32
  re_name :: "byte list"

definition le_bytes :: "u32 \<Rightarrow> byte list" where
  "le_bytes x = [ucast x, ucast (drop_bit 8 x), ucast (drop_bit 16 x), ucast (drop_bit 24 x)]"

definition encode_event :: "raw_event \<Rightarrow> byte list" where
  "encode_event e = le_bytes (re_wd e) @ le_bytes (re_mask e) @ le_bytes (re_cookie e)
     @ le_bytes (word_of_nat (length (re_name e))) @ re_name e"

definition event_of :: "raw_event \<Rightarrow> inotify_event" where
  "event_of e = \<lparr>ie_wd = sint (re_wd e), ie_mask = re_mask e, ie_name = name_of (re_name e)\<rparr>"

definition short_name :: "raw_event \<Rightarrow> bool" where
  "short_name e \<longleftrightarrow> length (re_name e) < 2 ^ 32"

lemma length_le_bytes [simp]: "length (le_bytes x) = 4"
  by (simp add: le_bytes_def)

lemma le_round [simp]: "le_u32 (le_bytes x) = x"
proof (rule bit_word_eqI)
  fix n assume "n < LENGTH(32)"
  then consider "n < 8" | "8 \<le> n" "n < 16" | "16 \<le> n" "n < 24" | "24 \<le> n" "n < 32" by fastforce
  then show "bit (le_u32 (le_bytes x)) n \<longleftrightarrow> bit x n"
    by cases (auto simp: le_u32_def le_bytes_def bit_simps)
qed

lemma decode_rest_encode:
  assumes "short_name e"
  shows "decode_rest (encode_event e @ bs) = event_of e # decode_rest bs"
proof -
  let ?s = "encode_event e @ bs"
  have h: "read_header ?s 0 = \<lparr>rh_wd = re_wd e, rh_mask = re_mask e, rh_cookie = re_cookie e,
      rh_len = word_of_nat (length (re_name e))\<rparr>"
    by (simp add: read_header_def encode_event_def)
  have n: "unat (word_of_nat (length (re_name e)) :: u32) = length (re_name e)"
    using assms by (simp add: short_name_def unat_of_nat)
  have l: "length (encode_event e) = BASE + length (re_name e)"
    by (simp add: encode_event_def BASE_def)
  have "take (length (re_name e)) (drop BASE ?s) = re_name e"
    by (simp add: encode_event_def BASE_def)
  with h n l show ?thesis
    by (subst decode_rest.simps) (simp add: Let_def event_of_def)
qed

lemma decode_rest_encodes:
  "list_all short_name es \<Longrightarrow> decode_rest (concat (map encode_event es) @ bs) = map event_of es @ decode_rest bs"
  by (induction es) (simp_all add: decode_rest_encode)

text \<open>What is left at the end: less than a header, or less than the header asks for.\<close>

definition truncated :: "byte list \<Rightarrow> bool" where
  "truncated bs \<longleftrightarrow> length bs < BASE \<or> length bs < BASE + unat (rh_len (read_header bs 0))"

lemma decode_truncated: "truncated bs \<Longrightarrow> decode_rest bs = []"
  by (subst decode_rest.simps) (auto simp: truncated_def Let_def)

section \<open>Draining\<close>

text \<open>The chunks a descriptor delivered, one per read that delivered anything.\<close>

definition chunks :: "int \<Rightarrow> event_log \<Rightarrow> byte list list" where
  "chunks n t = filter (\<lambda>c. c \<noteq> []) (map (read_bytes n) t)"

lemma chunks_append [simp]: "chunks n (s @ t) = chunks n s @ chunks n t"
  by (simp add: chunks_def)

lemma concat_chunks: "concat (chunks n t) = delivered n t"
  by (induction t) (simp_all add: chunks_def delivered_def)

definition inotify_run ::
  "fd \<Rightarrow> inotify_event list \<Rightarrow> 'k world \<Rightarrow> (sys_error + inotify_event list) \<times> 'k world \<Rightarrow> bool" where
  "inotify_run f events w y \<longleftrightarrow>
     (\<exists>t. runs w (snd y) t \<and> (\<forall>e \<in> set t. fst e = Read (raw f) 4096) \<and> t \<noteq> [] \<and>
       (case fst y of
          Inr evs \<Rightarrow> evs = events @ concat (map decode_events (chunks (raw f) t)) \<and>
            (would_block (snd (last t)) \<or> r_ret (snd (last t)) = 0)
        | Inl e \<Rightarrow> io_result ''read'' (snd (last t)) = Inl e))"

text \<open>One read delivers at most one chunk.\<close>

lemma read_slice_chunk:
  assumes "read_slice K f buf w = Some ((res, buf'), w')" and io: "io_bounded K" and len: "length buf = 4096"
  obtains t where "runs w w' t" and "\<forall>e \<in> set t. fst e = Read (raw f) 4096" and "t \<noteq> []"
    and "length buf' = 4096" and "res = io_result ''read'' (snd (last t))"
    and "chunks (raw f) t = (case res of Inr (Some n) \<Rightarrow> if n = 0 then [] else [take n buf'] | _ \<Rightarrow> [])"
proof -
  let ?c = "Read (raw f) 4096"
  obtain r where r: "retries K ?c w r w'" and ans: "(res, buf') = read_answer buf r w'"
    using assms(1) read_retry.returns_iff unfolding read_slice_def len by blast
  obtain rs where rs: "runs w w' (map (Pair ?c) rs @ [(?c, r)])" "list_all interrupted rs"
    using retries_runs [OF r] by blast
  have res: "res = io_result ''read'' r" using ans io_answer_result [OF r] by (simp add: read_answer_def)
  have l: "length buf' = 4096" using ans len by (simp add: read_answer_def split: if_splits)
  have q: "chunks (raw f) (map (Pair ?c) rs) = []"
    using rs(2) by (induction rs) (auto simp: chunks_def read_bytes_def interrupted_def)
  have one: "chunks (raw f) [(?c, r)] = (case res of Inr (Some n) \<Rightarrow> if n = 0 then [] else [take n buf'] | _ \<Rightarrow> [])"
  proof (cases "0 \<le> r_ret r")
    case True
    note b = retries_io(1) [OF io r True]
    have "res = Inr (Some (nat (r_ret r)))" using True res by (simp add: io_result_def would_block_def)
    moreover have "buf' = store buf (out_bytes (r_out r))" using ans True by (simp add: read_answer_def)
    moreover have "take (nat (r_ret r)) (store buf (out_bytes (r_out r))) = out_bytes (r_out r)"
      using b len by simp
    ultimately show ?thesis using True b by (auto simp: chunks_def read_bytes_def)
  next
    case False
    then have "res = Inr None \<or> (\<exists>e. res = Inl e)" using res by (auto simp: io_result_def)
    with False show ?thesis by (auto simp: chunks_def read_bytes_def)
  qed
  show thesis
    by (rule that [OF rs(1)]) (use l res q one in auto)
qed

text \<open>
  The rounds of the loop: reads that deliver a chunk, and a last one that delivers none. The loop is
  related to them once; what it returns is rule induction.
\<close>

abbreviation events_result :: "inotify_event list \<Rightarrow> sys_error + nat option \<Rightarrow> sys_error + inotify_event list" where
  "events_result events res \<equiv> (case res of Inl e \<Rightarrow> Inl e | Inr _ \<Rightarrow> Inr events)"

inductive event_rounds ::
  "'k os \<Rightarrow> fd \<Rightarrow> byte list \<Rightarrow> inotify_event list \<Rightarrow> 'k world \<Rightarrow> (sys_error + inotify_event list) \<times> 'k world \<Rightarrow> bool"
  for K f where
  ends: "read_slice K f buf w = Some ((res, buf1), w1) \<Longrightarrow> \<forall>n. res = Inr (Some n) \<longrightarrow> n = 0
     \<Longrightarrow> event_rounds K f buf events w (events_result events res, w1)"
| chunk: "read_slice K f buf w = Some ((Inr (Some n), buf1), w1) \<Longrightarrow> 0 < n
     \<Longrightarrow> event_rounds K f buf1 (events @ decode_events (take n buf1)) w1 y \<Longrightarrow> event_rounds K f buf events w y"

lemma read_events_loop_rounds:
  "read_events_loop K f buf events w = Some y \<Longrightarrow> event_rounds K f buf events w y"
proof (rule read_events_loop.raw_induct [where P = event_rounds], goal_cases)
  case (1 loop K f buf events w y)
  note IH = 1(2) and eq = 1(3)
  have "read_slice K f buf w \<noteq> None" using eq by (cases "read_slice K f buf w") simp_all
  then obtain res buf1 w1 where s: "read_slice K f buf w = Some ((res, buf1), w1)"
    by (metis option.exhaust prod.exhaust)
  show ?case
  proof (cases "\<exists>n. res = Inr (Some n) \<and> 0 < n")
    case True
    then obtain n where n: "res = Inr (Some n)" "0 < n" by blast
    with eq s have "loop K f buf1 (events @ decode_events (take n buf1)) w1 = Some y" by simp
    from event_rounds.chunk [OF s [unfolded n(1)] n(2) IH [OF this]] show ?thesis .
  next
    case False
    with eq s have "y = (events_result events res, w1)" by (cases res rule: io_exhaust) auto
    with event_rounds.ends [OF s] False show ?thesis by simp
  qed
qed

lemma inotify_run_chunk:
  assumes s: "read_slice K f buf w = Some ((Inr (Some n), buf1), w1)" and n: "0 < n"
    and io: "io_bounded K" and len: "length buf = 4096"
    and rest: "inotify_run f (events @ decode_events (take n buf1)) w1 y"
  shows "inotify_run f events w y"
proof -
  obtain t where t: "runs w w1 t" "\<forall>e \<in> set t. fst e = Read (raw f) 4096" "t \<noteq> []"
    and ch: "chunks (raw f) t = (case Inr (Some n) :: sys_error + nat option of
        Inr (Some n) \<Rightarrow> if n = 0 then [] else [take n buf1] | _ \<Rightarrow> [])"
    by (rule read_slice_chunk [OF s io len])
  obtain t' where t': "runs w1 (snd y) t'" "\<forall>e \<in> set t'. fst e = Read (raw f) 4096" "t' \<noteq> []"
    "case fst y of
       Inr evs \<Rightarrow> evs = (events @ decode_events (take n buf1)) @ concat (map decode_events (chunks (raw f) t')) \<and>
         (would_block (snd (last t')) \<or> r_ret (snd (last t')) = 0)
     | Inl e \<Rightarrow> io_result ''read'' (snd (last t')) = Inl e"
    using rest unfolding inotify_run_def by blast
  have "chunks (raw f) (t @ t') = take n buf1 # chunks (raw f) t'" using ch n by simp
  with t t' runs_trans [OF t(1) t'(1)] show ?thesis
    unfolding inotify_run_def by (intro exI [of _ "t @ t'"]) (auto split: sum.splits)
qed

lemma inotify_run_ends:
  assumes s: "read_slice K f buf w = Some ((res, buf1), w1)" and n: "\<forall>n. res = Inr (Some n) \<longrightarrow> n = 0"
    and io: "io_bounded K" and len: "length buf = 4096"
  shows "inotify_run f events w (events_result events res, w1)"
proof -
  obtain t where t: "runs w w1 t" "\<forall>e \<in> set t. fst e = Read (raw f) 4096" "t \<noteq> []"
    and res: "io_result ''read'' (snd (last t)) = res"
    and ch: "chunks (raw f) t = (case res of Inr (Some n) \<Rightarrow> if n = 0 then [] else [take n buf1] | _ \<Rightarrow> [])"
    by (rule read_slice_chunk [OF s io len]) simp
  from n res have "res = Inr None \<and> would_block (snd (last t)) \<or> res = Inr (Some 0) \<and> r_ret (snd (last t)) = 0
      \<or> (\<exists>e. res = Inl e)"
    by (cases res rule: io_exhaust) (auto simp: io_result_simps)
  with t res ch show ?thesis unfolding inotify_run_def by (intro exI [of _ t]) auto
qed

lemma read_events_loop_run:
  assumes "io_bounded K" and "read_events_loop K f buf events w = Some y" and "length buf = 4096"
  shows "inotify_run f events w y"
  using read_events_loop_rounds [OF assms(2)] assms(3)
proof (induction rule: event_rounds.induct)
  case (ends buf w res buf1 w1 events)
  then show ?case by (intro inotify_run_ends [OF ends(1,2) assms(1)])
next
  case (chunk buf w n buf1 w1 events y)
  have "length buf1 = 4096"
    by (rule read_slice_chunk [OF chunk(1) assms(1) chunk.prems])
  with chunk.IH show ?case by (intro inotify_run_chunk [OF chunk(1,2) assms(1) chunk.prems])
qed

text \<open>Draining does not end only while the descriptor goes on delivering data.\<close>

lemma read_events_loop_hangs:
  assumes "read_events_loop K f buf events w = None"
  shows "endless K (flows (raw f)) w"
proof (rule endless_progress [where X = "\<lambda>w. \<exists>buf events. read_events_loop K f buf events w = None"])
  show "\<exists>buf events. read_events_loop K f buf events w = None" using assms by blast
next
  fix w
  assume "\<exists>buf events. read_events_loop K f buf events w = None"
  then obtain buf events where none: "read_events_loop K f buf events w = None" by blast
  show "endless K (flows (raw f)) w \<or> (\<exists>t w1. execs K w t w1 \<and> t \<noteq> [] \<and> list_all (flows (raw f)) t \<and>
      (\<exists>buf events. read_events_loop K f buf events w1 = None))"
  proof (cases "read_slice K f buf w")
    case None
    then show ?thesis by (intro disjI1 read_slice_hangs)
  next
    case (Some y)
    then obtain res buf1 w1 where s: "read_slice K f buf w = Some ((res, buf1), w1)" by (metis prod.exhaust)
    have "\<exists>n. res = Inr (Some n) \<and> 0 < n \<and> (\<exists>buf events. read_events_loop K f buf events w1 = None)"
      using none s
      by (subst (asm) read_events_loop.simps) (cases res rule: io_exhaust; auto split: if_splits)
    with read_slice_flows s show ?thesis by blast
  qed
qed

section \<open>Properties\<close>

text \<open>C15. Decoding inverts the kernel's encoding. A buffer of whole event records, followed by a truncated
  one or by nothing, is decoded to exactly those events in order: descriptor, mask and name; a name
  padded with zero bytes comes back without them, and a record without a name has none.\<close>

theorem decode_events_roundtrip:
  assumes "list_all short_name es" and "truncated rest"
  shows "decode_events (concat (map encode_event es) @ rest) = map event_of es \<and>
     (\<forall>e \<in> set es. \<forall>nm k. re_name e = nm @ replicate (Suc k) 0 \<longrightarrow> 0 \<notin> set nm \<longrightarrow> valid_utf8 nm \<longrightarrow>
        ie_name (event_of e) = Some nm) \<and>
     (\<forall>e \<in> set es. re_name e = [] \<longrightarrow> ie_name (event_of e) = None)"
proof -
  have "takeWhile (\<lambda>b. b \<noteq> 0) (nm @ replicate (Suc k) 0) = nm" if "0 \<notin> set nm" for nm :: "byte list" and k
  proof -
    have "takeWhile (\<lambda>b. b \<noteq> 0) (nm @ 0 # replicate k 0) = nm @ takeWhile (\<lambda>b. b \<noteq> 0) (0 # replicate k 0)"
      using that by (intro takeWhile_append2) auto
    then show ?thesis by simp
  qed
  then show ?thesis
    using decode_rest_encodes [OF assms(1), of rest] decode_truncated [OF assms(2)]
    by (simp add: decode_events_rest event_of_def name_of_def lossy_valid del: replicate_Suc)
qed

theorem decode_events_roundtrip_witness:
  "decode_events (encode_event \<lparr>re_wd = 1, re_mask = 2, re_cookie = 0, re_name = [97, 0, 0, 0]\<rparr> @ [1, 0, 0])
     = [\<lparr>ie_wd = 1, ie_mask = 2, ie_name = Some [97]\<rparr>]"
proof -
  let ?e = "\<lparr>re_wd = 1, re_mask = 2, re_cookie = 0, re_name = [97, 0, 0, 0]\<rparr>"
  have "list_all short_name [?e]" "truncated [1, 0, 0]"
    by (simp_all add: short_name_def truncated_def BASE_def)
  note r = decode_events_roundtrip [OF this]
  have "valid_utf8 [97]" by (rule ascii_valid) simp
  moreover have "re_name ?e = [97] @ replicate (Suc 2) 0" by (simp add: numeral_2_eq_2)
  ultimately have "ie_name (event_of ?e) = Some [97]"
    by (intro r [THEN conjunct2, THEN conjunct1, rule_format, of ?e "[97]" 2]) simp_all
  then have "event_of ?e = \<lparr>ie_wd = 1, ie_mask = 2, ie_name = Some [97]\<rparr>" by (simp add: event_of_def)
  with r [THEN conjunct1] show ?thesis by simp
qed

text \<open>C24. The offset loop is the record-by-record decoder. \<open>decode_events\<close> never reads past its buffer: it
  equals the decoder that looks only at what is left of the stream; every event accounts for at least
  the 16 bytes of its header.\<close>

theorem decode_events_reference:
  "decode_events buf = decode_rest buf \<and> length (decode_events buf) * BASE \<le> length buf"
proof -
  have "length (decode_rest bs) * BASE \<le> length bs" for bs
  proof (induction bs rule: decode_rest.induct)
    case (1 bs)
    let ?n = "unat (rh_len (read_header bs 0))"
    show ?case
    proof (cases "length bs < BASE \<or> length bs < BASE + ?n")
      case True
      then show ?thesis by (subst decode_rest.simps) (simp add: Let_def)
    next
      case False
      with 1 have "length (decode_rest (drop (BASE + ?n) bs)) * BASE \<le> length bs - (BASE + ?n)" by simp
      then have "BASE + length (decode_rest (drop (BASE + ?n) bs)) * BASE \<le> length bs"
        using False by linarith
      with False show ?thesis by (subst decode_rest.simps) (simp add: Let_def)
    qed
  qed
  then show ?thesis by (simp add: decode_events_rest)
qed

text \<open>C23. Draining inotify. \<open>read_events\<close> reads 4096 bytes at a time until the descriptor would block or is at
  its end, so that no edge is lost; if the kernel hands out whole records with each read, the result is
  the decoding of everything delivered, in order; a failing read gives its error.\<close>

theorem read_events_drains:
  assumes "read_events K f w = Some (res, w')" and "io_bounded K" and "runs w w' t"
    and "\<forall>c \<in> set (chunks (raw f) t). \<exists>es. list_all short_name es \<and> c = concat (map encode_event es)"
  shows "(\<forall>e \<in> set t. fst e = Read (raw f) 4096) \<and> t \<noteq> [] \<and>
     (case res of
        Inr evs \<Rightarrow> evs = decode_events (delivered (raw f) t) \<and> (would_block (snd (last t)) \<or> r_ret (snd (last t)) = 0)
      | Inl e \<Rightarrow> r_ret (snd (last t)) < 0 \<and> code e = r_errno (snd (last t)))"
proof -
  have "inotify_run f [] w (res, w')"
    by (rule read_events_loop_run [OF assms(2) assms(1) [unfolded read_events_def] length_replicate])
  then obtain t' where t': "runs w w' t'" and r: "\<forall>e \<in> set t'. fst e = Read (raw f) 4096" "t' \<noteq> []"
    "case res of Inr evs \<Rightarrow> evs = [] @ concat (map decode_events (chunks (raw f) t')) \<and>
            (would_block (snd (last t')) \<or> r_ret (snd (last t')) = 0)
        | Inl e \<Rightarrow> io_result ''read'' (snd (last t')) = Inl e"
    unfolding inotify_run_def by auto
  have t: "t' = t" by (rule runs_unique [OF t' assms(3)])
  have nil: "decode_rest [] = []" by (rule decode_truncated) (simp add: truncated_def BASE_def)
  have split: "decode_events (concat cs) = concat (map decode_events cs)"
    if "\<forall>c \<in> set cs. \<exists>es. list_all short_name es \<and> c = concat (map encode_event es)" for cs
    using that
  proof (induction cs)
    case (Cons c cs)
    then obtain es where es: "list_all short_name es" "c = concat (map encode_event es)" by auto
    from Cons decode_rest_encodes [OF es(1), of "concat cs"] decode_rest_encodes [OF es(1), of "[]"] nil
    show ?case by (simp add: decode_events_rest es(2))
  qed (simp add: decode_events_rest nil)
  have "concat (map decode_events (chunks (raw f) t)) = decode_events (delivered (raw f) t)"
    using split [OF assms(4)] by (simp add: concat_chunks)
  with r show ?thesis
    unfolding t by (cases res) (auto simp: io_result_simps)
qed

text \<open>One read delivers a record, the next would block.\<close>

lemma demo_read_record:
  assumes "bs \<noteq> []" and "length bs \<le> 4096"
  shows "\<exists>w'. read_events demo_os (Fd 5) (demo_world [Data bs, Wait] [] []) = Some (Inr (decode_events bs), w') \<and>
     runs (demo_world [Data bs, Wait] [] []) w'
       [(Read 5 4096, ok_reply (int (length bs)) (OutBytes bs)), (Read 5 4096, err_reply 11)]"
  using assms
  by (simp add: read_events_def read_events_loop.simps read_slice_def read_raw.simps last_errno_def Let_def
      runs_def demo_os_def demo_trap_def demo_world_def ok_reply_def err_reply_def sys_def
      cong: bind_eval_cong prod.case_cong_weak)

theorem read_events_drains_witness:
  "\<exists>w'. read_events demo_os (Fd 5) (demo_world
       [Data (encode_event \<lparr>re_wd = 1, re_mask = 2, re_cookie = 0, re_name = []\<rparr>), Wait] [] [])
     = Some (Inr [\<lparr>ie_wd = 1, ie_mask = 2, ie_name = None\<rparr>], w')"
proof -
  let ?e = "\<lparr>re_wd = 1, re_mask = 2, re_cookie = 0, re_name = []\<rparr>"
  let ?bs = "encode_event ?e"
  let ?w = "demo_world [Data ?bs, Wait] [] []"
  let ?t = "[(Read 5 4096, ok_reply (int (length ?bs)) (OutBytes ?bs)), (Read 5 4096, err_reply 11)]"
  have len: "length ?bs = 16" by (simp add: encode_event_def)
  then have "?bs \<noteq> []" "length ?bs \<le> 4096" by auto
  from demo_read_record [OF this] obtain w' where r: "read_events demo_os (Fd 5) ?w = Some (Inr (decode_events ?bs), w')"
    and t: "runs ?w w' ?t" by blast
  have ch: "chunks (raw (Fd 5)) ?t = [?bs]"
    using \<open>?bs \<noteq> []\<close> by (simp add: chunks_def read_bytes_def ok_reply_def err_reply_def)
  have "list_all short_name [?e] \<and> ?bs = concat (map encode_event [?e])" by (simp add: short_name_def)
  then have "\<forall>c \<in> set (chunks (raw (Fd 5)) ?t). \<exists>es. list_all short_name es \<and> c = concat (map encode_event es)"
    unfolding ch by (metis empty_iff list.set(1) set_ConsD)
  from read_events_drains [OF r demo_io_bounded t this]
  have "decode_events ?bs = decode_events (delivered (raw (Fd 5)) ?t)" by simp
  moreover have "delivered (raw (Fd 5)) ?t = ?bs" using ch concat_chunks [of "raw (Fd 5)" ?t] by simp
  moreover have "decode_events ?bs = [\<lparr>ie_wd = 1, ie_mask = 2, ie_name = None\<rparr>]"
  proof -
    have "decode_rest [] = []" by (rule decode_truncated) (simp add: truncated_def BASE_def)
    with decode_rest_encodes [of "[?e]" "[]"] show ?thesis
      by (simp add: decode_events_rest short_name_def event_of_def name_of_def)
  qed
  ultimately show ?thesis using r by auto
qed

text \<open>Adding a watch. A path with a zero byte is refused without a call; any other path is passed to the
  kernel unchanged in a single call, whose watch descriptor, never negative, or errno is returned.\<close>

theorem add_watch_spec:
  "case add_watch K f path event_mask w of (res, w') \<Rightarrow>
     if 0 \<in> set path then res = Inl (sys_err EINVAL ''inotify path contains nul'') \<and> w' = w
     else \<exists>r. runs w w' [(InotifyAddWatch (raw f) path event_mask, r)] \<and>
       (case res of Inr wd \<Rightarrow> wd = r_ret r \<and> 0 \<le> wd
        | Inl e \<Rightarrow> r_ret r < 0 \<and> e = sys_err (r_errno r) ''inotify_add_watch'')"
proof (cases "0 \<in> set path")
  case True
  then show ?thesis by (simp add: add_watch_def)
next
  case False
  obtain r w1 where s: "sys K (InotifyAddWatch (raw f) path event_mask) w = (r, w1)" by fastforce
  with False runs_sys [OF s] last_errno_sys [OF s] show ?thesis by (auto simp: add_watch_def)
qed

end
