(* ===== verification/Spec2Isabelle.thy ===== *)
theory Spec2Isabelle
  imports SpawnRun Inotify
begin

text \<open>
  A verification development for the crate \<^verbatim>\<open>coreshift-lowlevel\<close>, a library of Linux system primitives: owned
  descriptors, an epoll reactor, pipes to child processes, spawning and waiting, inotify, procfs probes
  and a shutdown flag. Paths below are relative to \<^verbatim>\<open>src/src/\<close>.

  How the program works. \<^verbatim>\<open>spawn\<close> (\<^verbatim>\<open>spawn/mod.rs\<close>) makes a \<^verbatim>\<open>Reactor\<close> (\<^verbatim>\<open>reactor/mod.rs\<close>), starts the child with
  one of two backends, and gets back a \<^verbatim>\<open>DrainState\<close> (\<^verbatim>\<open>io/drain.rs\<close>) that owns the parent's ends of the
  pipes. The drain registers them with the reactor. \<^verbatim>\<open>wait_loop\<close> then goes round: look at the clock and
  signal the child if its time is up, poll for its status, and if the drain still has pipes wait for
  events and hand each to the drain, which reads into a \<^verbatim>\<open>BufferState\<close> (\<^verbatim>\<open>io/buffer.rs\<close>) or writes from a
  \<^verbatim>\<open>WriterState\<close> (\<^verbatim>\<open>io/writer.rs\<close>). When the drain is empty the status is awaited and the output returned.
  All descriptors are \<^verbatim>\<open>Fd\<close> values that close themselves when dropped; the model writes the drops out, in
  the order in which Rust makes them.

  The boundary (theory Kernel). The kernel, the C library and the clock are a parameter \<open>K\<close> of type
  \<open>'k os\<close>, which answers every \<open>call\<close> with a \<open>reply\<close> and a next kernel state; \<open>sys\<close> makes a call and records
  it with its reply in the trace of the \<open>world\<close>. A world after an operation is related to the one before
  by \<open>runs w w' t\<close>, where \<open>t\<close> is the part of the trace in between; the properties are statements about \<open>t\<close>.
  What the code relies on is stated as named hypotheses, each documented behaviour of a call: \<open>io_bounded\<close>
  (a read or write transfers at most what was asked for), \<open>epoll_bounded\<close> (no more events than asked for),
  \<open>pipe_ok\<close> (a successful \<open>pipe2\<close> returns two descriptors), \<open>linux_status\<close>. Nothing is assumed about how
  often a call is interrupted or how much data a pipe carries.
  A machine over traces (\<open>track\<close>, locale \<open>trace_machine\<close>) watches one aspect of a run: \<open>own_step\<close> the open
  descriptors (\<open>moves w w' A B\<close>: the run turns the owned multiset \<open>A\<close> into \<open>B\<close>, closes nothing it does not
  own and nothing twice), \<open>guard_step\<close> the \<open>posix_spawn\<close> objects, \<open>policy_step\<close> the signals. The locale
  \<open>retry_loop\<close> holds the contract of the loops that repeat a call while it is interrupted, and is
  interpreted on \<open>dup2\<close>, \<open>read_raw\<close>, \<open>write_raw\<close>, \<open>wait_step\<close> and \<open>wait_blocking\<close>.

  Loops. A loop that may run for ever is a \<open>partial_function (option)\<close>, where \<open>None\<close> is "does not return";
  no fuel is used. That the interruptions of a call or the data of a pipe end is not assumed; instead it is
  proved when the operation does not return. \<open>execs K w t w'\<close> is a finite execution of the kernel \<open>K\<close>,
  \<open>endless K P w\<close> an infinite one whose events are all of the kind \<open>P\<close>, and lemmas say which endless
  execution a loop that does not return takes: \<open>hangs_iff\<close> of \<open>retry_loop\<close>, \<open>read_from_fd_loop_hangs\<close>,
  \<open>write_to_fd_hangs\<close>, \<open>read_events_loop_hangs\<close>, \<open>readahead_loop_hangs\<close>, \<open>handle_output_hangs\<close>,
  \<open>wait_round_hangs_iff\<close>, \<open>wait_rounds_hangs_iff\<close>. All of them are relative to system calls that
  come back: \<open>sys\<close> always has a reply, so a call in which the process sleeps for ever is outside the
  model. The loops over finite data are total functions.

  Theories, in the order of their imports.
    \<^item> Prelude: machine types, buffers, lists. RustStd: the standard library the parsers use (UTF-8
      decoding, \<open>lines\<close>, \<open>trim\<close>, \<open>parse\<close>, decimal output). Demo: a scripted kernel for the witnesses.
    \<^item> SysErr: \<^verbatim>\<open>SysError\<close> and its text, \<^verbatim>\<open>syscall_ret\<close>, \<^verbatim>\<open>posix_ret\<close>. FdIo: \<^verbatim>\<open>Fd\<close> and its system calls.
    \<^item> Buffer: \<^verbatim>\<open>BufferState\<close>; a call of \<open>read_from_fd\<close> appends exactly the delivered bytes cut at the limit,
      to the right stream, until EAGAIN, end of file, an accepted chunk or an error.
    \<^item> Writer: \<^verbatim>\<open>WriterState\<close>; the bytes accepted so far are always a prefix of the buffer.
    \<^item> Reactor: tokens strictly increase, registrations and event conversion, ownership.
    \<^item> Drain: \<^verbatim>\<open>DrainState\<close>; \<open>drain_reach\<close> is any sequence of readiness handlers, over which the captured
      streams and the ownership of the pipes are invariants; registration; direct reads and writes.
    \<^item> SysMod: \<^verbatim>\<open>sys/mod.rs\<close>: path probes, procfs parsing, the shutdown flag, read-ahead, signal sets, the
      execution context.
    \<^item> Proc: \<^verbatim>\<open>Process\<close>, \<^verbatim>\<open>ExitStatus\<close>, waiting, signals.
    \<^item> Spawn: options, builder, choice of the backend, pipes, both backends, \<^verbatim>\<open>spawn_start\<close>.
      SpawnOwn: ownership of descriptors through all of it. SpawnGuard: the life of the file actions and
      the attributes. SpawnChild: the calls of the forked child, and the descriptor table either backend
      leaves it with.
    \<^item> IoCalls: which calls the I/O operations make. WaitLoop: \<^verbatim>\<open>wait_loop\<close>, \<^verbatim>\<open>spawn\<close>, \<^verbatim>\<open>SpawnOptions::run\<close>.
      WaitFacts: the structure of a run of the loop. WaitPolicy: the kill policy as an abstract machine,
      the refinement, signals, deadlines, poll timeouts. WaitResult: what the loop returns, and that a
      run leaks nothing. WaitEnd: exactly when the loop does not return.
    \<^item> SpawnRun: a whole run of \<^verbatim>\<open>spawn\<close> from the pipes to the output, composed from all of the above.
    \<^item> Inotify: \<^verbatim>\<open>inotify.rs\<close>: the event decoder against the kernel's encoding and against a reference
      decoder, draining of the descriptor, watches.

  Conventions. C integers that are only compared and passed on are unbounded integers; counters that wrap,
  event masks, timeouts and header fields are words; conversions that truncate (\<open>as i32\<close>, \<open>as c_uint\<close>)
  are written out. Strings are byte lists. Times are nanoseconds. A forked child is the constructor
  \<open>In_child\<close> of the result: the model follows the parent or the child according to the reply to \<open>Fork\<close>.

  Not modelled: the derived formatting, cloning and (de)serialization code;
  the constant system-call numbers and the fallback of \<^verbatim>\<open>readahead_raw\<close> for other operating systems; the
  declarations of foreign functions; panics on exhausted memory; the tests and examples. What the started
  program does is up to the kernel parameter. Signals are delivered between calls only: the handler of the
  shutdown flag is an operation of its own, and \<open>install_shutdown_flag\<close> takes, as a parameter that stands for
  the environment, the signals for which it runs after each of the calls made during the installation.
\<close>

end
